(* ===== verification/Prelude.thy ===== *)
theory Prelude
  imports Main "HOL-Library.Word"
begin

text \<open>
  What the other theories share.

  \<^item> \<open>fault\<close> and \<open>res\<close>: the ways in which the C code can fail.  Every operation that can abort,
    run into an \<open>assert\<close>, dereference a null pointer, use a freed node, read or write outside a
    memory block, overflow a signed integer or read an inactive union member returns a value of
    the sum type \<open>'a res\<close>, with \<open>Inl\<close> for the failure.
  \<^item> \<open>bindr\<close>: sequencing of such operations (the first failure wins), with its congruence rule,
    so that it can be used in recursive definitions.
  \<^item> bytes (\<open>unsigned char\<close>) as \<open>8 word\<close>, the names of the character constants the code uses, and
    C string literals as byte lists.
  \<^item> bounds-checked reading and writing of memory blocks, and the arithmetic of \<open>bufsize_t\<close>.
\<close>

unbundle bit_operations_syntax

section \<open>Failures\<close>

datatype fault =
    Abort            \<comment> \<open>\<open>abort()\<close>\<close>
  | Assert_failed    \<comment> \<open>a failed \<open>assert\<close>\<close>
  | Out_of_bounds    \<comment> \<open>access outside a memory block\<close>
  | Null_deref       \<comment> \<open>dereference of a null pointer\<close>
  | Bad_pointer      \<comment> \<open>dereference of a pointer to no live object\<close>
  | Type_pun         \<comment> \<open>read of a union member that is not the active one\<close>
  | Int_overflow     \<comment> \<open>overflow of a signed integer\<close>
  | Out_of_fuel      \<comment> \<open>the loop has not ended within the fuel\<close>

type_synonym 'a res = "fault + 'a"

definition bindr :: "'e + 'a \<Rightarrow> ('a \<Rightarrow> 'e + 'b) \<Rightarrow> 'e + 'b" where
  "bindr m f = (case m of Inl e \<Rightarrow> Inl e | Inr x \<Rightarrow> f x)"

definition guard :: "bool \<Rightarrow> fault \<Rightarrow> unit res" where
  "guard b e = (if b then Inr () else Inl e)"

named_theorems res_simps \<open>evaluation of the failure monad\<close>
named_theorems res_elims \<open>inversion of successful runs\<close>

lemma bindr_Inl [simp, res_simps]: "bindr (Inl e) f = Inl e"
  by (simp add: bindr_def)

lemma bindr_Inr [simp, res_simps]: "bindr (Inr x) f = f x"
  by (simp add: bindr_def)

lemma bindr_cong [fundef_cong]:
  "m = m' \<Longrightarrow> (\<And>x. m' = Inr x \<Longrightarrow> f x = g x) \<Longrightarrow> bindr m f = bindr m' g"
  by (auto simp: bindr_def split: sum.splits)

lemma bindr_eq_Inr [simp]: "bindr m f = Inr y \<longleftrightarrow> (\<exists>x. m = Inr x \<and> f x = Inr y)"
  by (cases m) auto

lemma bindr_eq_InrE [res_elims]:
  assumes "bindr m f = Inr y"
  obtains x where "m = Inr x" and "f x = Inr y"
  using assms by (cases m) auto

lemma bindr_assoc: "bindr (bindr m f) g = bindr m (\<lambda>x. bindr (f x) g)"
  by (cases m) auto

lemma guard_True [simp, res_simps]: "guard True e = Inr ()"
  by (simp add: guard_def)

lemma guard_False [simp, res_simps]: "guard False e = Inl e"
  by (simp add: guard_def)

lemma guard_eq_Inr [simp]: "guard b e = Inr u \<longleftrightarrow> b"
  by (simp add: guard_def)

text \<open>An operation on every element of a list, in order.\<close>

fun each :: "('e \<Rightarrow> 's \<Rightarrow> 's res) \<Rightarrow> 'e list \<Rightarrow> 's \<Rightarrow> 's res" where
  "each f [] s = Inr s"
| "each f (x # xs) s = bindr (f x s) (each f xs)"

definition fails :: "'a res \<Rightarrow> bool" where
  "fails m = (case m of Inl _ \<Rightarrow> True | Inr _ \<Rightarrow> False)"

lemma fails_simps [simp]: "fails (Inl e)" "\<not> fails (Inr x)"
  by (simp_all add: fails_def)

lemma not_fails: "\<not> fails m \<longleftrightarrow> (\<exists>x. m = Inr x)"
  by (cases m) auto

section \<open>Bytes and string literals\<close>

type_synonym byte = "8 word"

text \<open>A C string literal, without its terminating NUL.\<close>

definition str :: "string \<Rightarrow> byte list" where
  "str s = map of_char s"

lemma str_Nil [simp]: "str [] = []"
  by (simp add: str_def)

lemma str_Cons [simp]: "str (c # s) = of_char c # str s"
  by (simp add: str_def)

abbreviation NUL :: byte where "NUL \<equiv> 0"
abbreviation TAB :: byte where "TAB \<equiv> 0x09"
abbreviation LF :: byte where "LF \<equiv> 0x0A"
abbreviation CR :: byte where "CR \<equiv> 0x0D"
abbreviation SPACE :: byte where "SPACE \<equiv> 0x20"
abbreviation BANG :: byte where "BANG \<equiv> 0x21"
abbreviation DQUOTE :: byte where "DQUOTE \<equiv> 0x22"
abbreviation HASH :: byte where "HASH \<equiv> 0x23"
abbreviation PERCENT :: byte where "PERCENT \<equiv> 0x25"
abbreviation AMP :: byte where "AMP \<equiv> 0x26"
abbreviation SQUOTE :: byte where "SQUOTE \<equiv> 0x27"
abbreviation LPAREN :: byte where "LPAREN \<equiv> 0x28"
abbreviation RPAREN :: byte where "RPAREN \<equiv> 0x29"
abbreviation ASTERISK :: byte where "ASTERISK \<equiv> 0x2A"
abbreviation PLUS :: byte where "PLUS \<equiv> 0x2B"
abbreviation HYPHEN :: byte where "HYPHEN \<equiv> 0x2D"
abbreviation PERIOD :: byte where "PERIOD \<equiv> 0x2E"
abbreviation SLASH :: byte where "SLASH \<equiv> 0x2F"
abbreviation DIGIT0 :: byte where "DIGIT0 \<equiv> 0x30"
abbreviation COLON :: byte where "COLON \<equiv> 0x3A"
abbreviation SEMICOLON :: byte where "SEMICOLON \<equiv> 0x3B"
abbreviation LESS_THAN :: byte where "LESS_THAN \<equiv> 0x3C"
abbreviation GREATER_THAN :: byte where "GREATER_THAN \<equiv> 0x3E"
abbreviation LBRACKET :: byte where "LBRACKET \<equiv> 0x5B"
abbreviation BACKSLASH :: byte where "BACKSLASH \<equiv> 0x5C"
abbreviation RBRACKET :: byte where "RBRACKET \<equiv> 0x5D"
abbreviation CARET :: byte where "CARET \<equiv> 0x5E"
abbreviation UNDERSCORE :: byte where "UNDERSCORE \<equiv> 0x5F"
abbreviation BACKTICK :: byte where "BACKTICK \<equiv> 0x60"

text \<open>What \<open>%d\<close> prints.\<close>

fun digits :: "nat \<Rightarrow> byte list" where
  "digits n = (if n < 10 then [] else digits (n div 10)) @ [DIGIT0 + of_nat (n mod 10)]"

declare digits.simps [simp del]

definition decimal :: "int \<Rightarrow> byte list" where
  "decimal i = (if i < 0 then [HYPHEN] else []) @ digits (nat \<bar>i\<bar>)"

section \<open>Memory blocks\<close>

definition peek :: "'a list \<Rightarrow> int \<Rightarrow> 'a res" where
  "peek blk i = (if 0 \<le> i \<and> i < int (length blk) then Inr (blk ! nat i) else Inl Out_of_bounds)"

definition poke :: "'a list \<Rightarrow> int \<Rightarrow> 'a \<Rightarrow> 'a list res" where
  "poke blk i b =
     (if 0 \<le> i \<and> i < int (length blk) then Inr (blk[nat i := b]) else Inl Out_of_bounds)"

text \<open>\<open>memmove\<close>: \<open>bs\<close> is the source block as it was before the move.\<close>

definition poke_range :: "'a list \<Rightarrow> int \<Rightarrow> 'a list \<Rightarrow> 'a list res" where
  "poke_range blk i bs =
     (if 0 \<le> i \<and> i + int (length bs) \<le> int (length blk)
      then Inr (take (nat i) blk @ bs @ drop (nat i + length bs) blk)
      else Inl Out_of_bounds)"

named_theorems block \<open>successful accesses to memory blocks\<close>

lemma peek_Inr [block]:
  "peek blk i = Inr b \<longleftrightarrow> 0 \<le> i \<and> i < int (length blk) \<and> b = blk ! nat i"
  by (auto simp: peek_def)

lemma poke_Inr [block]:
  "poke blk i b = Inr blk' \<longleftrightarrow> 0 \<le> i \<and> i < int (length blk) \<and> blk' = blk[nat i := b]"
  by (auto simp: poke_def)

lemma poke_range_Inr [block]:
  "poke_range blk i bs = Inr blk' \<longleftrightarrow>
     0 \<le> i \<and> i + int (length bs) \<le> int (length blk) \<and>
     blk' = take (nat i) blk @ bs @ drop (nat i + length bs) blk"
  by (auto simp: poke_range_def)

lemma poke_at [simp]: "poke (xs @ y # ys) (int (length xs)) b = Inr (xs @ b # ys)"
  by (simp add: poke_def)

lemma peek_at [simp]: "peek (xs @ y # ys) (int (length xs)) = Inr y"
  by (simp add: peek_def)

lemma peek_0 [simp]: "peek (y # ys) 0 = Inr y"
  by (simp add: peek_def)

section \<open>Signed 32-bit arithmetic\<close>

text \<open>\<open>bufsize_t\<close> is \<open>int32_t\<close>; overflow of a signed addition is undefined behaviour in C.\<close>

definition INT32_MAX :: int where "INT32_MAX = 2147483647"

definition INT32_MIN :: int where "INT32_MIN = - 2147483648"

definition int32 :: "int \<Rightarrow> bool" where
  "int32 i \<longleftrightarrow> INT32_MIN \<le> i \<and> i \<le> INT32_MAX"

definition add_i32 :: "int \<Rightarrow> int \<Rightarrow> int res" where
  "add_i32 a b = (if int32 (a + b) then Inr (a + b) else Inl Int_overflow)"

lemma add_i32_Inr [simp]: "add_i32 a b = Inr c \<longleftrightarrow> int32 (a + b) \<and> c = a + b"
  by (auto simp: add_i32_def)

section \<open>Lists\<close>

definition hd_opt :: "'a list \<Rightarrow> 'a option" where
  "hd_opt xs = (case xs of [] \<Rightarrow> None | x # _ \<Rightarrow> Some x)"

definition last_opt :: "'a list \<Rightarrow> 'a option" where
  "last_opt xs = (if xs = [] then None else Some (last xs))"

lemma hd_opt_simps [simp]: "hd_opt [] = None" "hd_opt (x # xs) = Some x"
  by (simp_all add: hd_opt_def)

lemma last_opt_simps [simp]: "last_opt [] = None" "last_opt (xs @ [x]) = Some x"
  by (simp_all add: last_opt_def)

lemma last_opt_append [simp]:
  "last_opt (xs @ ys) = (if ys = [] then last_opt xs else last_opt ys)"
  by (simp add: last_opt_def)

lemma hd_opt_append [simp]:
  "hd_opt (xs @ ys) = (if xs = [] then hd_opt ys else hd_opt xs)"
  by (cases xs) auto

lemma last_opt_Cons: "last_opt (x # xs) = (if xs = [] then Some x else last_opt xs)"
  by (simp add: last_opt_def)

lemma hd_opt_None [simp]: "hd_opt xs = None \<longleftrightarrow> xs = []"
  by (cases xs) auto

lemma last_opt_None [simp]: "last_opt xs = None \<longleftrightarrow> xs = []"
  by (simp add: last_opt_def)

lemma hd_opt_in: "hd_opt xs = Some x \<Longrightarrow> x \<in> set xs"
  by (cases xs) auto

lemma last_opt_in: "last_opt xs = Some x \<Longrightarrow> x \<in> set xs"
  by (auto simp: last_opt_def split: if_splits)

lemma take_update_less [simp]: "n \<le> i \<Longrightarrow> take n (xs[i := x]) = take n xs"
  by (simp add: list_eq_iff_nth_eq)

lemma take_Suc_update [simp]: "i < length xs \<Longrightarrow> take (Suc i) (xs[i := x]) = take i xs @ [x]"
  by (simp add: take_Suc_conv_app_nth)

text \<open>A table of 256 entries is read at the value of a byte.\<close>

lemma unat_byte_less [simp]: "unat (b :: byte) < 256"
  using unsigned_less [of b, where ?'a = nat] by simp

lemma table_lookup:
  assumes "tbl = map f [0..<256]"
  shows "tbl ! unat (b :: byte) = f (unat b)"
  using assms by simp

text \<open>A property of all bytes is checked on the 256 of them.\<close>

lemma all_bytes:
  assumes "list_all (\<lambda>n. P (word_of_nat n)) [0..<256]"
  shows "P (b :: byte)"
proof -
  have "unat b \<in> set [0..<256]" by simp
  with assms have "P (word_of_nat (unat b))" unfolding list_all_iff by blast
  then show ?thesis by simp
qed

end
