(* ===== verification/Ctype.thy ===== *)
theory Ctype
  imports Prelude
begin

text \<open>
  Character classes, src/src/cmark_ctype.c: the 256-entry class table and the five predicates
  that read it.  The lemmas say which bytes each class holds, and that the classes exclude one
  another; the parsers' reasoning about white space and punctuation rests on them.
\<close>

section \<open>The class table\<close>

definition cmark_ctype_class :: "nat list" where
  "cmark_ctype_class =
   [0, 0, 0, 0, 0, 0, 0, 0, 0, 1, 1, 0, 0, 1, 0, 0, 0, 0, 0, 0, 0, 0, 0, 0, 0, 0, 0, 0, 0, 0, 0, 0,
    1, 2, 2, 2, 2, 2, 2, 2, 2, 2, 2, 2, 2, 2, 2, 2, 3, 3, 3, 3, 3, 3, 3, 3, 3, 3, 2, 2, 2, 2, 2, 2,
    2, 4, 4, 4, 4, 4, 4, 4, 4, 4, 4, 4, 4, 4, 4, 4, 4, 4, 4, 4, 4, 4, 4, 4, 4, 4, 4, 2, 2, 2, 2, 2,
    2, 4, 4, 4, 4, 4, 4, 4, 4, 4, 4, 4, 4, 4, 4, 4, 4, 4, 4, 4, 4, 4, 4, 4, 4, 4, 4, 2, 2, 2, 2, 0,
    0, 0, 0, 0, 0, 0, 0, 0, 0, 0, 0, 0, 0, 0, 0, 0, 0, 0, 0, 0, 0, 0, 0, 0, 0, 0, 0, 0, 0, 0, 0, 0,
    0, 0, 0, 0, 0, 0, 0, 0, 0, 0, 0, 0, 0, 0, 0, 0, 0, 0, 0, 0, 0, 0, 0, 0, 0, 0, 0, 0, 0, 0, 0, 0,
    0, 0, 0, 0, 0, 0, 0, 0, 0, 0, 0, 0, 0, 0, 0, 0, 0, 0, 0, 0, 0, 0, 0, 0, 0, 0, 0, 0, 0, 0, 0, 0,
    0, 0, 0, 0, 0, 0, 0, 0, 0, 0, 0, 0, 0, 0, 0, 0, 0, 0, 0, 0, 0, 0, 0, 0, 0, 0, 0, 0, 0, 0, 0, 0]"

definition cmark_isspace :: "byte \<Rightarrow> bool" where
  "cmark_isspace c \<longleftrightarrow> cmark_ctype_class ! unat c = 1"

definition cmark_ispunct :: "byte \<Rightarrow> bool" where
  "cmark_ispunct c \<longleftrightarrow> cmark_ctype_class ! unat c = 2"

definition cmark_isalnum :: "byte \<Rightarrow> bool" where
  "cmark_isalnum c \<longleftrightarrow> (let result = cmark_ctype_class ! unat c in result = 3 \<or> result = 4)"

definition cmark_isdigit :: "byte \<Rightarrow> bool" where
  "cmark_isdigit c \<longleftrightarrow> cmark_ctype_class ! unat c = 3"

definition cmark_isalpha :: "byte \<Rightarrow> bool" where
  "cmark_isalpha c \<longleftrightarrow> cmark_ctype_class ! unat c = 4"

section \<open>What the table says\<close>

text \<open>The class of a byte by ranges: the specification the table is compared with.\<close>

definition ctype_spec :: "nat \<Rightarrow> nat" where
  "ctype_spec n =
     (if n = 9 \<or> n = 10 \<or> n = 13 \<or> n = 32 then 1
      else if 33 \<le> n \<and> n \<le> 47 \<or> 58 \<le> n \<and> n \<le> 64 \<or> 91 \<le> n \<and> n \<le> 96 \<or> 123 \<le> n \<and> n \<le> 126
      then 2
      else if 48 \<le> n \<and> n \<le> 57 then 3
      else if 65 \<le> n \<and> n \<le> 90 \<or> 97 \<le> n \<and> n \<le> 122 then 4
      else 0)"

lemma ctype_table: "cmark_ctype_class = map ctype_spec [0..<256]"
  by code_simp

lemmas ctype_lookup = table_lookup [OF ctype_table]

named_theorems ctype \<open>the character classes by ranges\<close>

lemma isspace_iff [ctype]:
  "cmark_isspace c \<longleftrightarrow> c = SPACE \<or> c = TAB \<or> c = LF \<or> c = CR"
  by (auto simp: cmark_isspace_def ctype_lookup ctype_spec_def word_unat_eq_iff)

lemma ispunct_iff [ctype]:
  "cmark_ispunct c \<longleftrightarrow>
     33 \<le> unat c \<and> unat c \<le> 47 \<or> 58 \<le> unat c \<and> unat c \<le> 64 \<or>
     91 \<le> unat c \<and> unat c \<le> 96 \<or> 123 \<le> unat c \<and> unat c \<le> 126"
  by (auto simp: cmark_ispunct_def ctype_lookup ctype_spec_def)

lemma isdigit_iff [ctype]: "cmark_isdigit c \<longleftrightarrow> 48 \<le> unat c \<and> unat c \<le> 57"
  by (auto simp: cmark_isdigit_def ctype_lookup ctype_spec_def)

lemma isalpha_iff [ctype]:
  "cmark_isalpha c \<longleftrightarrow> 65 \<le> unat c \<and> unat c \<le> 90 \<or> 97 \<le> unat c \<and> unat c \<le> 122"
  by (auto simp: cmark_isalpha_def ctype_lookup ctype_spec_def)

lemma isalnum_iff [ctype]: "cmark_isalnum c \<longleftrightarrow> cmark_isalpha c \<or> cmark_isdigit c"
  by (auto simp: cmark_isalnum_def cmark_isalpha_def cmark_isdigit_def Let_def)

lemma isspace_not_ispunct: "cmark_isspace c \<Longrightarrow> \<not> cmark_ispunct c"
  by (simp add: cmark_isspace_def cmark_ispunct_def)

lemma isspace_NUL [simp]: "\<not> cmark_isspace NUL"
  by (simp add: ctype)

lemma ispunct_NUL [simp]: "\<not> cmark_ispunct NUL"
  by (simp add: ctype)

lemma isspace_SPACE [simp]: "cmark_isspace SPACE"
  by (simp add: ctype)

lemma ispunct_BACKSLASH [simp]: "cmark_ispunct BACKSLASH"
  by (simp add: ctype)

end
