(* ===== verification/Strbuf.thy ===== *)
theory Strbuf
  imports Ctype
begin

text \<open>
  The growable byte buffer, src/src/buffer.c.

  A buffer owns a memory block \<open>ptr\<close> of \<open>asize\<close> bytes of which the first \<open>bsize\<close> are its
  contents; a fresh buffer has \<open>asize = 0\<close> and points to a shared one-byte block.  Every access
  to the block is bounds checked in the model, so that a run without fault is a memory-safe run.
  \<open>strbuf_inv\<close> is the invariant, \<open>terminated\<close> says that a NUL follows the contents.
  Each operation comes with a lemma that gives its effect on the contents; the in-place loops
  (\<open>normalize_whitespace\<close>, \<open>unescape\<close>) are compared with list functions.
  The locale \<open>byte_sink\<close> is what the clients of the buffer rely on: they only append to it.
\<close>

section \<open>The data\<close>

text \<open>
  Of the allocator only its identity (\<open>cmark_mem\<close> pointers are compared) and the contents of fresh
  cells are visible: \<open>realloc\<close> leaves the cells it adds indeterminate, and \<open>fresh\<close> says what they
  happen to hold.
\<close>

record cmark_mem =
  mem_id :: nat
  fresh :: "nat \<Rightarrow> byte"

definition mem_realloc :: "cmark_mem \<Rightarrow> byte list \<Rightarrow> int \<Rightarrow> byte list" where
  "mem_realloc m old n = take (nat n) old @ map (fresh m) [length old..<nat n]"

record cmark_strbuf =
  mem :: cmark_mem
  ptr :: "byte list"
  asize :: int
  bsize :: int

definition cmark_strbuf__initbuf :: "byte list" where
  "cmark_strbuf__initbuf = [0]"

definition contents :: "cmark_strbuf \<Rightarrow> byte list" where
  "contents buf = take (nat (bsize buf)) (ptr buf)"

section \<open>The operations\<close>

definition grow_limit :: int where
  "grow_limit = INT32_MAX div 2"

definition cmark_strbuf_grow :: "cmark_strbuf \<Rightarrow> int \<Rightarrow> cmark_strbuf res" where
  "cmark_strbuf_grow buf target =
     bindr (guard (target > 0) Assert_failed) (\<lambda>_.
     if target < asize buf then Inr buf
     else if target > grow_limit then Inl Abort
     else
       let new_size = target + target div 2;
           new_size = new_size + 1;
           new_size = (new_size + 7) AND NOT 7
       in Inr (buf\<lparr>ptr := mem_realloc (mem buf) (if asize buf \<noteq> 0 then ptr buf else []) new_size,
                   asize := new_size\<rparr>))"

definition S_strbuf_grow_by :: "cmark_strbuf \<Rightarrow> int \<Rightarrow> cmark_strbuf res" where
  "S_strbuf_grow_by buf add =
     bindr (add_i32 (bsize buf) add) (\<lambda>target. cmark_strbuf_grow buf target)"

definition strbuf_empty :: "cmark_mem \<Rightarrow> cmark_strbuf" where
  "strbuf_empty m = \<lparr>mem = m, ptr = cmark_strbuf__initbuf, asize = 0, bsize = 0\<rparr>"

definition cmark_strbuf_init :: "cmark_mem \<Rightarrow> int \<Rightarrow> cmark_strbuf res" where
  "cmark_strbuf_init m initial_size =
     (let buf = strbuf_empty m
      in if initial_size > 0 then cmark_strbuf_grow buf initial_size else Inr buf)"

definition cmark_strbuf_len :: "cmark_strbuf \<Rightarrow> int" where
  "cmark_strbuf_len buf = bsize buf"

definition cmark_strbuf_free :: "cmark_strbuf \<Rightarrow> cmark_strbuf res" where
  "cmark_strbuf_free buf = cmark_strbuf_init (mem buf) 0"

definition cmark_strbuf_clear :: "cmark_strbuf \<Rightarrow> cmark_strbuf res" where
  "cmark_strbuf_clear buf =
     (let buf = buf\<lparr>bsize := 0\<rparr>
      in if asize buf > 0 then bindr (poke (ptr buf) 0 NUL) (\<lambda>p. Inr (buf\<lparr>ptr := p\<rparr>)) else Inr buf)"

text \<open>The \<open>data\<close> argument of \<open>cmark_strbuf_set\<close>: null, the buffer's own block, or another one.\<close>

datatype data_src = Null_data | Own_block | Block "byte list"

definition read_range :: "byte list \<Rightarrow> int \<Rightarrow> byte list res" where
  "read_range data len =
     (if len \<le> int (length data) then Inr (take (nat len) data) else Inl Out_of_bounds)"

definition put_nul :: "cmark_strbuf \<Rightarrow> cmark_strbuf res" where
  "put_nul buf = bindr (poke (ptr buf) (bsize buf) NUL) (\<lambda>p. Inr (buf\<lparr>ptr := p\<rparr>))"

definition cmark_strbuf_set :: "cmark_strbuf \<Rightarrow> data_src \<Rightarrow> int \<Rightarrow> cmark_strbuf res" where
  "cmark_strbuf_set buf data len =
     (if len \<le> 0 \<or> data = Null_data then cmark_strbuf_clear buf
      else
        bindr (case data of
                 Block bs \<Rightarrow>
                   bindr (if len \<ge> asize buf then cmark_strbuf_grow buf len else Inr buf) (\<lambda>buf.
                   bindr (read_range bs len) (\<lambda>bs.
                   bindr (poke_range (ptr buf) 0 bs) (\<lambda>p. Inr (buf\<lparr>ptr := p\<rparr>))))
               | _ \<Rightarrow> Inr buf)
          (\<lambda>buf. put_nul (buf\<lparr>bsize := len\<rparr>)))"

text \<open>\<open>strlen\<close> of the C string that starts a block.\<close>

definition strlen :: "byte list \<Rightarrow> int res" where
  "strlen blk = (if NUL \<in> set blk then Inr (int (length (takeWhile (\<lambda>b. b \<noteq> NUL) blk)))
                 else Inl Out_of_bounds)"

text \<open>
  \<open>(bufsize_t)strlen(s)\<close>.  For a string that is too long for \<open>bufsize_t\<close> the conversion would change the value; that is
  the fault \<open>Int_overflow\<close> in the model.
\<close>

definition strlen_i32 :: "byte list \<Rightarrow> int res" where
  "strlen_i32 blk = bindr (strlen blk) (\<lambda>n. add_i32 n 0)"

definition cmark_strbuf_sets :: "cmark_strbuf \<Rightarrow> byte list option \<Rightarrow> cmark_strbuf res" where
  "cmark_strbuf_sets buf string =
     (case string of
        None \<Rightarrow> cmark_strbuf_set buf Null_data 0
      | Some s \<Rightarrow> bindr (strlen_i32 s) (\<lambda>n. cmark_strbuf_set buf (Block s) n))"

definition cmark_strbuf_putc :: "cmark_strbuf \<Rightarrow> byte \<Rightarrow> cmark_strbuf res" where
  "cmark_strbuf_putc buf c =
     bindr (S_strbuf_grow_by buf 1) (\<lambda>buf.
     bindr (poke (ptr buf) (bsize buf) c) (\<lambda>p.
     put_nul (buf\<lparr>ptr := p, bsize := bsize buf + 1\<rparr>)))"

definition cmark_strbuf_put :: "cmark_strbuf \<Rightarrow> byte list \<Rightarrow> int \<Rightarrow> cmark_strbuf res" where
  "cmark_strbuf_put buf data len =
     (if len \<le> 0 then Inr buf
      else
        bindr (S_strbuf_grow_by buf len) (\<lambda>buf.
        bindr (read_range data len) (\<lambda>bs.
        bindr (poke_range (ptr buf) (bsize buf) bs) (\<lambda>p.
        put_nul (buf\<lparr>ptr := p, bsize := bsize buf + len\<rparr>)))))"

definition cmark_strbuf_puts :: "cmark_strbuf \<Rightarrow> byte list \<Rightarrow> cmark_strbuf res" where
  "cmark_strbuf_puts buf string = bindr (strlen_i32 string) (\<lambda>n. cmark_strbuf_put buf string n)"

definition cmark_strbuf_copy_cstr ::
  "byte list option \<Rightarrow> int \<Rightarrow> cmark_strbuf \<Rightarrow> byte list option res" where
  "cmark_strbuf_copy_cstr data datasize buf =
     (case data of
        None \<Rightarrow> Inr None
      | Some d \<Rightarrow>
          if datasize \<le> 0 then Inr data
          else
            bindr (poke d 0 NUL) (\<lambda>d.
            if bsize buf = 0 \<or> asize buf \<le> 0 then Inr (Some d)
            else
              let copylen = (if bsize buf > datasize - 1 then datasize - 1 else bsize buf)
              in bindr (read_range (ptr buf) copylen) (\<lambda>bs.
                 bindr (poke_range d 0 bs) (\<lambda>d.
                 bindr (poke d copylen NUL) (\<lambda>d. Inr (Some d))))))"

definition cmark_strbuf_swap ::
  "cmark_strbuf \<Rightarrow> cmark_strbuf \<Rightarrow> cmark_strbuf \<times> cmark_strbuf" where
  "cmark_strbuf_swap buf_a buf_b = (let t = buf_a; buf_a = buf_b; buf_b = t in (buf_a, buf_b))"

text \<open>The detached block and the buffer left behind.\<close>

definition cmark_strbuf_detach :: "cmark_strbuf \<Rightarrow> (byte list \<times> cmark_strbuf) res" where
  "cmark_strbuf_detach buf =
     (let data = ptr buf
      in if asize buf = 0 then Inr ([0], buf)
         else bindr (cmark_strbuf_init (mem buf) 0) (\<lambda>buf. Inr (data, buf)))"

text \<open>\<open>memcmp\<close> of two byte sequences of equal length, by the first difference.\<close>

fun memcmp :: "byte list \<Rightarrow> byte list \<Rightarrow> int" where
  "memcmp (a # as) (b # bs) = (if a < b then -1 else if b < a then 1 else memcmp as bs)"
| "memcmp _ _ = 0"

definition cmark_strbuf_cmp :: "cmark_strbuf \<Rightarrow> cmark_strbuf \<Rightarrow> int res" where
  "cmark_strbuf_cmp a b =
     (let n = min (bsize a) (bsize b)
      in bindr (read_range (ptr a) n) (\<lambda>as.
         bindr (read_range (ptr b) n) (\<lambda>bs.
         let result = memcmp as bs
         in Inr (if result \<noteq> 0 then result
                 else if bsize a < bsize b then -1 else if bsize a > bsize b then 1 else 0))))"

function memchr_from :: "byte list \<Rightarrow> byte \<Rightarrow> int \<Rightarrow> int \<Rightarrow> int option res" where
  "memchr_from p c i end =
     (if i < end
      then bindr (peek p i) (\<lambda>b. if b = c then Inr (Some i) else memchr_from p c (i + 1) end)
      else Inr None)"
  by pat_completeness auto
termination
  by (relation "measure (\<lambda>(p, c, i, end). nat (end - i))") auto

definition cmark_strbuf_strchr :: "cmark_strbuf \<Rightarrow> byte \<Rightarrow> int \<Rightarrow> int res" where
  "cmark_strbuf_strchr buf c pos =
     (if pos \<ge> bsize buf then Inr (-1)
      else
        let pos = (if pos < 0 then 0 else pos)
        in bindr (memchr_from (ptr buf) c pos (bsize buf)) (\<lambda>r.
           Inr (case r of None \<Rightarrow> -1 | Some i \<Rightarrow> i)))"

function strrchr_loop :: "byte list \<Rightarrow> byte \<Rightarrow> int \<Rightarrow> int res" where
  "strrchr_loop p c i =
     (if i \<ge> 0
      then bindr (peek p i) (\<lambda>b. if b = c then Inr i else strrchr_loop p c (i - 1))
      else Inr (-1))"
  by pat_completeness auto
termination
  by (relation "measure (\<lambda>(p, c, i). nat (i + 1))") auto

definition cmark_strbuf_strrchr :: "cmark_strbuf \<Rightarrow> byte \<Rightarrow> int \<Rightarrow> int res" where
  "cmark_strbuf_strrchr buf c pos =
     (if pos < 0 \<or> bsize buf = 0 then Inr (-1)
      else let pos = (if pos \<ge> bsize buf then bsize buf - 1 else pos)
           in strrchr_loop (ptr buf) c pos)"

definition cmark_strbuf_truncate :: "cmark_strbuf \<Rightarrow> int \<Rightarrow> cmark_strbuf res" where
  "cmark_strbuf_truncate buf len =
     (let len = (if len < 0 then 0 else len)
      in if len < bsize buf then put_nul (buf\<lparr>bsize := len\<rparr>) else Inr buf)"

definition cmark_strbuf_drop :: "cmark_strbuf \<Rightarrow> int \<Rightarrow> cmark_strbuf res" where
  "cmark_strbuf_drop buf n =
     (if n > 0
      then
        let n = (if n > bsize buf then bsize buf else n);
            buf = buf\<lparr>bsize := bsize buf - n\<rparr>
        in bindr (if bsize buf \<noteq> 0
                  then bindr (read_range (drop (nat n) (ptr buf)) (bsize buf)) (\<lambda>bs.
                       bindr (poke_range (ptr buf) 0 bs) (\<lambda>p. Inr (buf\<lparr>ptr := p\<rparr>)))
                  else Inr buf) put_nul
      else Inr buf)"

function rtrim_loop :: "byte list \<Rightarrow> int \<Rightarrow> int res" where
  "rtrim_loop p sz =
     (if sz > 0
      then bindr (peek p (sz - 1)) (\<lambda>c. if \<not> cmark_isspace c then Inr sz else rtrim_loop p (sz - 1))
      else Inr sz)"
  by pat_completeness auto
termination
  by (relation "measure (\<lambda>(p, sz). nat sz)") auto

definition cmark_strbuf_rtrim :: "cmark_strbuf \<Rightarrow> cmark_strbuf res" where
  "cmark_strbuf_rtrim buf =
     (if bsize buf = 0 then Inr buf
      else bindr (rtrim_loop (ptr buf) (bsize buf)) (\<lambda>sz. put_nul (buf\<lparr>bsize := sz\<rparr>)))"

function ltrim_count :: "byte list \<Rightarrow> int \<Rightarrow> int \<Rightarrow> int res" where
  "ltrim_count p sz i =
     (if i < sz
      then bindr (peek p i) (\<lambda>c. if cmark_isspace c then ltrim_count p sz (i + 1) else Inr i)
      else Inr i)"
  by pat_completeness auto
termination
  by (relation "measure (\<lambda>(p, sz, i). nat (sz - i))") auto

definition cmark_strbuf_trim :: "cmark_strbuf \<Rightarrow> cmark_strbuf res" where
  "cmark_strbuf_trim buf =
     (if bsize buf = 0 then Inr buf
      else bindr (ltrim_count (ptr buf) (bsize buf) 0) (\<lambda>i.
           bindr (cmark_strbuf_drop buf i) cmark_strbuf_rtrim))"

text \<open>
  The in-place loops read at \<open>r\<close> and write at \<open>w\<close>; they return the block and the final \<open>w\<close>.
\<close>

function normalize_loop ::
  "byte list \<Rightarrow> int \<Rightarrow> int \<Rightarrow> int \<Rightarrow> bool \<Rightarrow> (byte list \<times> int) res" where
  "normalize_loop p sz r w last_char_was_space =
     (if r < sz
      then bindr (peek p r) (\<lambda>c.
           if cmark_isspace c
           then if \<not> last_char_was_space
                then bindr (poke p w SPACE) (\<lambda>p. normalize_loop p sz (r + 1) (w + 1) True)
                else normalize_loop p sz (r + 1) w last_char_was_space
           else bindr (poke p w c) (\<lambda>p. normalize_loop p sz (r + 1) (w + 1) False))
      else Inr (p, w))"
  by pat_completeness auto
termination
  by (relation "measure (\<lambda>(p, sz, r, w, l). nat (sz - r))") auto

definition cmark_strbuf_normalize_whitespace :: "cmark_strbuf \<Rightarrow> cmark_strbuf res" where
  "cmark_strbuf_normalize_whitespace s =
     bindr (normalize_loop (ptr s) (bsize s) 0 0 False) (\<lambda>(p, w).
     cmark_strbuf_truncate (s\<lparr>ptr := p\<rparr>) w)"

function unescape_loop :: "byte list \<Rightarrow> int \<Rightarrow> int \<Rightarrow> int \<Rightarrow> (byte list \<times> int) res" where
  "unescape_loop p sz r w =
     (if r < sz
      then bindr (peek p r) (\<lambda>c.
           bindr (if c = BACKSLASH
                  then bindr (peek p (r + 1)) (\<lambda>d. Inr (if cmark_ispunct d then r + 1 else r))
                  else Inr r) (\<lambda>r'.
           bindr (peek p r') (\<lambda>c'.
           bindr (poke p w c') (\<lambda>p. unescape_loop p sz (r' + 1) (w + 1)))))
      else Inr (p, w))"
  by pat_completeness auto
termination
  by (relation "measure (\<lambda>(p, sz, r, w). nat (sz - r))") (auto split: if_splits)

definition cmark_strbuf_unescape :: "cmark_strbuf \<Rightarrow> cmark_strbuf res" where
  "cmark_strbuf_unescape buf =
     bindr (unescape_loop (ptr buf) (bsize buf) 0 0) (\<lambda>(p, w).
     cmark_strbuf_truncate (buf\<lparr>ptr := p\<rparr>) w)"

declare memchr_from.simps [simp del] strrchr_loop.simps [simp del] rtrim_loop.simps [simp del]
  ltrim_count.simps [simp del] normalize_loop.simps [simp del] unescape_loop.simps [simp del]

section \<open>The invariant\<close>

definition strbuf_inv :: "cmark_strbuf \<Rightarrow> bool" where
  "strbuf_inv buf \<longleftrightarrow>
     0 \<le> bsize buf \<and> int32 (asize buf) \<and>
     (if asize buf = 0 then bsize buf = 0 \<and> length (ptr buf) = 1
      else int (length (ptr buf)) = asize buf \<and> bsize buf < asize buf)"

definition terminated :: "cmark_strbuf \<Rightarrow> bool" where
  "terminated buf \<longleftrightarrow> peek (ptr buf) (bsize buf) = Inr NUL"

definition strbuf_ok :: "cmark_strbuf \<Rightarrow> bool" where
  "strbuf_ok buf \<longleftrightarrow> strbuf_inv buf \<and> terminated buf"

lemma round_up_8: "((n :: int) + 7) AND NOT 7 = n + 7 - (n + 7) mod 8"
proof -
  let ?x = "n + 7"
  have m: "(7 :: int) = mask 3" by (simp add: mask_eq_exp_minus_1)
  have "?x - take_bit 3 ?x = ?x AND NOT (take_bit 3 ?x)"
    by (rule disjunctive_diff_eq_and_not) (auto intro!: bit_eqI simp: bit_simps)
  also have "\<dots> = ?x AND NOT (mask 3)"
    by (auto intro!: bit_eqI simp: bit_simps)
  finally show ?thesis
    unfolding m by (simp add: take_bit_eq_mod mask_eq_exp_minus_1)
qed

lemma strbuf_inv_room:
  "strbuf_inv b \<Longrightarrow>
     0 \<le> bsize b \<and> bsize b < int (length (ptr b)) \<and> nat (bsize b) < length (ptr b)"
  by (auto simp: strbuf_inv_def split: if_splits)

lemma length_contents: "strbuf_inv b \<Longrightarrow> int (length (contents b)) = bsize b"
  using strbuf_inv_room [of b] by (simp add: contents_def)

text \<open>The block of a buffer by its parts: the contents, the NUL, and the spare cells.\<close>

lemma strbuf_inv_form:
  assumes "strbuf_inv b"
  obtains c tail where "ptr b = contents b @ c # tail" "bsize b = int (length (contents b))"
proof -
  have "ptr b = contents b @ drop (nat (bsize b)) (ptr b)"
    by (simp add: contents_def)
  moreover have "drop (nat (bsize b)) (ptr b) \<noteq> []"
    using strbuf_inv_room [OF assms] by simp
  ultimately show thesis
    using that length_contents [OF assms] by (cases "drop (nat (bsize b)) (ptr b)") auto
qed

lemma strbuf_ok_form:
  assumes "strbuf_ok b"
  obtains tail where "ptr b = contents b @ NUL # tail" "bsize b = int (length (contents b))"
proof -
  from assms have inv: "strbuf_inv b" and t: "terminated b" by (auto simp: strbuf_ok_def)
  from inv obtain c tail where "ptr b = contents b @ c # tail" "bsize b = int (length (contents b))"
    by (rule strbuf_inv_form)
  with t that show thesis by (auto simp: terminated_def)
qed

lemma strbuf_inv_intro:
  assumes "strbuf_inv b" "length p = length (ptr b)" "p = cs @ c # tail" "n = int (length cs)"
  shows "strbuf_inv (b\<lparr>ptr := p, bsize := n\<rparr>)" "contents (b\<lparr>ptr := p, bsize := n\<rparr>) = cs"
proof -
  have "length (ptr b) = Suc (length cs + length tail)" using assms by simp
  then show "strbuf_inv (b\<lparr>ptr := p, bsize := n\<rparr>)"
    using assms(1,2,4) by (auto simp: strbuf_inv_def)
  show "contents (b\<lparr>ptr := p, bsize := n\<rparr>) = cs"
    using assms by (simp add: contents_def)
qed

lemma strbuf_empty_ok [simp]: "strbuf_ok (strbuf_empty m)" "contents (strbuf_empty m) = []"
  by (simp_all add: strbuf_ok_def strbuf_inv_def terminated_def strbuf_empty_def
      cmark_strbuf__initbuf_def contents_def int32_def INT32_MAX_def INT32_MIN_def)

text \<open>Growing keeps the contents and makes room for the requested size and a NUL.\<close>

lemma mem_realloc_append:
  "length old \<le> nat n \<Longrightarrow> mem_realloc m old n = old @ map (fresh m) [length old..<nat n]"
  by (simp add: mem_realloc_def)

lemma length_mem_realloc [simp]: "length (mem_realloc m old n) = nat n"
  by (simp add: mem_realloc_def)

lemma realloc_inv:
  assumes inv: "strbuf_inv b" and n: "asize b < n" "0 < n" "int32 n"
    and b': "b' = b\<lparr>ptr := mem_realloc (mem b) (if asize b \<noteq> 0 then ptr b else []) n, asize := n\<rparr>"
  shows "strbuf_inv b'" "contents b' = contents b"
    "asize b \<noteq> 0 \<longrightarrow> terminated b \<longrightarrow> terminated b'"
proof -
  show "strbuf_inv b'"
  proof (cases "asize b = 0")
    case True
    with inv n show ?thesis by (simp add: b' strbuf_inv_def)
  next
    case False
    with inv n show ?thesis by (simp add: b' strbuf_inv_def)
  qed
  show "contents b' = contents b"
    using inv n by (auto simp: b' contents_def strbuf_inv_def mem_realloc_append split: if_splits)
  show "asize b \<noteq> 0 \<longrightarrow> terminated b \<longrightarrow> terminated b'"
    using inv n strbuf_inv_room [OF inv]
    by (auto simp: b' terminated_def strbuf_inv_def mem_realloc_append nth_append block)
qed

lemma rounded_size:
  assumes "0 < target" "target \<le> grow_limit"
  shows "target < (target + target div 2 + 1 + 7) AND NOT 7"
    and "int32 ((target + target div 2 + 1 + 7) AND NOT 7)"
proof -
  let ?m = "(target + target div 2 + 8) mod 8"
  have eq: "(target + target div 2 + 1 + 7) AND NOT 7 = target + target div 2 + 8 - ?m"
    using round_up_8 [of "target + target div 2 + 1"] by simp
  have "target \<le> 1073741823" using assms(2) by (simp add: grow_limit_def INT32_MAX_def)
  moreover have "0 \<le> ?m" "?m < 8" by simp_all
  ultimately have "target < target + target div 2 + 8 - ?m"
    and "target + target div 2 + 8 - ?m \<le> 2147483647"
    using assms(1) by linarith+
  then show "target < (target + target div 2 + 1 + 7) AND NOT 7"
    and "int32 ((target + target div 2 + 1 + 7) AND NOT 7)"
    unfolding eq int32_def INT32_MAX_def INT32_MIN_def using assms(1) by linarith+
qed

lemma grow_cases:
  assumes inv: "strbuf_inv b" and pos: "0 < target"
  shows "(\<exists>b'. cmark_strbuf_grow b target = Inr b' \<and> strbuf_inv b' \<and> contents b' = contents b \<and>
            bsize b' = bsize b \<and> target < asize b' \<and> mem b' = mem b \<and>
            (asize b \<noteq> 0 \<longrightarrow> terminated b \<longrightarrow> terminated b')) \<or>
         cmark_strbuf_grow b target = Inl Abort \<and> target > grow_limit"
proof (cases "target < asize b \<or> target > grow_limit")
  case True
  with inv pos show ?thesis by (auto simp: cmark_strbuf_grow_def)
next
  case False
  define n where "n = (target + target div 2 + 1 + 7) AND NOT 7"
  have n: "target < n" "int32 n"
    using rounded_size [of target] False pos by (simp_all add: n_def)
  define b' where
    "b' = b\<lparr>ptr := mem_realloc (mem b) (if asize b \<noteq> 0 then ptr b else []) n, asize := n\<rparr>"
  have "cmark_strbuf_grow b target = Inr b'"
    using False pos by (simp add: cmark_strbuf_grow_def Let_def b'_def n_def)
  with realloc_inv [OF inv _ _ n(2) b'_def] n False pos show ?thesis
    by (simp add: b'_def)
qed

section \<open>Appending\<close>

lemma put_nul_inv:
  assumes "strbuf_inv b"
  shows "\<exists>b'. put_nul b = Inr b' \<and> strbuf_ok b' \<and> contents b' = contents b \<and> mem b' = mem b"
proof -
  from assms obtain c tail
    where f: "ptr b = contents b @ c # tail" "bsize b = int (length (contents b))"
    by (rule strbuf_inv_form)
  let ?p = "contents b @ NUL # tail"
  have "put_nul b = Inr (b\<lparr>ptr := ?p, bsize := bsize b\<rparr>)"
    using f by (simp add: put_nul_def list_update_append)
  moreover have "length ?p = length (ptr b)"
    using f(1) by (metis length_append length_Cons)
  ultimately show ?thesis
    using strbuf_inv_intro [OF assms _ refl f(2)] f
    by (auto simp: strbuf_ok_def terminated_def)
qed

lemma grow_by_cases:
  assumes inv: "strbuf_inv b" and pos: "0 < add"
  shows "(\<exists>b'. S_strbuf_grow_by b add = Inr b' \<and> strbuf_inv b' \<and> contents b' = contents b \<and>
            bsize b' = bsize b \<and> bsize b + add < asize b' \<and> mem b' = mem b) \<or>
         S_strbuf_grow_by b add \<in> {Inl Abort, Inl Int_overflow} \<and> bsize b + add > grow_limit"
proof (cases "int32 (bsize b + add)")
  case True
  have "0 < bsize b + add" using inv pos by (auto simp: strbuf_inv_def)
  from grow_cases [OF inv this] True show ?thesis
    by (auto simp: S_strbuf_grow_by_def add_i32_def)
next
  case False
  have "0 \<le> bsize b" using inv by (auto simp: strbuf_inv_def)
  with False pos show ?thesis
    by (auto simp: S_strbuf_grow_by_def add_i32_def int32_def INT32_MIN_def grow_limit_def
        INT32_MAX_def)
qed

text \<open>
  The common part of \<open>put\<close> and \<open>putc\<close>: writing \<open>bs\<close> behind the contents of a buffer with room.
\<close>

lemma write_behind:
  assumes inv: "strbuf_inv b" and room: "bsize b + int (length bs) < asize b"
  shows "\<exists>p. poke_range (ptr b) (bsize b) bs = Inr p \<and>
           strbuf_inv (b\<lparr>ptr := p, bsize := bsize b + int (length bs)\<rparr>) \<and>
           contents (b\<lparr>ptr := p, bsize := bsize b + int (length bs)\<rparr>) = contents b @ bs"
proof -
  from inv obtain c tail
    where f: "ptr b = contents b @ c # tail" "bsize b = int (length (contents b))"
    by (rule strbuf_inv_form)
  have len: "int (length (ptr b)) = asize b"
    using inv room by (auto simp: strbuf_inv_def split: if_splits)
  define rest where "rest = drop (length bs) (c # tail)"
  have "rest \<noteq> []" using len room f by (auto simp: rest_def)
  then obtain d rest' where rest': "rest = d # rest'" by (cases rest) auto
  let ?p = "(contents b @ bs) @ d # rest'"
  have le: "length (ptr b) = length (contents b) + length (c # tail)"
    using f(1) by (metis length_append)
  have bl: "length bs < length (c # tail)"
    using len room f(2) le by linarith
  have p: "poke_range (ptr b) (bsize b) bs = Inr ?p"
    using f bl rest' [symmetric] le by (simp add: block rest_def)
  have "length ?p = length (contents b) + length bs + length rest"
    using rest' by simp
  also have "\<dots> = length (ptr b)" using bl le by (simp add: rest_def)
  finally have "length ?p = length (ptr b)" .
  from strbuf_inv_intro [OF inv this refl, of "bsize b + int (length bs)"] p f(2)
  show ?thesis by auto
qed


lemma put_cases:
  assumes inv: "strbuf_inv b" and len: "0 < len" "len \<le> int (length data)"
  shows "(\<exists>b'. cmark_strbuf_put b data len = Inr b' \<and> strbuf_ok b' \<and>
            contents b' = contents b @ take (nat len) data \<and> mem b' = mem b) \<or>
         cmark_strbuf_put b data len \<in> {Inl Abort, Inl Int_overflow} \<and> bsize b + len > grow_limit"
proof -
  let ?bs = "take (nat len) data"
  have bs: "int (length ?bs) = len" "read_range data len = Inr ?bs"
    using len by (auto simp: read_range_def)
  from grow_by_cases [OF inv len(1)] show ?thesis
  proof (elim disjE exE conjE)
    fix b1 assume b1: "S_strbuf_grow_by b len = Inr b1" "strbuf_inv b1" "contents b1 = contents b"
      "bsize b1 = bsize b" "bsize b + len < asize b1" "mem b1 = mem b"
    from write_behind [OF b1(2), of ?bs] b1 bs(1) obtain p where
      p: "poke_range (ptr b1) (bsize b1) ?bs = Inr p"
         "strbuf_inv (b1\<lparr>ptr := p, bsize := bsize b1 + len\<rparr>)"
         "contents (b1\<lparr>ptr := p, bsize := bsize b1 + len\<rparr>) = contents b1 @ ?bs"
      by auto
    from put_nul_inv [OF p(2)] p b1 bs len show ?thesis
      by (auto simp: cmark_strbuf_put_def)
  next
    assume "S_strbuf_grow_by b len \<in> {Inl Abort, Inl Int_overflow}" "grow_limit < bsize b + len"
    with len show ?thesis by (auto simp: cmark_strbuf_put_def)
  qed
qed

lemma putc_eq_put: "cmark_strbuf_putc b c = cmark_strbuf_put b [c] 1"
  by (auto simp: cmark_strbuf_putc_def cmark_strbuf_put_def read_range_def poke_def poke_range_def
      bindr_def upd_conv_take_nth_drop split: sum.splits)

text \<open>All the bytes of a list, the way the callers use \<open>cmark_strbuf_put\<close>.\<close>

abbreviation put_bytes :: "cmark_strbuf \<Rightarrow> byte list \<Rightarrow> cmark_strbuf res" where
  "put_bytes b bs \<equiv> cmark_strbuf_put b bs (int (length bs))"

lemma put_prefix:
  assumes "n \<le> length bs"
  shows "cmark_strbuf_put b bs (int n) = put_bytes b (take n bs)"
  using assms by (simp add: cmark_strbuf_put_def read_range_def)

lemma puts_string:
  assumes "NUL \<in> set bs" "strbuf_inv b"
  shows "cmark_strbuf_puts b bs = put_bytes b (takeWhile (\<lambda>b. b \<noteq> NUL) bs)"
proof -
  let ?t = "takeWhile (\<lambda>b. b \<noteq> NUL) bs"
  have put: "cmark_strbuf_put b bs (int (length ?t)) = put_bytes b ?t"
    using put_prefix [of "length ?t" bs b] by (simp add: length_takeWhile_le takeWhile_eq_take [symmetric])
  show ?thesis
  proof (cases "int32 (int (length ?t))")
    case True
    with assms(1) put show ?thesis by (simp add: cmark_strbuf_puts_def strlen_i32_def strlen_def add_i32_def)
  next
    case False
    have "\<not> int32 (bsize b + int (length ?t))" "length ?t \<noteq> 0"
      using False assms(2) by (auto simp: int32_def strbuf_inv_def INT32_MIN_def)
    then have "put_bytes b ?t = Inl Int_overflow"
      by (simp add: cmark_strbuf_put_def S_strbuf_grow_by_def add_i32_def)
    with assms(1) False show ?thesis
      by (simp add: cmark_strbuf_puts_def strlen_i32_def strlen_def add_i32_def)
  qed
qed

lemma takeWhile_literal: "NUL \<notin> set bs \<Longrightarrow> takeWhile (\<lambda>x. x \<noteq> NUL) (bs @ [NUL]) = bs"
  by (induction bs) auto

section \<open>What the clients of a buffer rely on\<close>

text \<open>
  A sink of bytes: \<open>put\<close> appends to what \<open>out\<close> reads, and can only fail by aborting when the
  output would exceed \<open>limit\<close> bytes.  \<open>appends f bs\<close> says that the program \<open>f\<close> appends exactly
  \<open>bs\<close>; the rules compose it from the pieces of \<open>f\<close>.
\<close>

definition appends_to ::
  "('s \<Rightarrow> bool) \<Rightarrow> ('s \<Rightarrow> byte list) \<Rightarrow> int \<Rightarrow> ('s \<Rightarrow> 's res) \<Rightarrow> byte list \<Rightarrow> bool" where
  "appends_to ok out limit f bs \<longleftrightarrow>
     (\<forall>s. ok s \<longrightarrow>
        (case f s of
           Inr s' \<Rightarrow> ok s' \<and> out s' = out s @ bs
         | Inl e \<Rightarrow> e \<in> {Abort, Int_overflow} \<and> limit < int (length (out s) + length bs)))"

locale byte_sink =
  fixes ok :: "'s \<Rightarrow> bool"
    and out :: "'s \<Rightarrow> byte list"
    and limit :: int
    and put :: "'s \<Rightarrow> byte list \<Rightarrow> 's res"
  assumes put: "ok s \<Longrightarrow> put s bs = Inr s' \<Longrightarrow> ok s' \<and> out s' = out s @ bs"
    and put_fault:
      "ok s \<Longrightarrow> put s bs = Inl e \<Longrightarrow>
         e \<in> {Abort, Int_overflow} \<and> limit < int (length (out s) + length bs)"
begin

lemma appends_put: "appends_to ok out limit (\<lambda>s. put s bs) bs"
  unfolding appends_to_def using put put_fault by (fastforce split: sum.splits)

lemma appends_skip: "appends_to ok out limit Inr []"
  by (simp add: appends_to_def)

lemma appends_seq:
  assumes "appends_to ok out limit f as" "appends_to ok out limit g bs"
  shows "appends_to ok out limit (\<lambda>s. bindr (f s) g) (as @ bs)"
  unfolding appends_to_def
proof (intro allI impI)
  fix s assume s: "ok s"
  show "case bindr (f s) g of
      Inr s' \<Rightarrow> ok s' \<and> out s' = out s @ as @ bs
    | Inl e \<Rightarrow> e \<in> {Abort, Int_overflow} \<and> limit < int (length (out s) + length (as @ bs))"
  proof (cases "f s")
    case (Inl e)
    with assms(1) s show ?thesis by (fastforce simp: appends_to_def)
  next
    case (Inr s')
    with assms(1) s have "ok s'" "out s' = out s @ as" by (fastforce simp: appends_to_def)+
    with assms(2) Inr show ?thesis
      by (cases "g s'") (fastforce simp: appends_to_def)+
  qed
qed

lemma appends_eq: "appends_to ok out limit f as \<Longrightarrow> as = bs \<Longrightarrow> appends_to ok out limit f bs"
  by simp

lemma appends_run:
  assumes "appends_to ok out limit f bs" "ok s" "int (length (out s) + length bs) \<le> limit"
  shows "\<exists>s'. f s = Inr s' \<and> ok s' \<and> out s' = out s @ bs"
  using assms by (cases "f s") (fastforce simp: appends_to_def)+

lemma appends_result:
  assumes "appends_to ok out limit f bs" "ok s" "f s = Inr s'"
  shows "ok s' \<and> out s' = out s @ bs"
  using assms by (fastforce simp: appends_to_def)

lemma appends_no_ub:
  assumes "appends_to ok out limit f bs" "ok s"
  shows "f s \<noteq> Inl Out_of_bounds"
  using assms by (fastforce simp: appends_to_def)

end

lemma put_bytes_law:
  assumes "strbuf_inv s"
  shows "case put_bytes s bs of
           Inr s' \<Rightarrow> strbuf_inv s' \<and> contents s' = contents s @ bs \<and> (terminated s \<or> bs \<noteq> [] \<longrightarrow> terminated s')
         | Inl e \<Rightarrow> e \<in> {Abort, Int_overflow} \<and> grow_limit < int (length (contents s) + length bs)"
proof (cases "bs = []")
  case True
  with assms show ?thesis by (simp add: cmark_strbuf_put_def)
next
  case False
  with put_cases [OF assms, of "int (length bs)" bs] length_contents [OF assms] show ?thesis
    by (auto simp: strbuf_ok_def)
qed

interpretation sb: byte_sink strbuf_inv contents grow_limit put_bytes
  using put_bytes_law by unfold_locales (fastforce split: sum.splits)+

interpretation sbt: byte_sink strbuf_ok contents grow_limit put_bytes
  using put_bytes_law unfolding strbuf_ok_def
  by unfold_locales (fastforce split: sum.splits)+

text \<open>
  A buffer as the program makes them: not terminated only while it is empty.  A program that
  appends is shown to do so on the well-formed buffers and on those, at once.
\<close>

definition strbuf_good :: "cmark_strbuf \<Rightarrow> bool" where
  "strbuf_good b \<longleftrightarrow> strbuf_inv b \<and> (bsize b \<noteq> 0 \<longrightarrow> terminated b)"

lemma good_put_law:
  assumes "strbuf_good s"
  shows "case put_bytes s bs of
           Inr s' \<Rightarrow> strbuf_good s' \<and> contents s' = contents s @ bs
         | Inl e \<Rightarrow> e \<in> {Abort, Int_overflow} \<and> grow_limit < int (length (contents s) + length bs)"
proof (cases "bs = []")
  case True
  with assms show ?thesis by (simp add: cmark_strbuf_put_def)
next
  case False
  then show ?thesis
    using assms put_bytes_law [of s bs] by (auto simp: strbuf_good_def split: sum.splits)
qed

interpretation sbg: byte_sink strbuf_good contents grow_limit put_bytes
  using good_put_law by unfold_locales (fastforce split: sum.splits)+

definition appends :: "(cmark_strbuf \<Rightarrow> cmark_strbuf res) \<Rightarrow> byte list \<Rightarrow> bool" where
  "appends f bs \<longleftrightarrow>
     appends_to strbuf_inv contents grow_limit f bs \<and> appends_to strbuf_good contents grow_limit f bs"

lemma app_put: "appends (\<lambda>b. put_bytes b bs) bs"
  by (simp add: appends_def sb.appends_put sbg.appends_put)

lemma app_skip: "appends Inr []"
  by (simp add: appends_def sb.appends_skip sbg.appends_skip)

lemma app_seq: "appends f as \<Longrightarrow> appends g bs \<Longrightarrow> appends (\<lambda>s. bindr (f s) g) (as @ bs)"
  unfolding appends_def using sb.appends_seq sbg.appends_seq by blast

lemma app_putc: "appends (\<lambda>b. cmark_strbuf_putc b c) [c]"
  using app_put [of "[c]"] by (simp add: putc_eq_put)

lemma app_cong:
  assumes "appends f bs" "\<And>b. strbuf_inv b \<Longrightarrow> g b = f b"
  shows "appends g bs"
  using assms unfolding appends_def appends_to_def strbuf_good_def by simp

lemma app_string: "NUL \<in> set bs \<Longrightarrow> appends (\<lambda>b. cmark_strbuf_puts b bs) (takeWhile (\<lambda>b. b \<noteq> NUL) bs)"
  by (rule app_cong [OF app_put]) (simp add: puts_string)

lemma app_puts: "NUL \<notin> set bs \<Longrightarrow> appends (\<lambda>b. cmark_strbuf_puts b (bs @ [NUL])) bs"
  using app_string [of "bs @ [NUL]"] by (simp add: takeWhile_literal)

lemma app_run:
  assumes "appends f bs" "strbuf_inv b" "int (length (contents b) + length bs) \<le> grow_limit"
  shows "\<exists>b'. f b = Inr b' \<and> strbuf_inv b' \<and> contents b' = contents b @ bs \<and>
    (strbuf_good b \<longrightarrow> strbuf_good b')"
proof -
  have f: "appends_to strbuf_inv contents grow_limit f bs" "appends_to strbuf_good contents grow_limit f bs"
    using assms(1) by (simp_all add: appends_def)
  obtain b' where "f b = Inr b'" "strbuf_inv b'" "contents b' = contents b @ bs"
    using sb.appends_run [OF f(1) assms(2,3)] by blast
  then show ?thesis using sbg.appends_result [OF f(2), of b b'] by blast
qed

lemma good_ok: "strbuf_good b \<Longrightarrow> contents b \<noteq> [] \<Longrightarrow> strbuf_ok b"
  by (auto simp: strbuf_good_def strbuf_ok_def contents_def)

lemma ok_good: "strbuf_ok b \<Longrightarrow> strbuf_good b"
  by (simp add: strbuf_good_def strbuf_ok_def)

section \<open>The other operations on the contents\<close>

text \<open>\<open>becomes m cs\<close>: the run succeeds, in a well-formed buffer with contents \<open>cs\<close>.\<close>

definition becomes :: "cmark_strbuf res \<Rightarrow> byte list \<Rightarrow> bool" where
  "becomes m cs \<longleftrightarrow> (\<exists>b. m = Inr b \<and> strbuf_ok b \<and> contents b = cs)"

lemma becomes_bindr:
  "becomes m cs \<Longrightarrow> (\<And>b. strbuf_ok b \<Longrightarrow> contents b = cs \<Longrightarrow> becomes (f b) ds) \<Longrightarrow> becomes (bindr m f) ds"
  by (auto simp: becomes_def)

lemma becomes_Inr [simp]: "becomes (Inr b) cs \<longleftrightarrow> strbuf_ok b \<and> contents b = cs"
  by (simp add: becomes_def)

lemma put_nul_becomes: "strbuf_inv b \<Longrightarrow> contents b = cs \<Longrightarrow> becomes (put_nul b) cs"
  using put_nul_inv [of b] by (auto simp: becomes_def)

lemma ok_inv: "strbuf_ok b \<Longrightarrow> strbuf_inv b"
  by (simp add: strbuf_ok_def)

text \<open>Shrinking to a prefix.\<close>

lemma shrink_inv:
  assumes "strbuf_inv b" "0 \<le> n" "n \<le> bsize b"
  shows "strbuf_inv (b\<lparr>bsize := n\<rparr>)" "contents (b\<lparr>bsize := n\<rparr>) = take (nat n) (contents b)"
  using assms by (auto simp: strbuf_inv_def contents_def)

lemma clear_becomes:
  assumes "strbuf_ok b"
  shows "becomes (cmark_strbuf_clear b) []"
proof -
  have inv: "strbuf_inv (b\<lparr>bsize := 0\<rparr>)" "contents (b\<lparr>bsize := 0\<rparr>) = []"
    using shrink_inv [of b 0] assms by (auto simp: strbuf_ok_def strbuf_inv_def)
  show ?thesis
  proof (cases "asize b > 0")
    case True
    with put_nul_becomes [OF inv] show ?thesis by (simp add: cmark_strbuf_clear_def put_nul_def)
  next
    case False
    then have "bsize b = 0 \<or> asize b < 0"
      using assms by (auto simp: strbuf_ok_def strbuf_inv_def)
    with False inv assms show ?thesis
      by (auto simp: cmark_strbuf_clear_def strbuf_ok_def terminated_def strbuf_inv_def split: if_splits)
  qed
qed

lemma truncate_becomes:
  assumes "strbuf_ok b"
  shows "becomes (cmark_strbuf_truncate b n) (take (nat n) (contents b))"
proof (cases "(if n < 0 then 0 else n) < bsize b")
  case True
  then have "strbuf_inv (b\<lparr>bsize := if n < 0 then 0 else n\<rparr>)"
    "contents (b\<lparr>bsize := if n < 0 then 0 else n\<rparr>) = take (nat n) (contents b)"
    using shrink_inv [OF ok_inv [OF assms], of "if n < 0 then 0 else n"] by auto
  from put_nul_becomes [OF this] True show ?thesis
    by (simp add: cmark_strbuf_truncate_def Let_def)
next
  case False
  then have "length (contents b) \<le> nat n"
    using length_contents [OF ok_inv [OF assms]]
    by (cases "contents b") (auto split: if_splits)
  with False assms show ?thesis by (simp add: cmark_strbuf_truncate_def Let_def)
qed

lemma drop_becomes:
  assumes ok: "strbuf_ok b"
  shows "becomes (cmark_strbuf_drop b n) (drop (nat n) (contents b))"
proof (cases "n > 0")
  case False
  with ok show ?thesis by (simp add: cmark_strbuf_drop_def)
next
  case True
  from ok obtain tail
    where f: "ptr b = contents b @ NUL # tail" "bsize b = int (length (contents b))"
    by (rule strbuf_ok_form)
  define k where "k = min (nat n) (length (contents b))"
  define cs where "cs = drop k (contents b)"
  have k: "(if n > bsize b then bsize b else n) = int k" "k \<le> length (contents b)"
    using True f by (auto simp: k_def)
  have cs: "drop (nat n) (contents b) = cs" by (auto simp: cs_def k_def min_def)
  have sz: "bsize b - int k = int (length cs)" using f k by (simp add: cs_def of_nat_diff)
  let ?p = "cs @ drop (length cs) (contents b) @ NUL # tail"
  have len: "length ?p = length (ptr b)"
    using arg_cong [OF f(1), of length] k by (simp add: cs_def)
  obtain c t where ct: "drop (length cs) (contents b) @ NUL # tail = c # t"
    by (cases "drop (length cs) (contents b)") auto
  have "strbuf_inv (b\<lparr>ptr := ?p, bsize := int (length cs)\<rparr>)"
       "contents (b\<lparr>ptr := ?p, bsize := int (length cs)\<rparr>) = cs"
    using strbuf_inv_intro [OF ok_inv [OF ok] len, of cs c t] ct by auto
  note nul = put_nul_becomes [OF this]
  show ?thesis
  proof (cases "cs = []")
    case True
    have "?p = ptr b" using f(1) True by simp
    with nul True sz k \<open>n > 0\<close> cs show ?thesis
      by (simp add: cmark_strbuf_drop_def Let_def)
  next
    case False
    have rd: "read_range (drop k (ptr b)) (int (length cs)) = Inr cs"
      using f k by (auto simp: read_range_def cs_def)
    have pk: "poke_range (ptr b) 0 cs = Inr ?p"
      using f k by (auto simp: block cs_def)
    have "bsize b \<noteq> int k" using sz False by auto
    have upd: "b\<lparr>bsize := int (length cs), ptr := ?p\<rparr> = b\<lparr>ptr := ?p, bsize := int (length cs)\<rparr>"
      by simp
    have "cmark_strbuf_drop b n = put_nul (b\<lparr>bsize := int (length cs), ptr := ?p\<rparr>)"
      using False rd pk sz k(1) \<open>n > 0\<close> \<open>bsize b \<noteq> int k\<close>
      by (simp add: cmark_strbuf_drop_def Let_def)
    with nul cs show ?thesis by (simp only: upd)
  qed
qed

lemma rtrim_loop_eq:
  assumes "p = cs @ tail"
  shows "rtrim_loop p (int (length cs)) =
    Inr (int (length (rev (dropWhile cmark_isspace (rev cs)))))"
  using assms
proof (induction cs arbitrary: tail rule: rev_induct)
  case Nil
  then show ?case by (simp add: rtrim_loop.simps)
next
  case (snoc c cs)
  from snoc.IH [of "c # tail"] snoc.prems show ?case
    by (subst rtrim_loop.simps) (simp add: nth_append)
qed

text \<open>Both ends.\<close>

definition trim_right :: "byte list \<Rightarrow> byte list" where
  "trim_right cs = rev (dropWhile cmark_isspace (rev cs))"

definition trim_left :: "byte list \<Rightarrow> byte list" where
  "trim_left cs = dropWhile cmark_isspace cs"

lemma trim_right_prefix: "take (length (trim_right cs)) cs = trim_right cs"
proof -
  have "rev cs = takeWhile cmark_isspace (rev cs) @ dropWhile cmark_isspace (rev cs)" by simp
  then have "cs = trim_right cs @ rev (takeWhile cmark_isspace (rev cs))"
    unfolding trim_right_def by (metis rev_append rev_rev_ident)
  then show ?thesis by (metis append_eq_conv_conj)
qed

lemma rtrim_becomes:
  assumes ok: "strbuf_ok b"
  shows "becomes (cmark_strbuf_rtrim b) (trim_right (contents b))"
proof (cases "bsize b = 0")
  case True
  with ok show ?thesis
    by (simp add: cmark_strbuf_rtrim_def trim_right_def contents_def)
next
  case False
  from ok obtain tail
    where f: "ptr b = contents b @ NUL # tail" "bsize b = int (length (contents b))"
    by (rule strbuf_ok_form)
  let ?n = "int (length (trim_right (contents b)))"
  have "length (trim_right (contents b)) \<le> length (contents b)"
    unfolding trim_right_def by (metis length_dropWhile_le length_rev)
  with shrink_inv [OF ok_inv [OF ok], of ?n] f trim_right_prefix [of "contents b"]
  have "becomes (put_nul (b\<lparr>bsize := ?n\<rparr>)) (trim_right (contents b))"
    by (intro put_nul_becomes) auto
  with False rtrim_loop_eq [OF f(1)] f(2) show ?thesis
    by (simp add: cmark_strbuf_rtrim_def trim_right_def)
qed

lemma ltrim_count_eq:
  assumes "p = pre @ cs @ tail" "sz = int (length (pre @ cs))" "i = int (length pre)"
  shows "ltrim_count p sz i = Inr (i + int (length (takeWhile cmark_isspace cs)))"
  using assms
proof (induction cs arbitrary: pre i)
  case Nil
  then show ?case by (simp add: ltrim_count.simps)
next
  case (Cons c cs)
  from Cons.IH [of "pre @ [c]" "i + 1"] Cons.prems show ?case
    by (subst ltrim_count.simps) (simp add: nth_append)
qed

lemma trim_becomes:
  assumes ok: "strbuf_ok b"
  shows "becomes (cmark_strbuf_trim b) (trim_right (trim_left (contents b)))"
proof (cases "bsize b = 0")
  case True
  with ok show ?thesis
    by (simp add: cmark_strbuf_trim_def trim_right_def trim_left_def contents_def)
next
  case False
  from ok obtain tail
    where f: "ptr b = contents b @ NUL # tail" "bsize b = int (length (contents b))"
    by (rule strbuf_ok_form)
  let ?n = "int (length (takeWhile cmark_isspace (contents b)))"
  have l: "ltrim_count (ptr b) (bsize b) 0 = Inr ?n"
    using ltrim_count_eq [of "ptr b" "[]" "contents b" "NUL # tail" "bsize b" 0] f by simp
  have "becomes (cmark_strbuf_drop b ?n) (trim_left (contents b))"
    using drop_becomes [OF ok, of ?n] by (simp add: trim_left_def dropWhile_eq_drop)
  then have "becomes (bindr (cmark_strbuf_drop b ?n) cmark_strbuf_rtrim)
      (trim_right (trim_left (contents b)))"
    by (rule becomes_bindr) (metis rtrim_becomes)
  with False l show ?thesis by (simp add: cmark_strbuf_trim_def)
qed

text \<open>
  A loop that has written \<open>out\<close> and still has to read \<open>rest\<close>: the block is \<open>out @ gap @ rest @ tail\<close>.
\<close>

fun collapse_spaces :: "bool \<Rightarrow> byte list \<Rightarrow> byte list" where
  "collapse_spaces lsp [] = []"
| "collapse_spaces lsp (c # cs) =
     (if cmark_isspace c then (if lsp then [] else [SPACE]) @ collapse_spaces True cs
      else c # collapse_spaces False cs)"

lemma normalize_loop_eq:
  assumes "sz = int (length out + length gap + length rest)"
    and "r = int (length out + length gap)" "w = int (length out)"
  shows "\<exists>gap'. normalize_loop (out @ gap @ rest @ tail) sz r w lsp =
           Inr (out @ collapse_spaces lsp rest @ gap' @ tail,
                w + int (length (collapse_spaces lsp rest))) \<and>
         length gap' + length (collapse_spaces lsp rest) = length gap + length rest"
  using assms
proof (induction rest arbitrary: out gap r w lsp)
  case Nil
  then show ?case by (simp add: normalize_loop.simps)
next
  case (Cons c rest)
  let ?p = "out @ gap @ (c # rest) @ tail"
  have r: "r < sz" "peek ?p r = Inr c"
    using Cons.prems by (auto simp: nth_append block)
  obtain g gs where g: "gap @ [c] = g # gs" by (cases gap) auto
  have p: "?p = out @ g # gs @ rest @ tail" using g by (metis append.assoc append_Cons append_Nil)
  have len: "length gap = length gs" using g by (metis length_append_singleton length_Cons nat.inject)
  have wr: "poke ?p w b = Inr ((out @ [b]) @ gs @ rest @ tail)" for b
    unfolding p Cons.prems(3) by (simp only: poke_at) simp
  have step: "\<exists>gap'. normalize_loop ((out @ [b]) @ gs @ rest @ tail) sz (r + 1) (w + 1) l =
      Inr ((out @ [b]) @ collapse_spaces l rest @ gap' @ tail,
           w + 1 + int (length (collapse_spaces l rest))) \<and>
      length gap' + length (collapse_spaces l rest) = length gs + length rest" for b l
    using Cons.IH [of "out @ [b]" gs "r + 1" "w + 1" l] Cons.prems len by simp
  have skip: "\<exists>gap'. normalize_loop (out @ (gap @ [c]) @ rest @ tail) sz (r + 1) w True =
      Inr (out @ collapse_spaces True rest @ gap' @ tail,
           w + int (length (collapse_spaces True rest))) \<and>
      length gap' + length (collapse_spaces True rest) = length gap + 1 + length rest"
    using Cons.IH [of out "gap @ [c]" "r + 1" w True] Cons.prems by simp
  show ?case
  proof (cases "cmark_isspace c")
    case sp: True
    show ?thesis
    proof (cases lsp)
      case True
      with sp r skip show ?thesis by (subst normalize_loop.simps) auto
    next
      case False
      with sp r wr [of SPACE] step [of SPACE True] len show ?thesis
        by (subst normalize_loop.simps) (auto simp: algebra_simps)
    qed
  next
    case False
    with r wr [of c] step [of c False] len show ?thesis
      by (subst normalize_loop.simps) (auto simp: algebra_simps)
  qed
qed

lemma strbuf_ok_intro:
  assumes "strbuf_inv b" "length p = length (ptr b)" "p = cs @ NUL # tail" "n = int (length cs)"
  shows "strbuf_ok (b\<lparr>ptr := p, bsize := n\<rparr>)" "contents (b\<lparr>ptr := p, bsize := n\<rparr>) = cs"
  using strbuf_inv_intro [OF assms] assms(3,4)
  by (auto simp: strbuf_ok_def terminated_def)

lemma normalize_becomes:
  assumes ok: "strbuf_ok b"
  shows "becomes (cmark_strbuf_normalize_whitespace b) (collapse_spaces False (contents b))"
proof -
  from ok obtain tail
    where f: "ptr b = contents b @ NUL # tail" "bsize b = int (length (contents b))"
    by (rule strbuf_ok_form)
  let ?cs = "collapse_spaces False (contents b)"
  from normalize_loop_eq [of "bsize b" "[]" "[]" "contents b" 0 0 "NUL # tail" False] f
  obtain gap where g: "normalize_loop (ptr b) (bsize b) 0 0 False =
      Inr (?cs @ gap @ NUL # tail, int (length ?cs))"
    "length gap + length ?cs = length (contents b)"
    by auto
  let ?p = "(?cs @ gap) @ NUL # tail"
  have len: "length ?p = length (ptr b)" "bsize b = int (length (?cs @ gap))"
    using arg_cong [OF f(1), of length] f(2) g(2) by simp_all
  note fit = strbuf_ok_intro [OF ok_inv [OF ok] len(1) refl len(2)]
  have "becomes (cmark_strbuf_truncate (b\<lparr>ptr := ?p\<rparr>) (int (length ?cs))) ?cs"
    using truncate_becomes [OF fit(1), of "int (length ?cs)"] fit(2) by simp
  with g(1) show ?thesis by (simp add: cmark_strbuf_normalize_whitespace_def)
qed

text \<open>Backslash escapes removed: a backslash before ASCII punctuation disappears.\<close>

fun unescape :: "byte list \<Rightarrow> byte list" where
  "unescape [] = []"
| "unescape [c] = [c]"
| "unescape (c # d # cs) =
     (if c = BACKSLASH \<and> cmark_ispunct d then d # unescape cs else c # unescape (d # cs))"

lemma gap_shift:
  obtains g gs where "gap @ [c] = g # gs" "length gs = length gap"
  by (cases gap) auto

lemma unescape_loop_eq:
  assumes "sz = int (length out + length gap + length rest)"
    and "r = int (length out + length gap)" "w = int (length out)"
  shows "\<exists>gap'. unescape_loop (out @ gap @ rest @ NUL # tail) sz r w =
           Inr (out @ unescape rest @ gap' @ NUL # tail, w + int (length (unescape rest))) \<and>
         length gap' + length (unescape rest) = length gap + length rest"
  using assms
proof (induction rest arbitrary: out gap r w rule: unescape.induct)
  case 1
  then show ?case by (simp add: unescape_loop.simps)
next
  case (2 c)
  let ?p = "out @ gap @ [c] @ NUL # tail"
  obtain g gs where g: "gap @ [c] = g # gs" "length gs = length gap" by (rule gap_shift)
  have p: "?p = out @ g # gs @ NUL # tail" using g by (metis append.assoc append_Cons append_Nil)
  have "poke ?p w c = Inr ((out @ [c]) @ gs @ NUL # tail)"
    unfolding p 2(3) by (simp only: poke_at) simp
  moreover have "r < sz" "peek ?p r = Inr c" "peek ?p (r + 1) = Inr NUL"
    using 2 by (auto simp: nth_append nat_add_distrib block)
  moreover have "unescape_loop ((out @ [c]) @ gs @ NUL # tail) sz (r + 1) (w + 1) =
      Inr ((out @ [c]) @ gs @ NUL # tail, w + 1)"
    using 2 by (simp add: unescape_loop.simps)
  ultimately show ?case
    using g by (subst unescape_loop.simps, cases "c = BACKSLASH") simp_all
next
  case (3 c d cs)
  let ?p = "out @ gap @ (c # d # cs) @ NUL # tail"
  have rd: "r < sz" "peek ?p r = Inr c" "peek ?p (r + 1) = Inr d"
    using "3.prems" by (auto simp: nth_append nat_add_distrib block)
  obtain g gs where g: "gap @ [c] = g # gs" "length gs = length gap" by (rule gap_shift)
  have p: "?p = out @ g # gs @ (d # cs) @ NUL # tail"
    using g by (metis append.assoc append_Cons append_Nil)
  have wr: "poke ?p w b = Inr ((out @ [b]) @ gs @ (d # cs) @ NUL # tail)" for b
    unfolding p "3.prems"(3) by (simp only: poke_at) simp
  show ?case
  proof (cases "c = BACKSLASH \<and> cmark_ispunct d")
    case True
    have "\<exists>gap'. unescape_loop ((out @ [d]) @ (gs @ [d]) @ cs @ NUL # tail) sz (r + 2) (w + 1) =
           Inr ((out @ [d]) @ unescape cs @ gap' @ NUL # tail, w + 1 + int (length (unescape cs))) \<and>
         length gap' + length (unescape cs) = length (gs @ [d]) + length cs"
      using "3.IH"(1) [OF True, of "out @ [d]" "gs @ [d]" "r + 2" "w + 1"] "3.prems" g by simp
    with True rd wr [of d] g show ?thesis
      by (subst unescape_loop.simps) (auto simp: algebra_simps)
  next
    case False
    have "\<exists>gap'. unescape_loop ((out @ [c]) @ gs @ (d # cs) @ NUL # tail) sz (r + 1) (w + 1) =
           Inr ((out @ [c]) @ unescape (d # cs) @ gap' @ NUL # tail,
                w + 1 + int (length (unescape (d # cs)))) \<and>
         length gap' + length (unescape (d # cs)) = length gs + length (d # cs)"
      using "3.IH"(2) [OF False, of "out @ [c]" gs "r + 1" "w + 1"] "3.prems" g by simp
    then obtain gap' where ih: "unescape_loop ((out @ [c]) @ gs @ (d # cs) @ NUL # tail) sz (r + 1)
          (w + 1) = Inr ((out @ [c]) @ unescape (d # cs) @ gap' @ NUL # tail,
                w + 1 + int (length (unescape (d # cs))))"
        "length gap' + length (unescape (d # cs)) = length gs + length (d # cs)"
      by blast
    have "unescape_loop ?p sz r w =
        unescape_loop ((out @ [c]) @ gs @ (d # cs) @ NUL # tail) sz (r + 1) (w + 1)"
      using rd wr [of c] False
      by (subst unescape_loop.simps, cases "c = BACKSLASH") (simp_all del: bindr_eq_Inr)
    with ih False g show ?thesis by (intro exI [of _ gap']) auto
  qed
qed

lemma unescape_becomes:
  assumes ok: "strbuf_ok b"
  shows "becomes (cmark_strbuf_unescape b) (unescape (contents b))"
proof -
  from ok obtain tail
    where f: "ptr b = contents b @ NUL # tail" "bsize b = int (length (contents b))"
    by (rule strbuf_ok_form)
  let ?cs = "unescape (contents b)"
  from unescape_loop_eq [of "bsize b" "[]" "[]" "contents b" 0 0 tail] f
  obtain gap where g: "unescape_loop (ptr b) (bsize b) 0 0 =
      Inr (?cs @ gap @ NUL # tail, int (length ?cs))"
    "length gap + length ?cs = length (contents b)"
    by auto
  let ?p = "(?cs @ gap) @ NUL # tail"
  have len: "length ?p = length (ptr b)" "bsize b = int (length (?cs @ gap))"
    using arg_cong [OF f(1), of length] f(2) g(2) by simp_all
  note fit = strbuf_ok_intro [OF ok_inv [OF ok] len(1) refl len(2)]
  have "becomes (cmark_strbuf_truncate (b\<lparr>ptr := ?p\<rparr>) (int (length ?cs))) ?cs"
    using truncate_becomes [OF fit(1), of "int (length ?cs)"] fit(2) by simp
  with g(1) show ?thesis by (simp add: cmark_strbuf_unescape_def)
qed

lemma length_unescape_le: "length (unescape cs) \<le> length cs"
  by (induction cs rule: unescape.induct) auto

text \<open>Replacing the contents, and handing the block over.\<close>

lemma set_block:
  assumes inv: "strbuf_inv b" and len: "0 < len" "len \<le> int (length bs)" "len \<le> grow_limit"
  shows "becomes (cmark_strbuf_set b (Block bs) len) (take (nat len) bs)"
proof -
  have rd: "read_range bs len = Inr (take (nat len) bs)" using len by (simp add: read_range_def)
  have "\<exists>b'. (if len \<ge> asize b then cmark_strbuf_grow b len else Inr b) = Inr b' \<and>
      strbuf_inv b' \<and> len < asize b'"
    using grow_cases [OF inv len(1)] inv len by auto
  then obtain b' where b': "(if len \<ge> asize b then cmark_strbuf_grow b len else Inr b) = Inr b'"
    "strbuf_inv b'" "len < asize b'" by blast
  have asz: "asize b' = int (length (ptr b'))"
    using b' len by (auto simp: strbuf_inv_def split: if_splits)
  have "nat len \<le> length bs" "nat len < length (ptr b')" using b'(3) asz len by linarith+
  obtain c t where ct: "drop (nat len) (ptr b') = c # t"
    using b'(3) asz len by (cases "drop (nat len) (ptr b')") auto
  let ?p = "take (nat len) bs @ c # t"
  have lp: "length ?p = length (ptr b')"
    using arg_cong [OF ct, of length] b'(3) asz len by simp
  have "poke_range (ptr b') 0 (take (nat len) bs) = Inr ?p"
    using ct \<open>nat len \<le> length bs\<close> \<open>nat len < length (ptr b')\<close> len
    by (simp add: poke_range_def)
  moreover have "becomes (put_nul (b'\<lparr>ptr := ?p, bsize := len\<rparr>)) (take (nat len) bs)"
    using strbuf_inv_intro [OF b'(2) lp refl, of len] len by (intro put_nul_becomes) auto
  ultimately show ?thesis
    using b'(1) rd len by (simp add: cmark_strbuf_set_def )
qed

lemma detach_contents:
  assumes ok: "strbuf_ok b"
  shows "\<exists>tail. cmark_strbuf_detach b = Inr (contents b @ NUL # tail, strbuf_empty (mem b)) \<or>
     (asize b = 0 \<and> contents b = [] \<and> cmark_strbuf_detach b = Inr ([NUL], b))"
proof -
  from ok obtain tail where f: "ptr b = contents b @ NUL # tail" by (rule strbuf_ok_form)
  show ?thesis
    using f ok
    by (auto simp: cmark_strbuf_detach_def cmark_strbuf_init_def strbuf_ok_def strbuf_inv_def
        contents_def)
qed

section \<open>Searching and comparing\<close>

lemma memchr_from_eq:
  assumes "0 \<le> i" "end \<le> int (length p)"
  shows "memchr_from p c i end =
    Inr (case find (\<lambda>k. p ! nat k = c) [i..end - 1] of None \<Rightarrow> None | Some k \<Rightarrow> Some k)"
  using assms
proof (induction p c i "end" rule: memchr_from.induct)
  case (1 p c i e)
  show ?case
  proof (cases "i < e")
    case True
    then have u: "[i..e - 1] = i # [i + 1..e - 1]" by (simp add: upto_rec1)
    have pk: "peek p i = Inr (p ! nat i)" using True 1 by (simp add: block)
    show ?thesis
      using 1 True pk unfolding u by (subst memchr_from.simps) (auto simp: block)
  next
    case False
    then show ?thesis by (simp add: memchr_from.simps)
  qed
qed

lemma memcmp_eq: "length as = length bs \<Longrightarrow> memcmp as bs = 0 \<longleftrightarrow> as = bs"
  by (induction as bs rule: memcmp.induct) auto

lemma cmp_total:
  assumes "strbuf_ok a" "strbuf_ok b"
  shows "\<exists>r. cmark_strbuf_cmp a b = Inr r \<and> (r = 0 \<longleftrightarrow> contents a = contents b)"
proof -
  from assms obtain ta tb where
    fa: "ptr a = contents a @ NUL # ta" "bsize a = int (length (contents a))" and
    fb: "ptr b = contents b @ NUL # tb" "bsize b = int (length (contents b))"
    by (metis strbuf_ok_form)
  let ?n = "min (length (contents a)) (length (contents b))"
  have rd: "read_range (ptr a) (int ?n) = Inr (take ?n (contents a))"
    "read_range (ptr b) (int ?n) = Inr (take ?n (contents b))"
    using fa fb by (auto simp: read_range_def)
  have mn: "min (bsize a) (bsize b) = int ?n" using fa fb by simp
  have m0: "memcmp (take ?n (contents a)) (take ?n (contents b)) = 0 \<longleftrightarrow>
      take ?n (contents a) = take ?n (contents b)"
    by (rule memcmp_eq) simp
  show ?thesis
  proof (cases "length (contents a) = length (contents b)")
    case True
    with m0 rd mn fa fb show ?thesis by (simp add: cmark_strbuf_cmp_def)
  next
    case False
    with rd mn fa fb show ?thesis
      by (auto simp: cmark_strbuf_cmp_def Let_def)
  qed
qed

section \<open>Properties\<close>

definition sample_buffer :: "byte list \<Rightarrow> cmark_strbuf" where
  "sample_buffer bs =
     \<lparr>mem = \<lparr>mem_id = 0, fresh = \<lambda>_. 0xAA\<rparr>, ptr = bs @ [NUL, 0xAA], asize = int (length bs) + 2,
      bsize = int (length bs)\<rparr>"

lemma grow_faults:
  "cmark_strbuf_grow b n = Inl e \<Longrightarrow> e \<in> {Assert_failed, Abort}"
  by (auto simp: cmark_strbuf_grow_def guard_def bindr_def Let_def split: if_splits)

lemma put_faults:
  assumes "0 < len" "0 \<le> bsize b"
  shows "cmark_strbuf_put b data len = Inl Abort \<Longrightarrow> bsize b + len \<le> INT32_MAX"
    "cmark_strbuf_put b data len = Inl Int_overflow \<Longrightarrow> INT32_MAX < bsize b + len"
  using assms grow_faults
  by (auto simp: cmark_strbuf_put_def S_strbuf_grow_by_def add_i32_def int32_def INT32_MIN_def bindr_def
      read_range_def poke_range_def put_nul_def poke_def split: sum.splits if_splits)

text \<open>
  C26: Appending to a well-formed buffer either succeeds, with a well-formed buffer that holds the old
  contents followed by the appended bytes and is NUL-terminated if it was or if anything is appended; or it aborts because
  the new size, still an \<open>int32\<close>, exceeds half of the range of \<open>int32\<close>; or the new size exceeds \<open>INT32_MAX\<close>: then the addition in
  \<open>S_strbuf_grow_by\<close> overflows, which is undefined behaviour.  Short of that overflow, no byte outside the block is read or
  written.
\<close>

theorem put_appends:
  assumes "strbuf_inv b" "0 \<le> len" "len \<le> int (length data)"
  shows "case cmark_strbuf_put b data len of
           Inr b' \<Rightarrow> strbuf_inv b' \<and> (terminated b \<or> 0 < len \<longrightarrow> strbuf_ok b') \<and>
             contents b' = contents b @ take (nat len) data
         | Inl e \<Rightarrow> e = Abort \<and> grow_limit < bsize b + len \<and> bsize b + len \<le> INT32_MAX \<or>
             e = Int_overflow \<and> INT32_MAX < bsize b + len"
proof (cases "len = 0")
  case True
  then show ?thesis using assms by (simp add: cmark_strbuf_put_def strbuf_ok_def)
next
  case False
  have "0 \<le> bsize b" using assms(1) by (simp add: strbuf_inv_def)
  with put_cases [of b len data] put_faults [of len b data] assms False show ?thesis
    by (auto simp: strbuf_ok_def)
qed

theorem put_appends_witness:
  "\<exists>b'. cmark_strbuf_put (sample_buffer (str ''ab'')) (str ''cde'') 2 = Inr b' \<and> strbuf_ok b' \<and>
     contents b' = str ''abcd''"
proof -
  let ?b = "sample_buffer (str ''ab'')"
  have "strbuf_inv ?b" "contents ?b = str ''ab''" "bsize ?b = 2" "terminated ?b"
    by code_simp+
  moreover have "take (nat 2) (str ''cde'') = str ''cd''" "str ''ab'' @ str ''cd'' = str ''abcd''"
    "length (str ''cde'') = 3" "\<not> grow_limit < 4" "\<not> INT32_MAX < 4" by code_simp+
  ultimately show ?thesis using put_appends [of ?b 2 "str ''cde''"]
    by (cases "cmark_strbuf_put ?b (str ''cde'') 2") auto
qed

text \<open>
  C25: The in-place edits of a well-formed buffer always succeed, never touch a byte outside the
  block, leave a well-formed buffer, and compute the corresponding list functions: removing
  backslash escapes, collapsing runs of white space to one space, trimming both ends, keeping a
  prefix and dropping a prefix.
\<close>

theorem in_place_edits:
  assumes "strbuf_ok b"
  shows "becomes (cmark_strbuf_unescape b) (unescape (contents b)) \<and>
    becomes (cmark_strbuf_normalize_whitespace b) (collapse_spaces False (contents b)) \<and>
    becomes (cmark_strbuf_trim b) (trim_right (trim_left (contents b))) \<and>
    becomes (cmark_strbuf_rtrim b) (trim_right (contents b)) \<and>
    becomes (cmark_strbuf_truncate b n) (take (nat n) (contents b)) \<and>
    becomes (cmark_strbuf_drop b n) (drop (nat n) (contents b))"
  using assms
  by (simp add: unescape_becomes normalize_becomes trim_becomes rtrim_becomes truncate_becomes
      drop_becomes)

theorem in_place_edits_witness:
  "becomes (cmark_strbuf_unescape (sample_buffer (str ''a!b''))) (unescape (str ''a!b''))"
proof -
  have "strbuf_ok (sample_buffer (str ''a!b''))" "contents (sample_buffer (str ''a!b'')) = str ''a!b''"
    by code_simp+
  with in_place_edits [of "sample_buffer (str ''a!b'')"] show ?thesis by simp
qed

text \<open>
  A buffer that \<open>cmark_strbuf_init\<close> has just given a block is empty and within its bounds, but it
  is terminated exactly when the allocator happens to return a zero byte: the contents are
  indeterminate until the first write.
\<close>

theorem init_unterminated:
  assumes "0 < n" "n \<le> grow_limit"
  shows "\<exists>b. cmark_strbuf_init m n = Inr b \<and> strbuf_inv b \<and> contents b = [] \<and>
    (terminated b \<longleftrightarrow> fresh m 0 = NUL)"
proof -
  define k where "k = (n + n div 2 + 1 + 7) AND NOT 7"
  let ?b = "strbuf_empty m\<lparr>ptr := map (fresh m) [0..<nat k], asize := k\<rparr>"
  have k: "0 < k" "int32 k" using rounded_size [OF assms] assms unfolding k_def by linarith+
  have "cmark_strbuf_init m n = Inr ?b"
    using assms by (simp add: cmark_strbuf_init_def cmark_strbuf_grow_def guard_def Let_def
        strbuf_empty_def mem_realloc_def k_def)
  moreover have "strbuf_inv ?b" using k by (simp add: strbuf_inv_def strbuf_empty_def)
  moreover have "contents ?b = []" by (simp add: contents_def strbuf_empty_def)
  moreover have "terminated ?b \<longleftrightarrow> fresh m 0 = NUL"
    using k by (simp add: terminated_def strbuf_empty_def peek_def)
  ultimately show ?thesis by blast
qed

theorem init_unterminated_witness:
  "\<exists>b. cmark_strbuf_init \<lparr>mem_id = 0, fresh = \<lambda>_. 0xAA\<rparr> 32 = Inr b \<and> contents b = [] \<and> \<not> terminated b"
proof -
  have "(32 :: int) \<le> grow_limit" by code_simp
  with init_unterminated [of 32 "\<lparr>mem_id = 0, fresh = \<lambda>_. 0xAA\<rparr>"] show ?thesis by auto
qed

end
