(* ===== verification/Chunk.thy ===== *)
theory Chunk
  imports Strbuf
begin

text \<open>
  Slices of memory, src/src/include/chunk.h.  A chunk is a data pointer, a length and a flag that
  says whether the chunk owns its block.  The pointer is modelled by the block that can be read
  from it on (\<open>None\<close> is the null pointer): for a chunk that lies inside a larger block this
  includes the bytes behind the chunk, which the scanners do look at.
\<close>

record cmark_chunk =
  ch_data :: "byte list option"
  ch_len :: int
  ch_alloc :: bool

definition CMARK_CHUNK_EMPTY :: cmark_chunk where
  "CMARK_CHUNK_EMPTY = \<lparr>ch_data = None, ch_len = 0, ch_alloc = False\<rparr>"

definition chunk_block :: "cmark_chunk \<Rightarrow> byte list res" where
  "chunk_block c = (case ch_data c of None \<Rightarrow> Inl Null_deref | Some d \<Rightarrow> Inr d)"

text \<open>\<open>c->data[i]\<close>\<close>

definition chunk_at :: "cmark_chunk \<Rightarrow> int \<Rightarrow> byte res" where
  "chunk_at c i = bindr (chunk_block c) (\<lambda>d. peek d i)"

text \<open>The bytes \<open>data[0 .. len)\<close> of a chunk, as \<open>memcpy\<close> reads them.\<close>

definition chunk_read :: "cmark_chunk \<Rightarrow> byte list res" where
  "chunk_read c =
     (if ch_len c \<le> 0 then Inr [] else bindr (chunk_block c) (\<lambda>d. read_range d (ch_len c)))"

definition cmark_chunk_free :: "cmark_chunk \<Rightarrow> cmark_chunk" where
  "cmark_chunk_free c = c\<lparr>ch_data := None, ch_alloc := False, ch_len := 0\<rparr>"

function chunk_ltrim_loop :: "byte list \<Rightarrow> int \<Rightarrow> (byte list \<times> int) res" where
  "chunk_ltrim_loop d n =
     (if n \<noteq> 0
      then bindr (peek d 0) (\<lambda>c. if cmark_isspace c then chunk_ltrim_loop (tl d) (n - 1) else Inr (d, n))
      else Inr (d, n))"
  by pat_completeness auto
termination
  by (relation "measure (\<lambda>(d, n). length d)") (auto simp: peek_def split: if_splits)

definition cmark_chunk_ltrim :: "cmark_chunk \<Rightarrow> cmark_chunk res" where
  "cmark_chunk_ltrim c =
     bindr (guard (\<not> ch_alloc c) Assert_failed) (\<lambda>_.
     if ch_len c = 0 then Inr c
     else bindr (chunk_block c) (\<lambda>d.
          bindr (chunk_ltrim_loop d (ch_len c)) (\<lambda>(d, n).
          Inr (c\<lparr>ch_data := Some d, ch_len := n\<rparr>))))"

definition cmark_chunk_rtrim :: "cmark_chunk \<Rightarrow> cmark_chunk res" where
  "cmark_chunk_rtrim c =
     bindr (guard (\<not> ch_alloc c) Assert_failed) (\<lambda>_.
     if ch_len c \<le> 0 then Inr c
     else bindr (chunk_block c) (\<lambda>d.
          bindr (rtrim_loop d (ch_len c)) (\<lambda>n. Inr (c\<lparr>ch_len := n\<rparr>))))"

definition cmark_chunk_trim :: "cmark_chunk \<Rightarrow> cmark_chunk res" where
  "cmark_chunk_trim c = bindr (cmark_chunk_ltrim c) cmark_chunk_rtrim"

definition cmark_chunk_strchr :: "cmark_chunk \<Rightarrow> byte \<Rightarrow> int \<Rightarrow> int res" where
  "cmark_chunk_strchr ch c offset =
     bindr (chunk_block ch) (\<lambda>d.
     bindr (memchr_from d c offset (ch_len ch)) (\<lambda>p.
     Inr (case p of Some i \<Rightarrow> i | None \<Rightarrow> ch_len ch)))"

text \<open>The returned string and the chunk, which then owns a NUL-terminated copy.\<close>

definition cmark_chunk_to_cstr :: "cmark_chunk \<Rightarrow> (byte list option \<times> cmark_chunk) res" where
  "cmark_chunk_to_cstr c =
     (if ch_alloc c then Inr (ch_data c, c)
      else
        bindr (guard (ch_len c \<ge> 0) Out_of_bounds) (\<lambda>_.
        bindr (chunk_read c) (\<lambda>bs.
        let str = bs @ [NUL]
        in Inr (Some str, c\<lparr>ch_data := Some str, ch_alloc := True\<rparr>))))"

definition cmark_chunk_set_cstr :: "cmark_chunk \<Rightarrow> byte list option \<Rightarrow> cmark_chunk res" where
  "cmark_chunk_set_cstr c source =
     (case source of
        None \<Rightarrow> Inr (c\<lparr>ch_len := 0, ch_data := None, ch_alloc := False\<rparr>)
      | Some s \<Rightarrow>
          bindr (strlen_i32 s) (\<lambda>n.
          Inr (c\<lparr>ch_len := n, ch_data := Some (take (nat n + 1) s), ch_alloc := True\<rparr>)))"

definition cmark_chunk_literal :: "byte list option \<Rightarrow> cmark_chunk res" where
  "cmark_chunk_literal data =
     (case data of
        None \<Rightarrow> Inr \<lparr>ch_data = None, ch_len = 0, ch_alloc = False\<rparr>
      | Some s \<Rightarrow> bindr (strlen_i32 s) (\<lambda>n. Inr \<lparr>ch_data = Some s, ch_len = n, ch_alloc = False\<rparr>))"

definition cmark_chunk_dup :: "cmark_chunk \<Rightarrow> int \<Rightarrow> int \<Rightarrow> cmark_chunk res" where
  "cmark_chunk_dup ch pos len =
     bindr (chunk_block ch) (\<lambda>d.
     bindr (guard (0 \<le> pos \<and> pos \<le> int (length d)) Out_of_bounds) (\<lambda>_.
     Inr \<lparr>ch_data = Some (drop (nat pos) d), ch_len = len, ch_alloc = False\<rparr>))"

definition cmark_chunk_buf_detach :: "cmark_strbuf \<Rightarrow> (cmark_chunk \<times> cmark_strbuf) res" where
  "cmark_chunk_buf_detach buf =
     bindr (cmark_strbuf_detach buf) (\<lambda>(d, buf').
     Inr (\<lparr>ch_data = Some d, ch_len = bsize buf, ch_alloc = True\<rparr>, buf'))"

definition cmark_chunk_ltrim_new :: "cmark_chunk \<Rightarrow> cmark_chunk res" where
  "cmark_chunk_ltrim_new c =
     bindr (cmark_chunk_dup c 0 (ch_len c)) (\<lambda>r.
     bindr (cmark_chunk_ltrim r) (\<lambda>r.
     bindr (cmark_chunk_to_cstr r) (\<lambda>(_, r). Inr r)))"

definition cmark_chunk_rtrim_new :: "cmark_chunk \<Rightarrow> cmark_chunk res" where
  "cmark_chunk_rtrim_new c =
     bindr (cmark_chunk_dup c 0 (ch_len c)) (\<lambda>r.
     bindr (cmark_chunk_rtrim r) (\<lambda>r.
     bindr (cmark_chunk_to_cstr r) (\<lambda>(_, r). Inr r)))"

declare chunk_ltrim_loop.simps [simp del]

section \<open>Well-formed chunks and what they hold\<close>

definition chunk_ok :: "cmark_chunk \<Rightarrow> bool" where
  "chunk_ok c \<longleftrightarrow> 0 \<le> ch_len c \<and>
     (case ch_data c of None \<Rightarrow> ch_len c = 0 \<and> \<not> ch_alloc c
      | Some d \<Rightarrow> ch_len c \<le> int (length d) \<and>
          (ch_alloc c \<longrightarrow> peek d (ch_len c) = Inr NUL))"

definition chunk_bytes :: "cmark_chunk \<Rightarrow> byte list" where
  "chunk_bytes c = (case ch_data c of None \<Rightarrow> [] | Some d \<Rightarrow> take (nat (ch_len c)) d)"

lemma chunk_okI:
  assumes "ch_data c = Some (bs @ tail)" "ch_len c = int (length bs)"
    "ch_alloc c \<Longrightarrow> hd_opt tail = Some NUL"
  shows "chunk_ok c" "chunk_bytes c = bs"
  using assms by (cases tail; auto simp: chunk_ok_def chunk_bytes_def)+

lemma chunk_cases:
  assumes "chunk_ok c"
  obtains (null) "ch_data c = None" "ch_len c = 0" "\<not> ch_alloc c" "chunk_bytes c = []"
  | (block) bs tail where "ch_data c = Some (bs @ tail)" "ch_len c = int (length bs)"
      "ch_alloc c \<longrightarrow> hd_opt tail = Some NUL" "chunk_bytes c = bs"
proof (cases "ch_data c")
  case None
  with assms null show thesis by (auto simp: chunk_ok_def chunk_bytes_def)
next
  case (Some d)
  let ?n = "nat (ch_len c)"
  have n: "0 \<le> ch_len c" "?n \<le> length d" "int ?n = ch_len c"
    using assms Some by (auto simp: chunk_ok_def nat_le_iff)
  have "ch_alloc c \<longrightarrow> hd_opt (drop ?n d) = Some NUL"
  proof
    assume "ch_alloc c"
    with assms Some have "ch_len c < int (length d)" "d ! ?n = NUL"
      by (auto simp: chunk_ok_def Prelude.block)
    moreover from this n have "drop ?n d = d ! ?n # drop (Suc ?n) d"
      by (intro Cons_nth_drop_Suc [symmetric]) linarith
    ultimately show "hd_opt (drop ?n d) = Some NUL" by simp
  qed
  with Some n block [of "take ?n d" "drop ?n d"] show thesis
    by (simp add: chunk_bytes_def)
qed

lemma chunk_len: "chunk_ok c \<Longrightarrow> ch_len c = int (length (chunk_bytes c))"
  by (erule chunk_cases) simp_all

lemma chunk_read_ok [simp]: "chunk_ok c \<Longrightarrow> chunk_read c = Inr (chunk_bytes c)"
  by (erule chunk_cases) (auto simp: chunk_read_def chunk_block_def read_range_def)

lemma chunk_empty_ok [simp]: "chunk_ok CMARK_CHUNK_EMPTY" "chunk_bytes CMARK_CHUNK_EMPTY = []"
  by (simp_all add: chunk_ok_def chunk_bytes_def CMARK_CHUNK_EMPTY_def)

lemma chunk_free_ok [simp]: "chunk_ok (cmark_chunk_free c)" "chunk_bytes (cmark_chunk_free c) = []"
  by (simp_all add: cmark_chunk_free_def chunk_ok_def chunk_bytes_def)

lemma chunk_ltrim_loop_eq:
  "chunk_ltrim_loop (cs @ tail) (int (length cs)) =
     Inr (trim_left cs @ tail, int (length (trim_left cs)))"
proof (induction cs)
  case Nil
  then show ?case by (simp add: chunk_ltrim_loop.simps trim_left_def)
next
  case (Cons c cs)
  then show ?case by (subst chunk_ltrim_loop.simps) (simp add: trim_left_def)
qed

text \<open>\<open>slice m bs\<close>: the run gives an unowned well-formed chunk that holds \<open>bs\<close>.\<close>

definition slice :: "cmark_chunk res \<Rightarrow> byte list \<Rightarrow> bool" where
  "slice m bs \<longleftrightarrow> (\<exists>c. m = Inr c \<and> chunk_ok c \<and> \<not> ch_alloc c \<and> chunk_bytes c = bs)"

lemma slice_chunk:
  "slice (Inr \<lparr>ch_data = Some (bs @ tail), ch_len = int (length bs), ch_alloc = False\<rparr>) bs"
  unfolding slice_def by (intro exI conjI) (auto intro!: chunk_okI)

lemma ltrim_bytes:
  assumes "chunk_ok c" "\<not> ch_alloc c"
  shows "slice (cmark_chunk_ltrim c) (trim_left (chunk_bytes c))"
  using assms(1)
proof (cases rule: chunk_cases)
  case null
  with assms show ?thesis by (simp add: slice_def cmark_chunk_ltrim_def trim_left_def)
next
  case (block bs tail)
  with assms show ?thesis
  proof (cases "bs = []")
    case True
    with assms block show ?thesis by (simp add: slice_def cmark_chunk_ltrim_def trim_left_def)
  next
    case False
    have "cmark_chunk_ltrim c = Inr \<lparr>ch_data = Some (trim_left bs @ tail),
        ch_len = int (length (trim_left bs)), ch_alloc = False\<rparr>"
      using False block assms(2)
      by (simp add: cmark_chunk_ltrim_def chunk_block_def chunk_ltrim_loop_eq)
    then show ?thesis using slice_chunk block by metis
  qed
qed

lemma trim_right_append: "\<exists>w. bs = trim_right bs @ w"
proof -
  have "rev bs = takeWhile cmark_isspace (rev bs) @ dropWhile cmark_isspace (rev bs)" by simp
  then have "bs = trim_right bs @ rev (takeWhile cmark_isspace (rev bs))"
    unfolding trim_right_def by (metis rev_append rev_rev_ident)
  then show ?thesis by blast
qed

lemma rtrim_bytes:
  assumes "chunk_ok c" "\<not> ch_alloc c"
  shows "slice (cmark_chunk_rtrim c) (trim_right (chunk_bytes c))"
  using assms(1)
proof (cases rule: chunk_cases)
  case null
  with assms show ?thesis by (simp add: slice_def cmark_chunk_rtrim_def trim_right_def)
next
  case (block bs tail)
  obtain w where w: "bs = trim_right bs @ w" using trim_right_append by blast
  show ?thesis
  proof (cases "bs = []")
    case True
    with assms block show ?thesis by (simp add: slice_def cmark_chunk_rtrim_def trim_right_def)
  next
    case False
    have "cmark_chunk_rtrim c = Inr \<lparr>ch_data = Some (bs @ tail),
        ch_len = int (length (trim_right bs)), ch_alloc = False\<rparr>"
      using False block assms(2) rtrim_loop_eq [of "bs @ tail" bs tail]
      by (simp add: cmark_chunk_rtrim_def chunk_block_def trim_right_def)
    moreover have "bs @ tail = trim_right bs @ w @ tail" using w by (metis append.assoc)
    ultimately show ?thesis using slice_chunk block by metis
  qed
qed

lemma trim_bytes:
  assumes "chunk_ok c" "\<not> ch_alloc c"
  shows "slice (cmark_chunk_trim c) (trim_right (trim_left (chunk_bytes c)))"
  using ltrim_bytes [OF assms] rtrim_bytes by (fastforce simp: cmark_chunk_trim_def slice_def)

lemma to_cstr_bytes:
  assumes "chunk_ok c"
  shows "\<exists>s c'. cmark_chunk_to_cstr c = Inr (s, c') \<and> chunk_ok c' \<and> ch_alloc c' \<and>
    chunk_bytes c' = chunk_bytes c \<and> s = ch_data c' \<and> ch_len c' = ch_len c"
proof (cases "ch_alloc c")
  case True
  with assms show ?thesis by (simp add: cmark_chunk_to_cstr_def)
next
  case False
  let ?c = "c\<lparr>ch_data := Some (chunk_bytes c @ [NUL]), ch_alloc := True\<rparr>"
  have "chunk_ok ?c" "chunk_bytes ?c = chunk_bytes c"
    using chunk_okI [of ?c "chunk_bytes c" "[NUL]"] chunk_len [OF assms] by simp_all
  moreover have "cmark_chunk_to_cstr c = Inr (Some (chunk_bytes c @ [NUL]), ?c)"
    using False assms chunk_len [OF assms] by (simp add: cmark_chunk_to_cstr_def Let_def)
  ultimately show ?thesis by simp
qed

lemma dup_bytes:
  assumes "ch_data c = Some d" "0 \<le> pos" "0 \<le> len" "pos + len \<le> int (length d)"
  shows "slice (cmark_chunk_dup c pos len) (take (nat len) (drop (nat pos) d))"
proof -
  have "nat pos + nat len \<le> length d" using assms by linarith
  then have "drop (nat pos) d = take (nat len) (drop (nat pos) d) @ drop (nat len) (drop (nat pos) d)"
    and "len = int (length (take (nat len) (drop (nat pos) d)))"
    using assms by (simp_all only: append_take_drop_id length_take length_drop)
  with slice_chunk have "slice (Inr \<lparr>ch_data = Some (drop (nat pos) d), ch_len = len, ch_alloc = False\<rparr>)
      (take (nat len) (drop (nat pos) d))"
    by metis
  with assms show ?thesis by (simp add: cmark_chunk_dup_def chunk_block_def)
qed

lemma buf_detach_bytes:
  assumes "strbuf_ok b"
  shows "\<exists>c b'. cmark_chunk_buf_detach b = Inr (c, b') \<and> chunk_ok c \<and> ch_alloc c \<and>
    chunk_bytes c = contents b \<and> strbuf_ok b' \<and> contents b' = []"
proof -
  have len: "bsize b = int (length (contents b))"
    using length_contents [OF ok_inv [OF assms]] by simp
  obtain tail b' where d: "cmark_strbuf_detach b = Inr (contents b @ NUL # tail, b')"
    "strbuf_ok b'" "contents b' = []"
    using detach_contents [OF assms] assms by (metis append_Nil strbuf_empty_ok)
  let ?c = "\<lparr>ch_data = Some (contents b @ NUL # tail), ch_len = bsize b, ch_alloc = True\<rparr>"
  have "chunk_ok ?c" "chunk_bytes ?c = contents b"
    using chunk_okI [of ?c "contents b" "NUL # tail"] len by simp_all
  with d show ?thesis by (simp add: cmark_chunk_buf_detach_def)
qed

section \<open>Properties\<close>

text \<open>
  C27: Detaching a buffer into a chunk hands over exactly its contents, as an owned well-formed
  chunk, and leaves the buffer empty; turning any chunk into a C string keeps its bytes and gives
  a NUL-terminated owned block.
\<close>

theorem chunk_ownership:
  assumes "strbuf_ok b" "chunk_ok c"
  shows "(\<exists>d b'. cmark_chunk_buf_detach b = Inr (d, b') \<and> chunk_ok d \<and> ch_alloc d \<and>
      chunk_bytes d = contents b \<and> strbuf_ok b' \<and> contents b' = []) \<and>
    (\<exists>s c'. cmark_chunk_to_cstr c = Inr (s, c') \<and> chunk_ok c' \<and> ch_alloc c' \<and>
      chunk_bytes c' = chunk_bytes c \<and> s = ch_data c')"
  using buf_detach_bytes [OF assms(1)] to_cstr_bytes [OF assms(2)] by blast

theorem chunk_ownership_witness:
  "\<exists>d b'. cmark_chunk_buf_detach (sample_buffer (str ''xyz'')) = Inr (d, b') \<and>
     chunk_bytes d = str ''xyz'' \<and> contents b' = []"
proof -
  let ?c = "\<lparr>ch_data = Some (str ''pq''), ch_len = 2, ch_alloc = False\<rparr>"
  have "strbuf_ok (sample_buffer (str ''xyz''))" "contents (sample_buffer (str ''xyz'')) = str ''xyz''"
    "chunk_ok ?c"
    by code_simp+
  with chunk_ownership [of "sample_buffer (str ''xyz'')" ?c] show ?thesis by auto
qed

end
