(* ===== verification/Utf8.thy ===== *)
theory Utf8
  imports Chunk
begin

text \<open>
  UTF-8, src/src/utf8.c: the length and the validity of an encoded character, the replacement of
  invalid input, decoding, encoding and the two character classes.

  A pointer argument is the block that can be read from it; reads are bounds checked.  The
  lemmas compare the byte tests with RFC 3629, relate decoding and encoding, and show that
  \<open>cmark_utf8proc_check\<close> reads inside its input and always emits valid UTF-8 without NUL.
\<close>

section \<open>The code\<close>

definition utf8proc_utf8class :: "int list" where
  "utf8proc_utf8class =
   [1, 1, 1, 1, 1, 1, 1, 1, 1, 1, 1, 1, 1, 1, 1, 1, 1, 1, 1, 1, 1, 1, 1, 1, 1, 1, 1, 1, 1, 1, 1, 1,
    1, 1, 1, 1, 1, 1, 1, 1, 1, 1, 1, 1, 1, 1, 1, 1, 1, 1, 1, 1, 1, 1, 1, 1, 1, 1, 1, 1, 1, 1, 1, 1,
    1, 1, 1, 1, 1, 1, 1, 1, 1, 1, 1, 1, 1, 1, 1, 1, 1, 1, 1, 1, 1, 1, 1, 1, 1, 1, 1, 1, 1, 1, 1, 1,
    1, 1, 1, 1, 1, 1, 1, 1, 1, 1, 1, 1, 1, 1, 1, 1, 1, 1, 1, 1, 1, 1, 1, 1, 1, 1, 1, 1, 1, 1, 1, 1,
    0, 0, 0, 0, 0, 0, 0, 0, 0, 0, 0, 0, 0, 0, 0, 0, 0, 0, 0, 0, 0, 0, 0, 0, 0, 0, 0, 0, 0, 0, 0, 0,
    0, 0, 0, 0, 0, 0, 0, 0, 0, 0, 0, 0, 0, 0, 0, 0, 0, 0, 0, 0, 0, 0, 0, 0, 0, 0, 0, 0, 0, 0, 0, 0,
    2, 2, 2, 2, 2, 2, 2, 2, 2, 2, 2, 2, 2, 2, 2, 2, 2, 2, 2, 2, 2, 2, 2, 2, 2, 2, 2, 2, 2, 2, 2, 2,
    3, 3, 3, 3, 3, 3, 3, 3, 3, 3, 3, 3, 3, 3, 3, 3, 4, 4, 4, 4, 4, 4, 4, 4, 0, 0, 0, 0, 0, 0, 0, 0]"

definition repl :: "byte list" where
  "repl = [239, 191, 189]"

definition encode_unknown :: "cmark_strbuf \<Rightarrow> cmark_strbuf res" where
  "encode_unknown buf = cmark_strbuf_put buf repl 3"

definition is_cont :: "byte \<Rightarrow> bool" where
  "is_cont b \<longleftrightarrow> b AND 0xC0 = 0x80"

function charlen_loop :: "byte list \<Rightarrow> int \<Rightarrow> int \<Rightarrow> int res" where
  "charlen_loop s n i =
     (if i < n
      then bindr (peek s i) (\<lambda>b. if \<not> is_cont b then Inr (- i) else charlen_loop s n (i + 1))
      else Inr n)"
  by pat_completeness auto
termination
  by (relation "measure (\<lambda>(s, n, i). nat (n - i))") auto

definition utf8proc_charlen :: "byte list \<Rightarrow> int \<Rightarrow> int res" where
  "utf8proc_charlen s str_len =
     (if str_len = 0 then Inr 0
      else
        bindr (peek s 0) (\<lambda>b.
        let length = utf8proc_utf8class ! unat b
        in if length = 0 then Inr (-1)
           else if str_len \<ge> 0 \<and> length > str_len then Inr (- str_len)
           else charlen_loop s length 1))"

definition utf8proc_valid :: "byte list \<Rightarrow> int \<Rightarrow> int res" where
  "utf8proc_valid s str_len =
     bindr (peek s 0) (\<lambda>b0.
     let length = utf8proc_utf8class ! unat b0
     in if length = 0 then Inr (-1)
        else if length > str_len then Inr (- str_len)
        else if length = 2 then
          bindr (peek s 1) (\<lambda>b1.
          if \<not> is_cont b1 then Inr (-1)
          else if b0 < 0xC2 then Inr (- length)
          else Inr length)
        else if length = 3 then
          bindr (peek s 1) (\<lambda>b1.
          if \<not> is_cont b1 then Inr (-1)
          else bindr (peek s 2) (\<lambda>b2.
          if \<not> is_cont b2 then Inr (-2)
          else if b0 = 0xE0 then (if b1 < 0xA0 then Inr (- length) else Inr length)
          else if b0 = 0xED then (if b1 \<ge> 0xA0 then Inr (- length) else Inr length)
          else Inr length))
        else if length = 4 then
          bindr (peek s 1) (\<lambda>b1.
          if \<not> is_cont b1 then Inr (-1)
          else bindr (peek s 2) (\<lambda>b2.
          if \<not> is_cont b2 then Inr (-2)
          else bindr (peek s 3) (\<lambda>b3.
          if \<not> is_cont b3 then Inr (-3)
          else if b0 = 0xF0 then (if b1 < 0x90 then Inr (- length) else Inr length)
          else if b0 \<ge> 0xF4
               then (if b0 > 0xF4 \<or> b1 \<ge> 0x90 then Inr (- length) else Inr length)
          else Inr length)))
        else Inr length)"

lemma utf8class_table:
  "utf8proc_utf8class = map (\<lambda>n. if n < 0x80 then 1 else if n < 0xC0 then 0 else if n < 0xE0 then 2
     else if n < 0xF0 then 3 else if n < 0xF8 then 4 else 0) [0..<256]"
  by code_simp

lemmas utf8class = table_lookup [OF utf8class_table]

text \<open>The result of \<open>utf8proc_valid\<close> is never zero, so that the scan below moves on.\<close>

lemma utf8proc_valid_nonzero:
  assumes "utf8proc_valid s n = Inr k" "0 < n"
  shows "k \<noteq> 0"
  using assms
  by (auto simp: utf8proc_valid_def utf8class Let_def split: if_splits)

lemma utf8proc_valid_le:
  assumes "utf8proc_valid s n = Inr k" "0 < n"
  shows "k \<le> n"
  using assms
  by (auto simp: utf8proc_valid_def utf8class Let_def split: if_splits)

function check_scan :: "byte list \<Rightarrow> int \<Rightarrow> int \<Rightarrow> (int \<times> int) res" where
  "check_scan line sz i =
     (if i < sz
      then bindr (peek line i) (\<lambda>c.
           if c < 0x80 \<and> c \<noteq> 0 then check_scan line sz (i + 1)
           else if c \<ge> 0x80
           then bindr (utf8proc_valid (drop (nat i) line) (sz - i)) (\<lambda>charlen.
                if charlen < 0 then Inr (i, - charlen) else check_scan line sz (i + charlen))
           else Inr (i, 1))
      else Inr (i, 0))"
  by pat_completeness auto
termination
  by (relation "measure (\<lambda>(line, sz, i). nat (sz - i))") (auto dest: utf8proc_valid_nonzero)

declare charlen_loop.simps [simp del] check_scan.simps [simp del]

lemma check_scan_progress:
  assumes "check_scan line sz i = Inr (j, charlen)" "i \<le> sz"
  shows "i \<le> j \<and> (j < sz \<longrightarrow> 0 < charlen)"
  using assms
proof (induction line sz i rule: check_scan.induct)
  case (1 line sz i)
  show ?case
  proof (cases "i < sz")
    case False
    with 1 show ?thesis by (auto simp: check_scan.simps [of line sz i])
  next
    case True
    note run = "1.prems"(1)
    from run True obtain c where pk: "peek line i = Inr c"
      by (subst (asm) check_scan.simps) auto
    consider "c < 0x80 \<and> c \<noteq> 0" | "\<not> (c < 0x80 \<and> c \<noteq> 0)" "c \<ge> 0x80"
      | "\<not> (c < 0x80 \<and> c \<noteq> 0)" "\<not> c \<ge> 0x80" by blast
    then show ?thesis
    proof cases
      case a: 1
      from run True pk a have "check_scan line sz (i + 1) = Inr (j, charlen)"
        by (subst (asm) check_scan.simps) simp
      with "1.IH"(1) [OF True pk a] True show ?thesis by auto
    next
      case a: 2
      from run True pk a obtain k where k: "utf8proc_valid (drop (nat i) line) (sz - i) = Inr k"
        by (subst (asm) check_scan.simps) (auto split: if_splits)
      then have "k \<noteq> 0" using True utf8proc_valid_nonzero by simp
      from run True pk a k have "if k < 0 then j = i \<and> charlen = - k
          else check_scan line sz (i + k) = Inr (j, charlen)"
        by (subst (asm) check_scan.simps) (auto split: if_splits)
      with "1.IH"(2) [OF True pk a k] \<open>k \<noteq> 0\<close> True utf8proc_valid_le [OF k] show ?thesis
        by (auto split: if_splits)
    next
      case 3
      with run True pk show ?thesis by (subst (asm) check_scan.simps) auto
    qed
  qed
qed

function check_loop :: "cmark_strbuf \<Rightarrow> byte list \<Rightarrow> int \<Rightarrow> int \<Rightarrow> cmark_strbuf res" where
  "check_loop ob line sz i =
     (if i < sz
      then let org = i
        in bindr (check_scan line sz i) (\<lambda>(i, charlen).
           bindr (if i > org then cmark_strbuf_put ob (drop (nat org) line) (i - org) else Inr ob) (\<lambda>ob.
           if i \<ge> sz then Inr ob
           else bindr (encode_unknown ob) (\<lambda>ob. check_loop ob line sz (i + charlen))))
      else Inr ob)"
  by pat_completeness auto
termination
  by (relation "measure (\<lambda>(ob, line, sz, i). nat (sz - i))")
    (auto dest!: check_scan_progress)

declare check_loop.simps [simp del]

definition cmark_utf8proc_check :: "cmark_strbuf \<Rightarrow> byte list \<Rightarrow> int \<Rightarrow> cmark_strbuf res" where
  "cmark_utf8proc_check ob line sz = check_loop ob line sz 0"

text \<open>The returned length (or -1) and the value of \<open>*dst\<close>.\<close>

definition cmark_utf8proc_iterate :: "byte list \<Rightarrow> int \<Rightarrow> (int \<times> int) res" where
  "cmark_utf8proc_iterate s str_len =
     bindr (utf8proc_charlen s str_len) (\<lambda>length.
     if length < 0 then Inr (-1, -1)
     else
       bindr
         (if length = 1 then bindr (peek s 0) (\<lambda>b0. Inr (uint b0))
          else if length = 2 then
            bindr (peek s 0) (\<lambda>b0. bindr (peek s 1) (\<lambda>b1.
            let uc = push_bit 6 (uint (b0 AND 0x1F)) + uint (b1 AND 0x3F)
            in Inr (if uc < 0x80 then -1 else uc)))
          else if length = 3 then
            bindr (peek s 0) (\<lambda>b0. bindr (peek s 1) (\<lambda>b1. bindr (peek s 2) (\<lambda>b2.
            let uc = push_bit 12 (uint (b0 AND 0x0F)) + push_bit 6 (uint (b1 AND 0x3F))
                       + uint (b2 AND 0x3F)
            in Inr (if uc < 0x800 \<or> (uc \<ge> 0xD800 \<and> uc < 0xE000) then -1 else uc))))
          else if length = 4 then
            bindr (peek s 0) (\<lambda>b0. bindr (peek s 1) (\<lambda>b1. bindr (peek s 2) (\<lambda>b2.
            bindr (peek s 3) (\<lambda>b3.
            let uc = push_bit 18 (uint (b0 AND 0x07)) + push_bit 12 (uint (b1 AND 0x3F))
                       + push_bit 6 (uint (b2 AND 0x3F)) + uint (b3 AND 0x3F)
            in Inr (if uc < 0x10000 \<or> uc \<ge> 0x110000 then -1 else uc)))))
          else Inr (-1))
         (\<lambda>uc. if uc < 0 then Inr (-1, -1) else Inr (length, uc)))"

definition low_byte :: "int \<Rightarrow> byte" where
  "low_byte i = word_of_int i"

text \<open>The bytes \<open>cmark_utf8proc_encode_char\<close> puts into \<open>dst\<close>; \<open>None\<close> where it gives up.\<close>

definition encode_bytes :: "int \<Rightarrow> byte list option" where
  "encode_bytes uc =
     (if uc < 0x80 then Some [low_byte uc]
      else if uc < 0x800 then
        Some [low_byte (0xC0 + drop_bit 6 uc), low_byte (0x80 + (uc AND 0x3F))]
      else if uc = 0xFFFF then Some [0xFF]
      else if uc = 0xFFFE then Some [0xFE]
      else if uc < 0x10000 then
        Some [low_byte (0xE0 + drop_bit 12 uc), low_byte (0x80 + (drop_bit 6 uc AND 0x3F)),
              low_byte (0x80 + (uc AND 0x3F))]
      else if uc < 0x110000 then
        Some [low_byte (0xF0 + drop_bit 18 uc), low_byte (0x80 + (drop_bit 12 uc AND 0x3F)),
              low_byte (0x80 + (drop_bit 6 uc AND 0x3F)), low_byte (0x80 + (uc AND 0x3F))]
      else None)"

definition cmark_utf8proc_encode_char :: "int \<Rightarrow> cmark_strbuf \<Rightarrow> cmark_strbuf res" where
  "cmark_utf8proc_encode_char uc buf =
     bindr (guard (uc \<ge> 0) Assert_failed) (\<lambda>_.
     case encode_bytes uc of
       None \<Rightarrow> encode_unknown buf
     | Some dst \<Rightarrow> cmark_strbuf_put buf dst (int (length dst)))"

definition cmark_utf8proc_is_space :: "int \<Rightarrow> bool" where
  "cmark_utf8proc_is_space uc \<longleftrightarrow>
     uc = 9 \<or> uc = 10 \<or> uc = 12 \<or> uc = 13 \<or> uc = 32 \<or>
     uc = 160 \<or> uc = 5760 \<or> (uc \<ge> 8192 \<and> uc \<le> 8202) \<or> uc = 8239 \<or>
     uc = 8287 \<or> uc = 12288"

definition cmark_utf8proc_is_punctuation :: "int \<Rightarrow> bool" where
  "cmark_utf8proc_is_punctuation uc \<longleftrightarrow>
     uc < 128 \<and> cmark_ispunct (word_of_int uc) \<or> uc = 161 \<or> uc = 167 \<or> uc =
     171 \<or> uc = 182 \<or> uc = 183 \<or> uc = 187 \<or> uc = 191 \<or> uc = 894 \<or> uc =
     903 \<or> 1370 \<le> uc \<and> uc \<le> 1375 \<or> uc = 1417 \<or> uc = 1418 \<or> uc =
     1470 \<or> uc = 1472 \<or> uc = 1475 \<or> uc = 1478 \<or> uc = 1523 \<or> uc = 1524 \<or>
     uc = 1545 \<or> uc = 1546 \<or> uc = 1548 \<or> uc = 1549 \<or> uc = 1563 \<or> uc = 1566
     \<or> uc = 1567 \<or> 1642 \<le> uc \<and> uc \<le> 1645 \<or> uc = 1748 \<or> 1792 \<le>
     uc \<and> uc \<le> 1805 \<or> 2039 \<le> uc \<and> uc \<le> 2041 \<or> 2096 \<le> uc
     \<and> uc \<le> 2110 \<or> uc = 2142 \<or> uc = 2404 \<or> uc = 2405 \<or> uc = 2416 \<or>
     uc = 2800 \<or> uc = 3572 \<or> uc = 3663 \<or> uc = 3674 \<or> uc = 3675 \<or> 3844 \<le>
     uc \<and> uc \<le> 3858 \<or> uc = 3860 \<or> 3898 \<le> uc \<and> uc \<le> 3901 \<or> uc
     = 3973 \<or> 4048 \<le> uc \<and> uc \<le> 4052 \<or> uc = 4057 \<or> uc = 4058 \<or> 4170
     \<le> uc \<and> uc \<le> 4175 \<or> uc = 4347 \<or> 4960 \<le> uc \<and> uc \<le> 4968
     \<or> uc = 5120 \<or> uc = 5741 \<or> uc = 5742 \<or> uc = 5787 \<or> uc = 5788 \<or> 5867
     \<le> uc \<and> uc \<le> 5869 \<or> uc = 5941 \<or> uc = 5942 \<or> 6100 \<le> uc \<and>
     uc \<le> 6102 \<or> 6104 \<le> uc \<and> uc \<le> 6106 \<or> 6144 \<le> uc \<and> uc \<le>
     6154 \<or> uc = 6468 \<or> uc = 6469 \<or> uc = 6686 \<or> uc = 6687 \<or> 6816 \<le> uc
     \<and> uc \<le> 6822 \<or> 6824 \<le> uc \<and> uc \<le> 6829 \<or> 7002 \<le> uc \<and>
     uc \<le> 7008 \<or> 7164 \<le> uc \<and> uc \<le> 7167 \<or> 7227 \<le> uc \<and> uc \<le>
     7231 \<or> uc = 7294 \<or> uc = 7295 \<or> 7360 \<le> uc \<and> uc \<le> 7367 \<or> uc =
     7379 \<or> 8208 \<le> uc \<and> uc \<le> 8231 \<or> 8240 \<le> uc \<and> uc \<le> 8259
     \<or> 8261 \<le> uc \<and> uc \<le> 8273 \<or> 8275 \<le> uc \<and> uc \<le> 8286 \<or> uc
     = 8317 \<or> uc = 8318 \<or> uc = 8333 \<or> uc = 8334 \<or> 8968 \<le> uc \<and> uc \<le>
     8971 \<or> uc = 9001 \<or> uc = 9002 \<or> 10088 \<le> uc \<and> uc \<le> 10101 \<or> uc =
     10181 \<or> uc = 10182 \<or> 10214 \<le> uc \<and> uc \<le> 10223 \<or> 10627 \<le> uc
     \<and> uc \<le> 10648 \<or> 10712 \<le> uc \<and> uc \<le> 10715 \<or> uc = 10748 \<or> uc
     = 10749 \<or> 11513 \<le> uc \<and> uc \<le> 11516 \<or> uc = 11518 \<or> uc = 11519 \<or>
     uc = 11632 \<or> 11776 \<le> uc \<and> uc \<le> 11822 \<or> 11824 \<le> uc \<and> uc \<le>
     11842 \<or> 12289 \<le> uc \<and> uc \<le> 12291 \<or> 12296 \<le> uc \<and> uc \<le>
     12305 \<or> 12308 \<le> uc \<and> uc \<le> 12319 \<or> uc = 12336 \<or> uc = 12349 \<or>
     uc = 12448 \<or> uc = 12539 \<or> uc = 42238 \<or> uc = 42239 \<or> 42509 \<le> uc \<and>
     uc \<le> 42511 \<or> uc = 42611 \<or> uc = 42622 \<or> 42738 \<le> uc \<and> uc \<le>
     42743 \<or> 43124 \<le> uc \<and> uc \<le> 43127 \<or> uc = 43214 \<or> uc = 43215 \<or>
     43256 \<le> uc \<and> uc \<le> 43258 \<or> uc = 43310 \<or> uc = 43311 \<or> uc = 43359
     \<or> 43457 \<le> uc \<and> uc \<le> 43469 \<or> uc = 43486 \<or> uc = 43487 \<or> 43612
     \<le> uc \<and> uc \<le> 43615 \<or> uc = 43742 \<or> uc = 43743 \<or> uc = 43760 \<or> uc
     = 43761 \<or> uc = 44011 \<or> uc = 64830 \<or> uc = 64831 \<or> 65040 \<le> uc \<and> uc
     \<le> 65049 \<or> 65072 \<le> uc \<and> uc \<le> 65106 \<or> 65108 \<le> uc \<and> uc
     \<le> 65121 \<or> uc = 65123 \<or> uc = 65128 \<or> uc = 65130 \<or> uc = 65131 \<or>
     65281 \<le> uc \<and> uc \<le> 65283 \<or> 65285 \<le> uc \<and> uc \<le> 65290 \<or>
     65292 \<le> uc \<and> uc \<le> 65295 \<or> uc = 65306 \<or> uc = 65307 \<or> uc = 65311
     \<or> uc = 65312 \<or> 65339 \<le> uc \<and> uc \<le> 65341 \<or> uc = 65343 \<or> uc =
     65371 \<or> uc = 65373 \<or> 65375 \<le> uc \<and> uc \<le> 65381 \<or> 65792 \<le> uc
     \<and> uc \<le> 65794 \<or> uc = 66463 \<or> uc = 66512 \<or> uc = 66927 \<or> uc = 67671
     \<or> uc = 67871 \<or> uc = 67903 \<or> 68176 \<le> uc \<and> uc \<le> 68184 \<or> uc =
     68223 \<or> 68336 \<le> uc \<and> uc \<le> 68342 \<or> 68409 \<le> uc \<and> uc \<le>
     68415 \<or> 68505 \<le> uc \<and> uc \<le> 68508 \<or> 69703 \<le> uc \<and> uc \<le>
     69709 \<or> uc = 69819 \<or> uc = 69820 \<or> 69822 \<le> uc \<and> uc \<le> 69825 \<or>
     69952 \<le> uc \<and> uc \<le> 69955 \<or> uc = 70004 \<or> uc = 70005 \<or> 70085 \<le>
     uc \<and> uc \<le> 70088 \<or> uc = 70093 \<or> 70200 \<le> uc \<and> uc \<le> 70205 \<or>
     uc = 70854 \<or> 71105 \<le> uc \<and> uc \<le> 71113 \<or> 71233 \<le> uc \<and> uc \<le>
     71235 \<or> 74864 \<le> uc \<and> uc \<le> 74868 \<or> uc = 92782 \<or> uc = 92783 \<or>
     uc = 92917 \<or> 92983 \<le> uc \<and> uc \<le> 92987 \<or> uc = 92996 \<or> uc = 113823"

section \<open>Valid UTF-8\<close>

text \<open>The well-formed encodings of one character, RFC 3629, section 4.\<close>

fun char_ok :: "byte list \<Rightarrow> bool" where
  "char_ok [a] \<longleftrightarrow> a < 0x80"
| "char_ok [a, b] \<longleftrightarrow> 0xC2 \<le> a \<and> a \<le> 0xDF \<and> 0x80 \<le> b \<and> b \<le> 0xBF"
| "char_ok [a, b, c] \<longleftrightarrow>
     (a = 0xE0 \<and> 0xA0 \<le> b \<and> b \<le> 0xBF \<or>
      0xE1 \<le> a \<and> a \<le> 0xEC \<and> 0x80 \<le> b \<and> b \<le> 0xBF \<or>
      a = 0xED \<and> 0x80 \<le> b \<and> b \<le> 0x9F \<or>
      0xEE \<le> a \<and> a \<le> 0xEF \<and> 0x80 \<le> b \<and> b \<le> 0xBF) \<and> 0x80 \<le> c \<and> c \<le> 0xBF"
| "char_ok [a, b, c, d] \<longleftrightarrow>
     (a = 0xF0 \<and> 0x90 \<le> b \<and> b \<le> 0xBF \<or>
      0xF1 \<le> a \<and> a \<le> 0xF3 \<and> 0x80 \<le> b \<and> b \<le> 0xBF \<or>
      a = 0xF4 \<and> 0x80 \<le> b \<and> b \<le> 0x8F) \<and> 0x80 \<le> c \<and> c \<le> 0xBF \<and> 0x80 \<le> d \<and> d \<le> 0xBF"
| "char_ok _ \<longleftrightarrow> False"

inductive valid_utf8 :: "byte list \<Rightarrow> bool" where
  valid_Nil: "valid_utf8 []"
| valid_char: "char_ok c \<Longrightarrow> valid_utf8 s \<Longrightarrow> valid_utf8 (c @ s)"

lemma high_bits: "uint ((b :: byte) AND 0xC0) = uint b - uint b mod 64"
proof -
  have "(0xC0 :: byte) = NOT (mask 6)" by (simp add: mask_eq_exp_minus_1)
  moreover have "b AND NOT (mask 6) = b AND NOT (take_bit 6 b)"
    by (auto intro!: bit_eqI simp: bit_simps)
  moreover have "b - take_bit 6 b = b AND NOT (take_bit 6 b)"
    by (rule disjunctive_diff_eq_and_not) (auto intro!: bit_eqI simp: bit_simps)
  ultimately have "b AND 0xC0 = b - take_bit 6 b" by simp
  moreover have u: "uint (take_bit 6 b) = uint b mod 64"
    by (simp only: unsigned_take_bit_eq) (simp add: take_bit_eq_mod)
  moreover have "uint b mod 64 \<le> uint b" by (simp add: zmod_le_nonneg_dividend)
  ultimately show ?thesis by (simp add: uint_sub_lem [THEN iffD1])
qed

lemma is_cont_iff: "is_cont b \<longleftrightarrow> 0x80 \<le> b \<and> b \<le> 0xBF"
proof -
  have "is_cont b \<longleftrightarrow> uint b - uint b mod 64 = 128"
    using high_bits [of b] by (simp add: is_cont_def word_uint_eq_iff)
  also have "\<dots> \<longleftrightarrow> 128 \<le> uint b \<and> uint b \<le> 191" by presburger
  finally show ?thesis by (simp add: word_le_def)
qed

lemmas byte_order = word_less_nat_alt word_le_nat_alt word_unat_eq_iff

text \<open>The result of \<open>utf8proc_valid\<close> by the class of the first byte.\<close>

lemma peek_Cons: "peek (a # s) i = (if i = 0 then Inr a else peek s (i - 1))"
  by (auto simp: peek_def nth_Cons' nat_diff_distrib)

lemma valid_short:
  assumes "utf8proc_utf8class ! unat a > n" "0 < n"
  shows "utf8proc_valid (a # s) n = Inr (- n)"
  using assms by (simp add: utf8proc_valid_def utf8class Let_def split: if_splits)

lemma valid_stray:
  "128 \<le> unat a \<and> unat a < 192 \<or> 248 \<le> unat a \<Longrightarrow> utf8proc_valid (a # s) n = Inr (-1)"
  by (elim disjE) (simp_all add: utf8proc_valid_def utf8class)

lemma valid_1:
  "unat a < 128 \<Longrightarrow> 1 \<le> n \<Longrightarrow> utf8proc_valid (a # s) n = Inr 1"
  by (simp add: utf8proc_valid_def utf8class)

lemma valid_2:
  "192 \<le> unat a \<Longrightarrow> unat a < 224 \<Longrightarrow> 2 \<le> n \<Longrightarrow>
     utf8proc_valid (a # b # s) n =
       Inr (if \<not> is_cont b then -1 else if a < 0xC2 then -2 else 2)"
  by (simp add: utf8proc_valid_def utf8class peek_Cons)

lemma valid_3:
  "224 \<le> unat a \<Longrightarrow> unat a < 240 \<Longrightarrow> 3 \<le> n \<Longrightarrow>
     utf8proc_valid (a # b # c # s) n =
       Inr (if \<not> is_cont b then -1 else if \<not> is_cont c then -2
            else if a = 0xE0 \<and> b < 0xA0 \<or> a = 0xED \<and> b \<ge> 0xA0 then -3 else 3)"
  by (simp add: utf8proc_valid_def utf8class peek_Cons)

lemma valid_4:
  "240 \<le> unat a \<Longrightarrow> unat a < 248 \<Longrightarrow> 4 \<le> n \<Longrightarrow>
     utf8proc_valid (a # b # c # d # s) n =
       Inr (if \<not> is_cont b then -1 else if \<not> is_cont c then -2 else if \<not> is_cont d then -3
            else if a = 0xF0 \<and> b < 0x90 \<or> a > 0xF4 \<or> a = 0xF4 \<and> b \<ge> 0x90 then -4 else 4)"
  by (auto simp: utf8proc_valid_def utf8class peek_Cons byte_order)

text \<open>The first byte of a well-formed encoding fixes its length.\<close>

lemma char_ok_length:
  assumes "char_ok (take m (a # t))"
  shows "int m = utf8proc_utf8class ! unat a \<or> length (a # t) < m"
proof -
  have "char_ok (b # u) \<Longrightarrow> int (length (b # u)) = utf8proc_utf8class ! unat b" for b u
    by (cases "b # u" rule: char_ok.cases) (auto simp: utf8class byte_order)
  note key = this
  from assms obtain m' where m: "m = Suc m'" by (cases m) auto
  with assms key [of a "take m' t"] show ?thesis by (auto simp: min_def split: if_splits)
qed

lemma char_ok_classes:
  "char_ok [a] \<longleftrightarrow> unat a < 128"
  "192 \<le> unat a \<Longrightarrow> unat a < 224 \<Longrightarrow>
     char_ok [a, b] \<longleftrightarrow> is_cont b \<and> \<not> a < 0xC2"
  "224 \<le> unat a \<Longrightarrow> unat a < 240 \<Longrightarrow>
     char_ok [a, b, c] \<longleftrightarrow> is_cont b \<and> is_cont c \<and> \<not> (a = 0xE0 \<and> b < 0xA0 \<or> a = 0xED \<and> b \<ge> 0xA0)"
  "240 \<le> unat a \<Longrightarrow> unat a < 248 \<Longrightarrow>
     char_ok [a, b, c, d] \<longleftrightarrow> is_cont b \<and> is_cont c \<and> is_cont d \<and>
       \<not> (a = 0xF0 \<and> b < 0x90 \<or> a > 0xF4 \<or> a = 0xF4 \<and> b \<ge> 0x90)"
  by (auto simp: byte_order is_cont_iff)

text \<open>
  So \<open>utf8proc_valid\<close> reads within its argument, and its result is positive exactly when the
  argument starts with a well-formed character, whose length it then is.
\<close>

lemma class_disj:
  assumes "(l :: int) = (if a < 128 then 1 else if a < 192 then 0 else if a < 224 then 2
    else if a < 240 then 3 else if a < 248 then 4 else 0)"
  shows "n < l \<or> (128 \<le> a \<and> a < 192 \<or> 248 \<le> a) \<or> a < 128 \<or> 192 \<le> a \<and> a < 224 \<and> 2 \<le> n \<or>
    224 \<le> a \<and> a < 240 \<and> 3 \<le> n \<or> 240 \<le> a \<and> a < (248 :: nat) \<and> 4 \<le> n"
  using assms by (simp only: not_less split: if_splits) linarith+

lemma utf8proc_valid_cases:
  assumes n: "0 < n" "n \<le> int (length s)"
  obtains (good) k where "utf8proc_valid s n = Inr (int k)" "0 < k" "int k \<le> n" "char_ok (take k s)"
  | (bad) k where "utf8proc_valid s n = Inr (- int k)" "0 < k" "int k \<le> n"
      "\<And>m. int m \<le> n \<Longrightarrow> \<not> char_ok (take m s)"
proof -
  obtain a t where s: "s = a # t" using n by (cases s) auto
  let ?L = "utf8proc_utf8class ! unat a"
  have len: "\<And>m. int m \<le> n \<Longrightarrow> char_ok (take m s) \<Longrightarrow> int m = ?L"
    using char_ok_length [of _ a t] n s by fastforce
  let ?goal = "\<exists>k. 0 < k \<and> int k \<le> n \<and>
      (utf8proc_valid s n = Inr (int k) \<and> char_ok (take k s) \<or>
       utf8proc_valid s n = Inr (- int k) \<and> (\<forall>m. int m \<le> n \<longrightarrow> \<not> char_ok (take m s)))"
  have decide: ?goal
    if v: "utf8proc_valid s n = Inr r" "?L = int l" "0 < l" "int l \<le> n"
      "char_ok (take l s) \<Longrightarrow> r = int l"
      "\<not> char_ok (take l s) \<Longrightarrow> r < 0 \<and> - r \<le> int l" for l r
  proof (cases "char_ok (take l s)")
    case True
    with v show ?thesis by auto
  next
    case False
    then have "\<forall>m. int m \<le> n \<longrightarrow> \<not> char_ok (take m s)" using len v(2) by fastforce
    moreover have "r < 0 \<and> - r \<le> int l" using v(6) False .
    ultimately show ?thesis using v(1,4) by (intro exI [of _ "nat (- r)"]) auto
  qed
  have L: "?L = (if unat a < 128 then 1 else if unat a < 192 then 0 else if unat a < 224 then 2
      else if unat a < 240 then 3 else if unat a < 248 then 4 else 0)"
    by (simp add: utf8class)
  consider "?L > n" | "128 \<le> unat a \<and> unat a < 192 \<or> 248 \<le> unat a"
    | "unat a < 128" | "192 \<le> unat a" "unat a < 224" "2 \<le> n"
    | "224 \<le> unat a" "unat a < 240" "3 \<le> n" | "240 \<le> unat a" "unat a < 248" "4 \<le> n"
    using class_disj [OF L, of n] by blast
  then have ?goal
  proof cases
    case 1
    then have "\<forall>m. int m \<le> n \<longrightarrow> \<not> char_ok (take m s)" using len by fastforce
    with 1 n s valid_short [of n a t] show ?thesis by (intro exI [of _ "nat n"]) auto
  next
    case 2
    then have "?L = 0" by (auto simp: utf8class)
    then have "\<forall>m. int m \<le> n \<longrightarrow> \<not> char_ok (take m s)" using len s by fastforce
    with 2 n s valid_stray [of a t n] show ?thesis by (intro exI [of _ 1]) auto
  next
    case 3
    with n s valid_1 [of a n t] show ?thesis
      by (intro decide [of 1 1]) (auto simp: L byte_order)
  next
    case 4
    then obtain b u where "s = a # b # u" using n s by (cases t) auto
    with 4 show ?thesis
      by (intro decide [OF valid_2 [of a n b u, folded \<open>s = a # b # u\<close>], of 2])
        (auto simp: L char_ok_classes(2) simp del: char_ok.simps)
  next
    case 5
    then obtain b c u where "s = a # b # c # u" using n s
      by (cases t; cases "tl t") auto
    with 5 show ?thesis
      by (intro decide [OF valid_3 [of a n b c u, folded \<open>s = a # b # c # u\<close>], of 3])
        (auto simp: L char_ok_classes(3) simp del: char_ok.simps)
  next
    case 6
    then obtain b c d u where "s = a # b # c # d # u" using n s
      by (cases t; cases "tl t"; cases "tl (tl t)") auto
    with 6 show ?thesis
      by (intro decide [OF valid_4 [of a n b c d u, folded \<open>s = a # b # c # d # u\<close>], of 4])
        (auto simp: L char_ok_classes(4) simp del: char_ok.simps)
  qed
  then show thesis using good bad by blast
qed

lemma valid_take:
  assumes "0 < n" "int n \<le> int (length s)"
  shows "utf8proc_valid (take n s) (int n) = utf8proc_valid s (int n)"
proof -
  have pk: "peek (take n s) i = peek s i" if "i < int n" for i
    using that assms by (auto simp: peek_def)
  show ?thesis
  proof (cases "peek s 0")
    case (Inr b0)
    with pk [of 0] assms(1) show ?thesis
      by (simp add: utf8proc_valid_def Let_def pk cong: if_cong)
  next
    case (Inl e)
    with pk [of 0] assms(1) show ?thesis by (simp add: utf8proc_valid_def)
  qed
qed

section \<open>Replacing invalid input\<close>

text \<open>What the check makes of a line: characters are kept, and NULs and bad bytes replaced.\<close>

function utf8_sanitize :: "byte list \<Rightarrow> byte list" where
  "utf8_sanitize s =
     (if s = [] then []
      else if hd s = NUL then repl @ utf8_sanitize (tl s)
      else
        case utf8proc_valid s (int (length s)) of
          Inl _ \<Rightarrow> []
        | Inr k \<Rightarrow>
            if k > 0 then take (nat k) s @ utf8_sanitize (drop (nat k) s)
            else repl @ utf8_sanitize (drop (nat (- k)) s))"
  by pat_completeness auto
termination
  by (relation "measure length") (auto dest: utf8proc_valid_nonzero)

declare utf8_sanitize.simps [simp del]

lemma sanitize_Nil [simp]: "utf8_sanitize [] = []"
  by (simp add: utf8_sanitize.simps)

lemma valid_repl: "char_ok repl"
  by (simp add: repl_def)

lemma valid_utf8_repl: "valid_utf8 s \<Longrightarrow> valid_utf8 (repl @ s)"
  by (rule valid_char [OF valid_repl])

lemma sanitize_NUL: "utf8_sanitize (NUL # s) = repl @ utf8_sanitize s"
  by (subst utf8_sanitize.simps) simp

lemma sanitize_step:
  assumes "utf8proc_valid s (int (length s)) = Inr (int k)" "0 < k" "s \<noteq> []" "hd s \<noteq> NUL"
  shows "utf8_sanitize s = take k s @ utf8_sanitize (drop k s)"
  using assms by (subst utf8_sanitize.simps) simp

lemma sanitize_good:
  assumes "char_ok c" "c \<noteq> [NUL]"
  shows "utf8_sanitize (c @ s) = c @ utf8_sanitize s"
proof -
  obtain a t where c: "c = a # t" using assms(1) by (cases c) auto
  have ne: "a \<noteq> NUL" using assms c by (cases c rule: char_ok.cases) auto
  have pos: "0 < int (length (c @ s))" using c by simp
  have "utf8proc_valid (c @ s) (int (length (c @ s))) = Inr (int (length c))"
  proof (rule utf8proc_valid_cases [OF pos order.refl], goal_cases)
    case good: (1 k)
    have "int k = utf8proc_utf8class ! unat a" "int (length c) = utf8proc_utf8class ! unat a"
      using char_ok_length [of k a "t @ s"] char_ok_length [of "length c" a "t @ s"] good assms c
      by auto
    with good show ?case by simp
  next
    case bad: (2 k)
    from bad(4) [of "length c"] assms show ?case by simp
  qed
  from sanitize_step [OF this] c ne show ?thesis by simp
qed

lemma char_ok_NUL: "char_ok c \<Longrightarrow> NUL \<in> set c \<Longrightarrow> c = [NUL]"
  by (cases c rule: char_ok.cases) (auto simp: byte_order)

lemma sanitize_bad:
  assumes "utf8proc_valid s (int (length s)) = Inr (- int k)" "0 < k" "s \<noteq> []" "hd s \<noteq> NUL"
  shows "utf8_sanitize s = repl @ utf8_sanitize (drop k s)"
  using assms by (subst utf8_sanitize.simps) simp

text \<open>The result is always valid and free of NULs; valid input without NULs is unchanged.\<close>

lemma sanitize_valid: "valid_utf8 (utf8_sanitize s) \<and> NUL \<notin> set (utf8_sanitize s)"
proof (induction s rule: length_induct)
  case (1 s)
  have ih: "valid_utf8 (utf8_sanitize t) \<and> NUL \<notin> set (utf8_sanitize t)" if "length t < length s" for t
    using 1 that by blast
  have nz: "NUL \<notin> set repl" by (simp add: repl_def)
  show ?case
  proof (cases "s = []")
    case False
    then obtain a t where s: "s = a # t" by (cases s) auto
    show ?thesis
    proof (cases "a = NUL")
      case True
      with s ih [of t] nz show ?thesis by (auto simp: sanitize_NUL valid_utf8_repl)
    next
      case ne: False
      show ?thesis
      proof (rule utf8proc_valid_cases [of "int (length s)" s], goal_cases)
        case good: (3 k)
        then have "take k s \<noteq> [NUL]" using ne s by (cases k) auto
        with good have "utf8_sanitize s = take k s @ utf8_sanitize (drop k s)"
          using sanitize_good [of "take k s" "drop k s"] by simp
        moreover have "NUL \<notin> set (take k s)"
          using char_ok_NUL good(4) \<open>take k s \<noteq> [NUL]\<close> by blast
        ultimately show ?case using ih [of "drop k s"] good by (auto intro: valid_char)
      next
        case bad: (4 k)
        then have "utf8_sanitize s = repl @ utf8_sanitize (drop k s)"
          using sanitize_bad s ne by simp
        with ih [of "drop k s"] bad nz show ?case by (auto intro: valid_utf8_repl)
      qed (use False in auto)
    qed
  qed (simp add: valid_Nil)
qed

lemma sanitize_id: "valid_utf8 s \<Longrightarrow> NUL \<notin> set s \<Longrightarrow> utf8_sanitize s = s"
proof (induction rule: valid_utf8.induct)
  case (valid_char c s)
  then have "c \<noteq> [NUL]" by auto
  with valid_char show ?case by (simp add: sanitize_good)
qed simp

lemma sanitize_idem: "utf8_sanitize (utf8_sanitize s) = utf8_sanitize s"
  using sanitize_valid by (blast intro: sanitize_id)

text \<open>The scan of \<open>cmark_utf8proc_check\<close> stops where the text has to be replaced.\<close>

lemma check_scan_sanitize:
  assumes "0 \<le> i" "i \<le> sz" "sz \<le> int (length line)"
  shows "\<exists>j charlen. check_scan line sz i = Inr (j, charlen) \<and> i \<le> j \<and> j \<le> sz \<and>
    (j < sz \<longrightarrow> 0 < charlen \<and> j + charlen \<le> sz) \<and>
    utf8_sanitize (take (nat (sz - i)) (drop (nat i) line)) =
      take (nat (j - i)) (drop (nat i) line) @
      (if j < sz then repl @ utf8_sanitize (take (nat (sz - (j + charlen))) (drop (nat (j + charlen)) line))
       else [])"
  using assms
proof (induction line sz i rule: check_scan.induct)
  case (1 line sz i)
  show ?case
  proof (cases "i < sz")
    case False
    then show ?thesis using 1 by (subst check_scan.simps) auto
  next
    case True
    define s where "s = take (nat (sz - i)) (drop (nat i) line)"
    have lt: "nat i < length line" using True 1 by linarith
    define c where "c = line ! nat i"
    have pk: "peek line i = Inr c" using True 1 by (simp add: block c_def)
    have s_Cons: "s = c # take (nat (sz - i) - 1) (drop (Suc (nat i)) line)"
      using lt True by (simp add: s_def c_def Cons_nth_drop_Suc [symmetric] take_Cons')
    have len: "int (length s) = sz - i" using True 1 by (simp add: s_def)
    have drop_s: "drop k s = take (nat (sz - (i + int k))) (drop (nat (i + int k)) line)" for k
      using 1 by (simp add: s_def drop_take nat_diff_distrib' nat_add_distrib add.commute)
    have take_s: "take k s = take k (drop (nat i) line)" if "int k \<le> sz - i" for k
    proof -
      have "k \<le> nat (sz - i)" using that by linarith
      then show ?thesis by (simp add: s_def min_absorb1)
    qed
    have join: "take (nat (int k)) (drop (nat i) line) @
        take (nat (j - (i + int k))) (drop (nat (i + int k)) line) =
        take (nat (j - i)) (drop (nat i) line)" if "i + int k \<le> j" for k j
    proof -
      have "nat (j - i) = k + nat (j - (i + int k))" using that by linarith
      then show ?thesis
        using 1 by (simp add: take_add nat_add_distrib add.commute)
    qed
    have finish: ?thesis
      if "check_scan line sz i = Inr (j, cl)" "i \<le> j" "j \<le> sz"
        "j < sz \<longrightarrow> 0 < cl \<and> j + cl \<le> sz"
        "utf8_sanitize s = take (nat (j - i)) (drop (nat i) line) @
            (if j < sz then repl @ utf8_sanitize (take (nat (sz - (j + cl))) (drop (nat (j + cl)) line))
             else [])" for j cl
      using that unfolding s_def by blast
    consider "c < 0x80 \<and> c \<noteq> 0" | "\<not> (c < 0x80 \<and> c \<noteq> 0)" "c \<ge> 0x80"
      | "\<not> (c < 0x80 \<and> c \<noteq> 0)" "\<not> c \<ge> 0x80" by blast
    then show ?thesis
    proof cases
      case a: 1
      from "1.IH"(1) [OF True pk a] "1.prems" True obtain j cl where
        j: "check_scan line sz (i + 1) = Inr (j, cl)" "i + 1 \<le> j" "j \<le> sz"
          "j < sz \<longrightarrow> 0 < cl \<and> j + cl \<le> sz"
          "utf8_sanitize (take (nat (sz - (i + 1))) (drop (nat (i + 1)) line)) =
            take (nat (j - (i + 1))) (drop (nat (i + 1)) line) @
            (if j < sz then repl @ utf8_sanitize (take (nat (sz - (j + cl))) (drop (nat (j + cl)) line))
             else [])"
        by auto
      have "s = [c] @ drop 1 s" using s_Cons by simp
      then have "utf8_sanitize s = [c] @ utf8_sanitize (drop 1 s)"
        using sanitize_good [of "[c]" "drop 1 s"] a by simp
      moreover have "[c] = take (nat (int 1)) (drop (nat i) line)"
        using lt by (simp add: c_def Cons_nth_drop_Suc [symmetric])
      ultimately have "utf8_sanitize s = take (nat (j - i)) (drop (nat i) line) @
            (if j < sz then repl @ utf8_sanitize (take (nat (sz - (j + cl))) (drop (nat (j + cl)) line))
             else [])"
        using j(5) join [of 1 j] j(2) drop_s [of 1] by simp
      moreover have "check_scan line sz i = check_scan line sz (i + 1)"
        using True pk a by (subst check_scan.simps) simp
      ultimately show ?thesis using j(1-4) by (intro finish [of j cl]) auto
    next
      case a: 2
      have ne: "s \<noteq> []" "hd s \<noteq> NUL" using s_Cons a by auto
      have v: "utf8proc_valid (drop (nat i) line) (sz - i) = utf8proc_valid s (int (length s))"
        using valid_take [of "nat (sz - i)" "drop (nat i) line"] True "1.prems" len
        by (simp add: s_def)
      show ?thesis
      proof (rule utf8proc_valid_cases [of "int (length s)" s], goal_cases)
        case good: (3 k)
        have run: "utf8proc_valid (drop (nat i) line) (sz - i) = Inr (int k)"
          using good v by simp
        have nk: "\<not> int k < 0" by simp
        from "1.IH"(2) [OF True pk a run nk] "1.prems" True good len obtain j cl where
          j: "check_scan line sz (i + int k) = Inr (j, cl)" "i + int k \<le> j" "j \<le> sz"
          "j < sz \<longrightarrow> 0 < cl \<and> j + cl \<le> sz"
          "utf8_sanitize (take (nat (sz - (i + int k))) (drop (nat (i + int k)) line)) =
            take (nat (j - (i + int k))) (drop (nat (i + int k)) line) @
            (if j < sz then repl @ utf8_sanitize (take (nat (sz - (j + cl))) (drop (nat (j + cl)) line))
             else [])"
          by auto
        have "utf8_sanitize s = take (nat (int k)) (drop (nat i) line) @ utf8_sanitize (drop k s)"
          using sanitize_step [OF good(1,2) ne] take_s good len by simp
        then have "utf8_sanitize s = take (nat (j - i)) (drop (nat i) line) @
            (if j < sz then repl @ utf8_sanitize (take (nat (sz - (j + cl))) (drop (nat (j + cl)) line))
             else [])"
          unfolding drop_s j(5) using join [OF j(2)] by simp
        moreover have "check_scan line sz i = check_scan line sz (i + int k)"
          using True pk a run by (subst check_scan.simps) auto
        ultimately show ?case using j(1-4) by (intro finish [of j cl]) auto
      next
        case bad: (4 k)
        have run: "utf8proc_valid (drop (nat i) line) (sz - i) = Inr (- int k)"
          using bad v by simp
        have "utf8_sanitize s = repl @ utf8_sanitize (drop k s)"
          using sanitize_bad [OF bad(1,2) ne] .
        moreover have "check_scan line sz i = Inr (i, int k)"
          using True pk a run bad by (subst check_scan.simps) auto
        ultimately show ?case
          using drop_s [of k] True bad len by (intro finish [of i "int k"]) auto
      qed (use ne in auto)
    next
      case a: 3
      then have "c = NUL" by auto
      then have "utf8_sanitize s = repl @ utf8_sanitize (drop 1 s)"
        using s_Cons by (simp add: sanitize_NUL)
      moreover have "check_scan line sz i = Inr (i, 1)"
        using True pk a by (subst check_scan.simps) simp
      ultimately show ?thesis
        using drop_s [of 1] True by (intro finish [of i 1]) auto
    qed
  qed
qed

lemma encode_unknown_eq: "encode_unknown b = put_bytes b repl"
  by (simp add: encode_unknown_def repl_def)

lemma put_drop_take:
  assumes "0 \<le> n" "n \<le> int (length d)"
  shows "cmark_strbuf_put b d n = put_bytes b (take (nat n) d)"
  using assms by (simp add: cmark_strbuf_put_def read_range_def)

lemma check_loop_appends:
  assumes "0 \<le> i" "i \<le> sz" "sz \<le> int (length line)"
  shows "appends (\<lambda>ob. check_loop ob line sz i)
    (utf8_sanitize (take (nat (sz - i)) (drop (nat i) line)))"
  using assms
proof (induction "nat (sz - i)" arbitrary: i rule: less_induct)
  case less
  show ?case
  proof (cases "i < sz")
    case False
    then show ?thesis
      using less.prems app_skip by (subst check_loop.simps) simp
  next
    case True
    from check_scan_sanitize [OF less.prems] obtain j cl where
      j: "check_scan line sz i = Inr (j, cl)" "i \<le> j" "j \<le> sz"
        "j < sz \<longrightarrow> 0 < cl \<and> j + cl \<le> sz"
      and eq: "utf8_sanitize (take (nat (sz - i)) (drop (nat i) line)) =
        take (nat (j - i)) (drop (nat i) line) @
        (if j < sz then repl @ utf8_sanitize (take (nat (sz - (j + cl))) (drop (nat (j + cl)) line))
         else [])"
      by blast
    let ?good = "take (nat (j - i)) (drop (nat i) line)"
    let ?put = "\<lambda>ob. if j > i then cmark_strbuf_put ob (drop (nat i) line) (j - i) else Inr ob"
    have put: "appends ?put ?good"
    proof (cases "j > i")
      case True
      have "0 \<le> j - i" "j - i \<le> int (length (drop (nat i) line))"
        using j less.prems by simp_all
      from put_drop_take [OF this] app_put [of ?good] True show ?thesis by simp
    next
      case False
      with j(2) show ?thesis using app_skip by simp
    qed
    show ?thesis
    proof (cases "j < sz")
      case False
      with j True show ?thesis
        unfolding eq
        by (subst check_loop.simps)
          (use app_seq [OF put app_skip] in simp)
    next
      case jl: True
      have "appends (\<lambda>ob. check_loop ob line sz (j + cl))
          (utf8_sanitize (take (nat (sz - (j + cl))) (drop (nat (j + cl)) line)))"
        using jl j less.prems True by (intro less.hyps) auto
      from app_seq [OF put app_seq [OF app_put [of repl] this]] jl j True
      show ?thesis
        unfolding eq by (subst check_loop.simps) (simp add: encode_unknown_eq)
    qed
  qed
qed

section \<open>Decoding and encoding\<close>

lemma and_masks:
  "(x :: int) AND 0x3F = x mod 64" "(x :: int) AND 0x1F = x mod 32"
  "(x :: int) AND 0x0F = x mod 16" "(x :: int) AND 0x07 = x mod 8"
  using take_bit_eq_mask [of 6 x] take_bit_eq_mask [of 5 x] take_bit_eq_mask [of 4 x]
    take_bit_eq_mask [of 3 x]
  by (simp_all add: take_bit_eq_mod mask_eq_exp_minus_1)

lemma uint_masks:
  "uint ((b :: byte) AND 0x3F) = uint b mod 64" "uint (b AND 0x1F) = uint b mod 32"
  "uint (b AND 0x0F) = uint b mod 16" "uint (b AND 0x07) = uint b mod 8"
  by (simp_all add: uint_and and_masks)

lemma uint_low_byte: "0 \<le> i \<Longrightarrow> i < 256 \<Longrightarrow> uint (low_byte i) = i"
  by (simp add: low_byte_def unsigned_of_int take_bit_int_eq_self)

lemmas byte_int = word_less_def word_le_def word_uint_eq_iff

lemma byte_uint: "0 \<le> uint (b :: byte)" "uint (b :: byte) < 256"
  using unsigned_less [of b, where ?'a = int] by simp_all

text \<open>The code point that a well-formed encoding stands for.\<close>

fun decode_bytes :: "byte list \<Rightarrow> int" where
  "decode_bytes [a] = uint a"
| "decode_bytes [a, b] = 64 * (uint a - 0xC0) + (uint b - 0x80)"
| "decode_bytes [a, b, c] = 4096 * (uint a - 0xE0) + 64 * (uint b - 0x80) + (uint c - 0x80)"
| "decode_bytes [a, b, c, d] =
     262144 * (uint a - 0xF0) + 4096 * (uint b - 0x80) + 64 * (uint c - 0x80) + (uint d - 0x80)"
| "decode_bytes _ = -1"

definition scalar :: "int \<Rightarrow> bool" where
  "scalar uc \<longleftrightarrow> 0 \<le> uc \<and> uc < 0x110000 \<and> \<not> (0xD800 \<le> uc \<and> uc < 0xE000)"

lemma mod_above:
  assumes "m \<le> (x :: int)" "x < m + k" "k dvd m"
  shows "x mod k = x - m"
proof -
  obtain q where q: "m = k * q" using assms(3) by (rule dvdE)
  have "x mod k = (x - m + k * q) mod k" using q by simp
  also have "\<dots> = (x - m) mod k" by (simp only: mod_mult_self2)
  also have "\<dots> = x - m" using assms by simp
  finally show ?thesis .
qed

lemma lead_2: "0xC0 \<le> uint (a :: byte) \<Longrightarrow> uint a < 0xE0 \<Longrightarrow> uint (a AND 0x1F) = uint a - 0xC0"
  unfolding uint_masks by (rule mod_above) simp_all

lemma lead_3: "0xE0 \<le> uint (a :: byte) \<Longrightarrow> uint a < 0xF0 \<Longrightarrow> uint (a AND 0x0F) = uint a - 0xE0"
  unfolding uint_masks by (rule mod_above) simp_all

lemma lead_4: "0xF0 \<le> uint (a :: byte) \<Longrightarrow> uint a < 0xF8 \<Longrightarrow> uint (a AND 0x07) = uint a - 0xF0"
  unfolding uint_masks by (rule mod_above) simp_all

lemma cont_bits: "is_cont b \<Longrightarrow> uint (b AND 0x3F) = uint b - 0x80"
  unfolding uint_masks by (rule mod_above) (simp_all add: is_cont_iff byte_int)

lemma is_cont_uint: "is_cont b \<longleftrightarrow> 0x80 \<le> uint b \<and> uint b < 0xC0"
  by (auto simp: is_cont_iff byte_int)

lemma class_uint:
  "utf8proc_utf8class ! unat (b :: byte) =
     (if uint b < 0x80 then 1 else if uint b < 0xC0 then 0 else if uint b < 0xE0 then 2
      else if uint b < 0xF0 then 3 else if uint b < 0xF8 then 4 else 0)"
proof -
  have less: "unat b < k \<longleftrightarrow> uint b < int k" for k
    by (metis of_nat_less_iff of_nat_unat unsigned_of_nat uint_nat)
  show ?thesis by (simp add: utf8class less)
qed

lemma charlen_conts:
  assumes "utf8proc_utf8class ! unat a = int (Suc (length cs))"
    "list_all is_cont cs" "int (Suc (length cs)) \<le> n"
  shows "utf8proc_charlen (a # cs @ rest) n = Inr (int (Suc (length cs)))"
proof -
  have loop: "charlen_loop (a # cs @ rest) (int (Suc (length cs))) (1 + int k) = Inr (int (Suc (length cs)))"
    if "k \<le> length cs" for k
    using that
  proof (induction "length cs - k" arbitrary: k)
    case 0
    then show ?case by (simp add: charlen_loop.simps)
  next
    case (Suc m)
    then have k: "k < length cs" by simp
    then have "peek (a # cs @ rest) (1 + int k) = Inr (cs ! k)"
      by (simp add: peek_Cons peek_def nth_append nat_add_distrib)
    moreover have "is_cont (cs ! k)" using assms(2) k by (simp add: list_all_length)
    ultimately show ?case
      using Suc.hyps(1) [of "Suc k"] Suc.hyps(2) k
      by (subst charlen_loop.simps) (simp add: add.commute add.left_commute)
  qed
  from loop [of 0] assms show ?thesis by (simp add: utf8proc_charlen_def)
qed

lemma uint_numbers:
  "uint (0x80 :: byte) = 0x80" "uint (0x8F :: byte) = 0x8F" "uint (0x90 :: byte) = 0x90"
  "uint (0x9F :: byte) = 0x9F" "uint (0xA0 :: byte) = 0xA0" "uint (0xBF :: byte) = 0xBF"
  "uint (0xC2 :: byte) = 0xC2" "uint (0xDF :: byte) = 0xDF" "uint (0xE0 :: byte) = 0xE0"
  "uint (0xE1 :: byte) = 0xE1" "uint (0xEC :: byte) = 0xEC" "uint (0xED :: byte) = 0xED"
  "uint (0xEE :: byte) = 0xEE" "uint (0xEF :: byte) = 0xEF" "uint (0xF0 :: byte) = 0xF0"
  "uint (0xF1 :: byte) = 0xF1" "uint (0xF3 :: byte) = 0xF3" "uint (0xF4 :: byte) = 0xF4"
  by simp_all

lemma char_ok_uint:
  "char_ok [a] \<longleftrightarrow> uint a < 0x80"
  "char_ok [a, b] \<longleftrightarrow> 0xC2 \<le> uint a \<and> uint a < 0xE0 \<and> is_cont b"
  "char_ok [a, b, c] \<longleftrightarrow> 0xE0 \<le> uint a \<and> uint a < 0xF0 \<and> is_cont b \<and> is_cont c \<and>
     (uint a = 0xE0 \<longrightarrow> 0xA0 \<le> uint b) \<and> (uint a = 0xED \<longrightarrow> uint b < 0xA0)"
  "char_ok [a, b, c, d] \<longleftrightarrow> 0xF0 \<le> uint a \<and> uint a < 0xF5 \<and> is_cont b \<and> is_cont c \<and> is_cont d \<and>
     (uint a = 0xF0 \<longrightarrow> 0x90 \<le> uint b) \<and> (uint a = 0xF4 \<longrightarrow> uint b < 0x90)"
  by (simp_all only: char_ok.simps is_cont_uint byte_int uint_numbers) presburger+


lemma iterate_ok:
  assumes "char_ok bs" "int (length bs) \<le> n"
  shows "cmark_utf8proc_iterate (bs @ rest) n = Inr (int (length bs), decode_bytes bs)"
    and "scalar (decode_bytes bs)"
proof -
  have "cmark_utf8proc_iterate (bs @ rest) n = Inr (int (length bs), decode_bytes bs) \<and>
    scalar (decode_bytes bs)"
  proof (cases bs rule: char_ok.cases)
    case (1 a)
    with assms have a: "uint a < 0x80" by (simp only: char_ok_uint)
    with 1 assms charlen_conts [of a "[]" n rest] byte_uint [of a] show ?thesis
      by (simp add: cmark_utf8proc_iterate_def class_uint scalar_def)
  next
    case (2 a b)
    with assms have *: "0xC2 \<le> uint a" "uint a < 0xE0" "is_cont b"
      by (auto simp only: char_ok_uint)
    then have len: "utf8proc_charlen (a # [b] @ rest) n = Inr 2"
      using 2 assms(2) charlen_conts [of a "[b]" n rest] by (simp add: class_uint)
    have "uint (a AND 0x1F) = uint a - 0xC0" "uint (b AND 0x3F) = uint b - 0x80"
      using * by (auto intro!: lead_2 cont_bits)
    with 2 * len show ?thesis
      by (simp add: cmark_utf8proc_iterate_def peek_Cons push_bit_eq_mult is_cont_uint scalar_def)
  next
    case (3 a b c)
    with assms have *: "0xE0 \<le> uint a" "uint a < 0xF0" "is_cont b" "is_cont c"
      "uint a = 0xE0 \<longrightarrow> 0xA0 \<le> uint b" "uint a = 0xED \<longrightarrow> uint b < 0xA0"
      by (auto simp only: char_ok_uint)
    then have len: "utf8proc_charlen (a # [b, c] @ rest) n = Inr 3"
      using 3 assms(2) charlen_conts [of a "[b, c]" n rest] by (simp add: class_uint)
    have bits: "uint (a AND 0x0F) = uint a - 0xE0" "uint (b AND 0x3F) = uint b - 0x80"
      "uint (c AND 0x3F) = uint c - 0x80"
      using * by (auto intro!: lead_3 cont_bits)
    let ?u = "decode_bytes [a, b, c]"
    have "0x800 \<le> ?u \<and> \<not> (0xD800 \<le> ?u \<and> ?u < 0xE000) \<and> ?u < 0x10000"
    proof (cases "uint a = 0xE0 \<or> uint a = 0xED")
      case True
      then show ?thesis using * unfolding is_cont_uint decode_bytes.simps by (elim disjE) simp_all
    next
      case False
      then have "0xE1 \<le> uint a" "uint a \<le> 0xEC \<or> 0xEE \<le> uint a" using * by linarith+
      then show ?thesis using * unfolding is_cont_uint decode_bytes.simps
        by auto
    qed
    then have "0x800 \<le> ?u" "\<not> (0xD800 \<le> ?u \<and> ?u < 0xE000)" "?u < 0x10000" by blast+
    with 3 len bits show ?thesis
      by (simp add: cmark_utf8proc_iterate_def peek_Cons push_bit_eq_mult scalar_def Let_def
          mult.commute)
  next
    case (4 a b c d)
    with assms have *: "0xF0 \<le> uint a" "uint a < 0xF5" "is_cont b" "is_cont c" "is_cont d"
      "uint a = 0xF0 \<longrightarrow> 0x90 \<le> uint b" "uint a = 0xF4 \<longrightarrow> uint b < 0x90"
      by (auto simp only: char_ok_uint)
    then have len: "utf8proc_charlen (a # [b, c, d] @ rest) n = Inr 4"
      using 4 assms(2) charlen_conts [of a "[b, c, d]" n rest] by (simp add: class_uint)
    have bits: "uint (a AND 0x07) = uint a - 0xF0" "uint (b AND 0x3F) = uint b - 0x80"
      "uint (c AND 0x3F) = uint c - 0x80" "uint (d AND 0x3F) = uint d - 0x80"
      using * by (auto intro!: lead_4 cont_bits)
    let ?u = "decode_bytes [a, b, c, d]"
    have "0x10000 \<le> ?u" "?u < 0x110000"
      using * unfolding is_cont_uint decode_bytes.simps
      by (cases "uint a = 0xF0"; cases "uint a = 0xF4"; simp)+
    with 4 len bits show ?thesis
      by (simp add: cmark_utf8proc_iterate_def peek_Cons push_bit_eq_mult scalar_def Let_def
          mult.commute)
  qed (use assms in auto)
  then show "cmark_utf8proc_iterate (bs @ rest) n = Inr (int (length bs), decode_bytes bs)"
    and "scalar (decode_bytes bs)" by blast+
qed

text \<open>Encoding, away from the two code points that the encoder treats specially.\<close>

lemma div_64: "(uc :: int) div 4096 = uc div 64 div 64" "uc div 262144 = uc div 4096 div 64"
  by (simp_all add: zdiv_zmult2_eq [symmetric])

lemma recombine_3:
  "q = 64 * p + m \<Longrightarrow> u = 64 * q + n \<Longrightarrow>
   4096 * (224 + p - 224) + 64 * (128 + m - 128) + (128 + n - 128) = (u :: int)"
  by simp

lemma recombine_4:
  "p = 64 * p' + l \<Longrightarrow> q = 64 * p + m \<Longrightarrow> u = 64 * q + n \<Longrightarrow>
   262144 * (240 + p' - 240) + 4096 * (128 + l - 128) + 64 * (128 + m - 128) + (128 + n - 128) = (u :: int)"
  by simp

lemma low_byte_cont:
  "uint (low_byte (0x80 + x mod 64)) = 0x80 + x mod 64"
  by (rule uint_low_byte) simp_all

lemma cont_mod: "is_cont (low_byte (0x80 + x mod 64))"
  by (simp add: is_cont_uint low_byte_cont)

lemma lead_3_ok:
  "p = 64 * q + m \<Longrightarrow> 0 \<le> m \<Longrightarrow> m < 64 \<Longrightarrow> 32 \<le> p \<Longrightarrow> p < 1024 \<Longrightarrow> \<not> (864 \<le> p \<and> p < 896) \<Longrightarrow>
   0 \<le> q \<and> q < 16 \<and> (q = 0 \<longrightarrow> 32 \<le> m) \<and> (q = 13 \<longrightarrow> m < (32 :: int))"
  by auto

lemma lead_4_ok:
  "p = 64 * q + m \<Longrightarrow> 0 \<le> m \<Longrightarrow> m < 64 \<Longrightarrow> 16 \<le> p \<Longrightarrow> p < 272 \<Longrightarrow>
   0 \<le> q \<and> q < 5 \<and> (q = 0 \<longrightarrow> 16 \<le> m) \<and> (q = 4 \<longrightarrow> m < (16 :: int))"
  by auto

lemma encode_3:
  assumes "\<not> uc < 0x80" "\<not> uc < 0x800" "uc < 0x10000" "uc \<noteq> 0xFFFE" "uc \<noteq> 0xFFFF"
  shows "encode_bytes uc = Some [low_byte (0xE0 + uc div 4096),
    low_byte (0x80 + uc div 64 mod 64), low_byte (0x80 + uc mod 64)]"
proof -
  have "encode_bytes uc = Some [low_byte (0xE0 + drop_bit 12 uc),
      low_byte (0x80 + (drop_bit 6 uc AND 0x3F)), low_byte (0x80 + (uc AND 0x3F))]"
    unfolding encode_bytes_def using assms by (simp only: if_True if_False)
  then show ?thesis unfolding and_masks(1) drop_bit_eq_div by simp
qed

lemma encode_4:
  assumes "\<not> uc < 0x80" "\<not> uc < 0x800" "\<not> uc < 0x10000" "uc \<noteq> 0xFFFE" "uc \<noteq> 0xFFFF" "uc < 0x110000"
  shows "encode_bytes uc = Some [low_byte (0xF0 + uc div 262144),
    low_byte (0x80 + uc div 4096 mod 64), low_byte (0x80 + uc div 64 mod 64), low_byte (0x80 + uc mod 64)]"
proof -
  have "encode_bytes uc = Some [low_byte (0xF0 + drop_bit 18 uc),
      low_byte (0x80 + (drop_bit 12 uc AND 0x3F)),
      low_byte (0x80 + (drop_bit 6 uc AND 0x3F)), low_byte (0x80 + (uc AND 0x3F))]"
    unfolding encode_bytes_def using assms by (simp only: if_True if_False)
  then show ?thesis unfolding and_masks(1) drop_bit_eq_div by simp
qed

lemma encode_ok:
  assumes "scalar uc" "uc \<noteq> 0xFFFE" "uc \<noteq> 0xFFFF"
  shows "\<exists>bs. encode_bytes uc = Some bs \<and> char_ok bs \<and> decode_bytes bs = uc"
proof -
  note parts = drop_bit_eq_div and_masks(1)
  have b: "0 \<le> uc" "uc < 0x110000" "\<not> (0xD800 \<le> uc \<and> uc < 0xE000)"
    using assms(1) by (auto simp: scalar_def)
  consider "uc < 0x80" | "0x80 \<le> uc" "uc < 0x800" | "0x800 \<le> uc" "uc < 0x10000" | "0x10000 \<le> uc"
    by linarith
  then show ?thesis
  proof cases
    case 1
    with b show ?thesis by (simp add: encode_bytes_def char_ok_uint(1) uint_low_byte del: char_ok.simps)
  next
    case 2
    then have "2 \<le> uc div 64" "uc div 64 < 32" by auto
    with 2 show ?thesis
      by (simp add: encode_bytes_def parts char_ok_uint(2) uint_low_byte is_cont_uint del: char_ok.simps)
  next
    case 3
    with b have d: "32 \<le> uc div 64" "uc div 64 < 1024" "\<not> (864 \<le> uc div 64 \<and> uc div 64 < 896)"
      by auto
    have e: "uc div 64 = 64 * (uc div 4096) + uc div 64 mod 64" "uc = 64 * (uc div 64) + uc mod 64"
      unfolding div_64 by (rule mult_div_mod_eq [symmetric])+
    note lead = lead_3_ok [OF e(1) _ _ d, simplified]
    let ?bs = "[low_byte (0xE0 + uc div 4096), low_byte (0x80 + uc div 64 mod 64),
      low_byte (0x80 + uc mod 64)]"
    have u: "uint (low_byte (0xE0 + uc div 4096)) = 0xE0 + uc div 4096"
      using lead by (intro uint_low_byte) linarith+
    have "char_ok ?bs"
      unfolding char_ok_uint u low_byte_cont using lead cont_mod by simp
    moreover have "decode_bytes ?bs = uc"
      unfolding decode_bytes.simps u low_byte_cont by (rule recombine_3 [OF e])
    moreover have "encode_bytes uc = Some ?bs" using 3 assms by (intro encode_3) simp_all
    ultimately show ?thesis by blast
  next
    case 4
    with b have d: "16 \<le> uc div 4096" "uc div 4096 < 272" by auto
    have e: "uc div 4096 = 64 * (uc div 262144) + uc div 4096 mod 64"
      "uc div 64 = 64 * (uc div 4096) + uc div 64 mod 64" "uc = 64 * (uc div 64) + uc mod 64"
      unfolding div_64 by (rule mult_div_mod_eq [symmetric])+
    note lead = lead_4_ok [OF e(1) _ _ d, simplified]
    let ?bs = "[low_byte (0xF0 + uc div 262144), low_byte (0x80 + uc div 4096 mod 64),
      low_byte (0x80 + uc div 64 mod 64), low_byte (0x80 + uc mod 64)]"
    have u: "uint (low_byte (0xF0 + uc div 262144)) = 0xF0 + uc div 262144"
      using lead by (intro uint_low_byte) linarith+
    have "char_ok ?bs"
      unfolding char_ok_uint u low_byte_cont using lead cont_mod by simp
    moreover have "decode_bytes ?bs = uc"
      unfolding decode_bytes.simps u low_byte_cont by (rule recombine_4 [OF e])
    moreover have "encode_bytes uc = Some ?bs" using 4 b by (intro encode_4) simp_all
    ultimately show ?thesis by blast
  qed
qed

section \<open>Properties\<close>

text \<open>
  C19: \<open>cmark_utf8proc_check\<close> appends exactly the sanitised input: it reads only inside its input, it
  replaces NUL bytes and malformed sequences by U+FFFD, its output is always valid UTF-8 without
  NULs, and it leaves input that is valid and NUL-free as it is.
\<close>

theorem check_sanitizes:
  assumes "strbuf_inv ob" "0 \<le> sz" "sz \<le> int (length line)"
    "bsize ob + int (length (utf8_sanitize (take (nat sz) line))) \<le> grow_limit"
  shows "\<exists>ob'. cmark_utf8proc_check ob line sz = Inr ob' \<and> strbuf_inv ob' \<and>
    contents ob' = contents ob @ utf8_sanitize (take (nat sz) line) \<and>
    valid_utf8 (utf8_sanitize (take (nat sz) line)) \<and>
    NUL \<notin> set (utf8_sanitize (take (nat sz) line)) \<and>
    (valid_utf8 (take (nat sz) line) \<and> NUL \<notin> set (take (nat sz) line) \<longrightarrow>
       contents ob' = contents ob @ take (nat sz) line)"
proof -
  have "int (length (contents ob)) = bsize ob" using assms(1) by (rule length_contents)
  with app_run [OF check_loop_appends [of 0 sz line, simplified] assms(1)] assms
  show ?thesis
    by (auto simp: cmark_utf8proc_check_def sanitize_valid sanitize_id)
qed

theorem check_sanitizes_witness:
  "\<exists>ob'. cmark_utf8proc_check (strbuf_empty \<lparr>mem_id = 0, fresh = \<lambda>_. 0\<rparr>) [0x61, 0xC3, 0x28, 0x00] 4 = Inr ob' \<and>
     contents ob' = [0x61, 0xEF, 0xBF, 0xBD, 0x28, 0xEF, 0xBF, 0xBD]"
proof -
  have "utf8_sanitize (take (nat 4) [0x61, 0xC3, 0x28, 0x00]) =
      [0x61, 0xEF, 0xBF, 0xBD, 0x28, 0xEF, 0xBF, 0xBD]" by code_simp
  moreover have "strbuf_inv (strbuf_empty \<lparr>mem_id = 0, fresh = \<lambda>_. 0\<rparr>)"
    "bsize (strbuf_empty \<lparr>mem_id = 0, fresh = \<lambda>_. 0\<rparr>) + 8 \<le> grow_limit" by code_simp+
  ultimately show ?thesis
    using check_sanitizes [of "strbuf_empty \<lparr>mem_id = 0, fresh = \<lambda>_. 0\<rparr>" 4 "[0x61, 0xC3, 0x28, 0x00]"]
    by auto
qed

text \<open>
  C20: Every Unicode scalar value other than U+FFFE and U+FFFF is encoded as a well-formed UTF-8
  character, from which \<open>cmark_utf8proc_iterate\<close> reads the same code point back, whatever follows.
\<close>

theorem encode_iterate_roundtrip:
  assumes "strbuf_inv b" "bsize b + 4 \<le> grow_limit"
    "scalar uc" "uc \<noteq> 0xFFFE" "uc \<noteq> 0xFFFF"
  shows "\<exists>b' bs. cmark_utf8proc_encode_char uc b = Inr b' \<and> strbuf_inv b' \<and>
    contents b' = contents b @ bs \<and> char_ok bs \<and>
    cmark_utf8proc_iterate (bs @ rest) (int (length (bs @ rest))) = Inr (int (length bs), uc)"
proof -
  obtain bs where bs: "encode_bytes uc = Some bs" "char_ok bs" "decode_bytes bs = uc"
    using encode_ok [OF assms(3-5)] by blast
  have "length bs \<le> 4" "bs \<noteq> []" using bs(2) by (cases bs rule: char_ok.cases; simp)+
  moreover have "int (length (contents b)) = bsize b" using assms(1) by (rule length_contents)
  ultimately obtain b' where "cmark_strbuf_put b bs (int (length bs)) = Inr b'" "strbuf_inv b'"
    "contents b' = contents b @ bs"
    using app_run [OF app_put [of bs] assms(1)] assms(2) by auto
  moreover have "0 \<le> uc" using assms(3) by (simp add: scalar_def)
  ultimately show ?thesis
    using bs iterate_ok(1) [OF bs(2), of "int (length (bs @ rest))" rest]
    by (auto simp: cmark_utf8proc_encode_char_def guard_def)
qed

theorem encode_iterate_roundtrip_witness:
  "\<exists>bs. char_ok bs \<and> cmark_utf8proc_iterate (bs @ str ''!'') (int (length (bs @ str ''!''))) =
     Inr (int (length bs), 0x20AC)"
proof -
  have "strbuf_inv (strbuf_empty \<lparr>mem_id = 0, fresh = \<lambda>_. 0\<rparr>)"
    "bsize (strbuf_empty \<lparr>mem_id = 0, fresh = \<lambda>_. 0\<rparr>) + 4 \<le> grow_limit" "scalar 0x20AC"
    by code_simp+
  then show ?thesis
    using encode_iterate_roundtrip [of "strbuf_empty \<lparr>mem_id = 0, fresh = \<lambda>_. 0\<rparr>" "0x20AC" "str ''!''"]
    by auto
qed

text \<open>
  For U+FFFF the encoder emits the single byte 0xFF, and for U+FFFE the byte 0xFE: bytes that
  start no UTF-8 character and that the decoder rejects.
\<close>

theorem encode_noncharacter:
  "\<exists>b'. cmark_utf8proc_encode_char 0xFFFF (strbuf_empty \<lparr>mem_id = 0, fresh = f\<rparr>) = Inr b' \<and> contents b' = [0xFF] \<and>
     \<not> valid_utf8 (contents b') \<and> cmark_utf8proc_iterate (contents b') 1 = Inr (-1, -1)"
proof -
  have "encode_bytes 0xFFFF = Some [0xFF]" by code_simp
  moreover have "int (length (contents (strbuf_empty \<lparr>mem_id = 0, fresh = f\<rparr>)) + length [0xFF :: byte]) \<le> grow_limit"
    by (simp add: grow_limit_def INT32_MAX_def)
  ultimately obtain b' where "cmark_utf8proc_encode_char 0xFFFF (strbuf_empty \<lparr>mem_id = 0, fresh = f\<rparr>) = Inr b'"
    "contents b' = [0xFF]"
    using app_run [OF app_put [of "[0xFF]"], of "strbuf_empty \<lparr>mem_id = 0, fresh = f\<rparr>"]
      ok_inv [OF strbuf_empty_ok(1)]
    by (auto simp: cmark_utf8proc_encode_char_def guard_def)
  moreover have "\<not> valid_utf8 [0xFF]"
  proof
    assume "valid_utf8 [0xFF]"
    then obtain c s where "char_ok c" "c @ s = [0xFF]" by cases auto
    then show False by (cases c rule: char_ok.cases) auto
  qed
  moreover have "cmark_utf8proc_iterate [0xFF] 1 = Inr (-1, -1)" by code_simp
  ultimately show ?thesis by auto
qed

end
