(* ===== verification/Node.thy ===== *)
theory Node
  imports Chunk
begin

text \<open>
  The nodes of the document tree: src/src/include/node.h and the part of src/src/node.c that works
  on single nodes (allocation, freeing of the payload, type checks, accessors).

  A node is a record with the fields of \<open>struct cmark_node\<close>; nodes live in a heap, a list of cells
  indexed by node pointers, in which a freed cell is \<open>None\<close>.  The null pointer is \<open>None\<close> of type
  \<open>nptr option\<close>.  The union \<open>as\<close> is a datatype with one constructor per member; \<open>As_zero\<close> is the
  all-zero payload that \<open>calloc\<close> leaves, which can be read through every member, and a read of
  another member than the one written last is the fault \<open>Type_pun\<close>.  Callbacks of syntax extensions
  are function fields of \<open>cmark_syntax_extension\<close>.

  The first group of lemmas are the laws of reading and updating cells, collected in \<open>heap\<close>; the
  properties at the end are about the accessors.
\<close>

section \<open>The data\<close>

type_synonym nptr = nat
type_synonym eptr = nat
type_synonym node_type = "16 word"

abbreviation (input) CMARK_NODE_TYPE_PRESENT :: node_type where "CMARK_NODE_TYPE_PRESENT \<equiv> 0x8000"
abbreviation (input) CMARK_NODE_TYPE_BLOCK :: node_type where "CMARK_NODE_TYPE_BLOCK \<equiv> 0x8000"
abbreviation (input) CMARK_NODE_TYPE_INLINE :: node_type where "CMARK_NODE_TYPE_INLINE \<equiv> 0xC000"
abbreviation (input) CMARK_NODE_TYPE_MASK :: node_type where "CMARK_NODE_TYPE_MASK \<equiv> 0xC000"
abbreviation (input) CMARK_NODE_VALUE_MASK :: node_type where "CMARK_NODE_VALUE_MASK \<equiv> 0x3FFF"

abbreviation (input) CMARK_NODE_NONE :: node_type where "CMARK_NODE_NONE \<equiv> 0"
abbreviation (input) CMARK_NODE_DOCUMENT :: node_type where "CMARK_NODE_DOCUMENT \<equiv> 0x8001"
abbreviation (input) CMARK_NODE_BLOCK_QUOTE :: node_type where "CMARK_NODE_BLOCK_QUOTE \<equiv> 0x8002"
abbreviation (input) CMARK_NODE_LIST :: node_type where "CMARK_NODE_LIST \<equiv> 0x8003"
abbreviation (input) CMARK_NODE_ITEM :: node_type where "CMARK_NODE_ITEM \<equiv> 0x8004"
abbreviation (input) CMARK_NODE_CODE_BLOCK :: node_type where "CMARK_NODE_CODE_BLOCK \<equiv> 0x8005"
abbreviation (input) CMARK_NODE_HTML_BLOCK :: node_type where "CMARK_NODE_HTML_BLOCK \<equiv> 0x8006"
abbreviation (input) CMARK_NODE_CUSTOM_BLOCK :: node_type where "CMARK_NODE_CUSTOM_BLOCK \<equiv> 0x8007"
abbreviation (input) CMARK_NODE_PARAGRAPH :: node_type where "CMARK_NODE_PARAGRAPH \<equiv> 0x8008"
abbreviation (input) CMARK_NODE_HEADING :: node_type where "CMARK_NODE_HEADING \<equiv> 0x8009"
abbreviation (input) CMARK_NODE_THEMATIC_BREAK :: node_type where "CMARK_NODE_THEMATIC_BREAK \<equiv> 0x800A"
abbreviation (input) CMARK_NODE_FOOTNOTE_DEFINITION :: node_type where
  "CMARK_NODE_FOOTNOTE_DEFINITION \<equiv> 0x800B"
abbreviation (input) CMARK_NODE_TEXT :: node_type where "CMARK_NODE_TEXT \<equiv> 0xC001"
abbreviation (input) CMARK_NODE_SOFTBREAK :: node_type where "CMARK_NODE_SOFTBREAK \<equiv> 0xC002"
abbreviation (input) CMARK_NODE_LINEBREAK :: node_type where "CMARK_NODE_LINEBREAK \<equiv> 0xC003"
abbreviation (input) CMARK_NODE_CODE :: node_type where "CMARK_NODE_CODE \<equiv> 0xC004"
abbreviation (input) CMARK_NODE_HTML_INLINE :: node_type where "CMARK_NODE_HTML_INLINE \<equiv> 0xC005"
abbreviation (input) CMARK_NODE_CUSTOM_INLINE :: node_type where "CMARK_NODE_CUSTOM_INLINE \<equiv> 0xC006"
abbreviation (input) CMARK_NODE_EMPH :: node_type where "CMARK_NODE_EMPH \<equiv> 0xC007"
abbreviation (input) CMARK_NODE_STRONG :: node_type where "CMARK_NODE_STRONG \<equiv> 0xC008"
abbreviation (input) CMARK_NODE_LINK :: node_type where "CMARK_NODE_LINK \<equiv> 0xC009"
abbreviation (input) CMARK_NODE_IMAGE :: node_type where "CMARK_NODE_IMAGE \<equiv> 0xC00A"
abbreviation (input) CMARK_NODE_FOOTNOTE_REFERENCE :: node_type where
  "CMARK_NODE_FOOTNOTE_REFERENCE \<equiv> 0xC00B"
abbreviation (input) CMARK_NODE_ATTRIBUTE :: node_type where "CMARK_NODE_ATTRIBUTE \<equiv> 0xC00C"

datatype cmark_list_type = CMARK_NO_LIST | CMARK_BULLET_LIST | CMARK_ORDERED_LIST

datatype cmark_delim_type = CMARK_NO_DELIM | CMARK_PERIOD_DELIM | CMARK_PAREN_DELIM

datatype cmark_list_marker_type =
  CMARK_NO_LIST_MARKER | CMARK_HYPHEN_LIST_MARKER | CMARK_PLUS_LIST_MARKER |
  CMARK_ASTERISK_LIST_MARKER

record cmark_list =
  list_type :: cmark_list_type
  marker_offset :: int
  padding :: int
  list_start :: int
  delimiter :: cmark_delim_type
  bullet_char :: byte
  tight :: bool
  checked :: bool

record cmark_code =
  info :: cmark_chunk
  code_literal :: cmark_chunk
  fence_length :: "8 word"
  fence_offset :: "8 word"
  fence_char :: byte
  fenced :: "8 word"

record cmark_heading =
  level :: int
  setext :: bool

record cmark_link =
  url :: cmark_chunk
  title :: cmark_chunk

record cmark_custom =
  on_enter :: cmark_chunk
  on_exit :: cmark_chunk

text \<open>What extensions keep behind \<open>as.opaque\<close>: a pointer to an object of their own.\<close>

type_synonym opaque_ptr = "nat option"

datatype node_as =
    As_zero
  | As_literal cmark_chunk
  | As_list cmark_list
  | As_code cmark_code
  | As_heading cmark_heading
  | As_link cmark_link
  | As_attribute cmark_chunk
  | As_custom cmark_custom
  | As_html_block_type int
  | As_opaque opaque_ptr

record cmark_node =
  n_content :: cmark_strbuf
  n_next :: "nptr option"
  n_prev :: "nptr option"
  n_parent :: "nptr option"
  n_first :: "nptr option"
  n_last :: "nptr option"
  user_data :: "nat option"
  user_data_free_func :: "nat option"
  start_line :: int
  start_column :: int
  end_line :: int
  end_column :: int
  internal_offset :: int
  n_type :: node_type
  flags :: "16 word"
  backtick_count :: int
  extension :: "eptr option"
  ancestor_extension :: "eptr option"
  footnote :: int    \<comment> \<open>the union of \<open>ref_ix\<close> and \<open>def_count\<close>, both \<open>int\<close>\<close>
  parent_footnote_def :: "nptr option"
  n_as :: node_as

type_synonym heap = "cmark_node option list"

text \<open>The callbacks of an extension that the functions of node.c call.\<close>

record cmark_syntax_extension =
  ext_name :: "byte list"
  emphasis :: bool
  can_contain_func :: "(heap \<Rightarrow> nptr \<Rightarrow> node_type \<Rightarrow> bool) option"
  get_type_string_func :: "(heap \<Rightarrow> nptr \<Rightarrow> byte list) option"
  opaque_alloc_func :: "(cmark_node \<Rightarrow> cmark_node) option"
  opaque_free_func :: "(cmark_node \<Rightarrow> unit res) option"

text \<open>The global \<open>enable_safety_checks\<close>, and the object behind each extension pointer.\<close>

record node_env =
  enable_safety_checks :: bool
  exts :: "eptr \<Rightarrow> cmark_syntax_extension"

section \<open>Cells\<close>

definition cell :: "heap \<Rightarrow> nptr \<Rightarrow> cmark_node option" where
  "cell h p = (if p < length h then h ! p else None)"

definition deref :: "heap \<Rightarrow> nptr \<Rightarrow> cmark_node res" where
  "deref h p = (case cell h p of None \<Rightarrow> Inl Bad_pointer | Some n \<Rightarrow> Inr n)"

definition deref_opt :: "heap \<Rightarrow> nptr option \<Rightarrow> cmark_node res" where
  "deref_opt h q = (case q of None \<Rightarrow> Inl Null_deref | Some p \<Rightarrow> deref h p)"

definition update :: "heap \<Rightarrow> nptr \<Rightarrow> (cmark_node \<Rightarrow> cmark_node) \<Rightarrow> heap res" where
  "update h p f = bindr (deref h p) (\<lambda>n. Inr (h[p := Some (f n)]))"

definition update_opt :: "heap \<Rightarrow> nptr option \<Rightarrow> (cmark_node \<Rightarrow> cmark_node) \<Rightarrow> heap res" where
  "update_opt h q f = (case q of None \<Rightarrow> Inr h | Some p \<Rightarrow> update h p f)"

definition release :: "heap \<Rightarrow> nptr \<Rightarrow> heap res" where
  "release h p = bindr (deref h p) (\<lambda>_. Inr (h[p := None]))"

section \<open>The union\<close>

definition chunk_zero :: cmark_chunk where
  "chunk_zero = CMARK_CHUNK_EMPTY"

definition list_zero :: cmark_list where
  "list_zero = \<lparr>list_type = CMARK_NO_LIST, marker_offset = 0, padding = 0, list_start = 0,
     delimiter = CMARK_NO_DELIM, bullet_char = 0, tight = False, checked = False\<rparr>"

definition code_zero :: cmark_code where
  "code_zero = \<lparr>info = chunk_zero, code_literal = chunk_zero, fence_length = 0, fence_offset = 0,
     fence_char = 0, fenced = 0\<rparr>"

definition as_list :: "node_as \<Rightarrow> cmark_list res" where
  "as_list a = (case a of As_list l \<Rightarrow> Inr l | As_zero \<Rightarrow> Inr list_zero | _ \<Rightarrow> Inl Type_pun)"

definition as_code :: "node_as \<Rightarrow> cmark_code res" where
  "as_code a = (case a of As_code c \<Rightarrow> Inr c | As_zero \<Rightarrow> Inr code_zero | _ \<Rightarrow> Inl Type_pun)"

definition as_heading :: "node_as \<Rightarrow> cmark_heading res" where
  "as_heading a = (case a of As_heading c \<Rightarrow> Inr c
     | As_zero \<Rightarrow> Inr \<lparr>level = 0, setext = False\<rparr> | _ \<Rightarrow> Inl Type_pun)"

definition as_html_block_type :: "node_as \<Rightarrow> int res" where
  "as_html_block_type a = (case a of As_html_block_type t \<Rightarrow> Inr t | As_zero \<Rightarrow> Inr 0 | _ \<Rightarrow> Inl Type_pun)"

definition as_opaque :: "node_as \<Rightarrow> opaque_ptr res" where
  "as_opaque a = (case a of As_opaque q \<Rightarrow> Inr q | As_zero \<Rightarrow> Inr None | _ \<Rightarrow> Inl Type_pun)"

text \<open>The chunks inside the union, by the path that leads to them.\<close>

datatype chunk_member =
    M_literal | M_code_info | M_code_literal | M_link_url | M_link_title | M_attributes
  | M_on_enter | M_on_exit

fun get_chunk :: "chunk_member \<Rightarrow> node_as \<Rightarrow> cmark_chunk res" where
  "get_chunk _ As_zero = Inr chunk_zero"
| "get_chunk M_literal (As_literal c) = Inr c"
| "get_chunk M_code_info (As_code r) = Inr (info r)"
| "get_chunk M_code_literal (As_code r) = Inr (code_literal r)"
| "get_chunk M_link_url (As_link r) = Inr (url r)"
| "get_chunk M_link_title (As_link r) = Inr (title r)"
| "get_chunk M_attributes (As_attribute c) = Inr c"
| "get_chunk M_on_enter (As_custom r) = Inr (on_enter r)"
| "get_chunk M_on_exit (As_custom r) = Inr (on_exit r)"
| "get_chunk _ _ = Inl Type_pun"

fun set_chunk :: "chunk_member \<Rightarrow> cmark_chunk \<Rightarrow> node_as \<Rightarrow> node_as" where
  "set_chunk M_literal c _ = As_literal c"
| "set_chunk M_attributes c _ = As_attribute c"
| "set_chunk M_code_info c (As_code r) = As_code (r\<lparr>info := c\<rparr>)"
| "set_chunk M_code_info c _ = As_code (code_zero\<lparr>info := c\<rparr>)"
| "set_chunk M_code_literal c (As_code r) = As_code (r\<lparr>code_literal := c\<rparr>)"
| "set_chunk M_code_literal c _ = As_code (code_zero\<lparr>code_literal := c\<rparr>)"
| "set_chunk M_link_url c (As_link r) = As_link (r\<lparr>url := c\<rparr>)"
| "set_chunk M_link_url c _ = As_link \<lparr>url = c, title = chunk_zero\<rparr>"
| "set_chunk M_link_title c (As_link r) = As_link (r\<lparr>title := c\<rparr>)"
| "set_chunk M_link_title c _ = As_link \<lparr>url = chunk_zero, title = c\<rparr>"
| "set_chunk M_on_enter c (As_custom r) = As_custom (r\<lparr>on_enter := c\<rparr>)"
| "set_chunk M_on_enter c _ = As_custom \<lparr>on_enter = c, on_exit = chunk_zero\<rparr>"
| "set_chunk M_on_exit c (As_custom r) = As_custom (r\<lparr>on_exit := c\<rparr>)"
| "set_chunk M_on_exit c _ = As_custom \<lparr>on_enter = chunk_zero, on_exit = c\<rparr>"

text \<open>Reading, modifying and writing back the chunk at a path.\<close>

definition on_chunk ::
  "heap \<Rightarrow> nptr \<Rightarrow> chunk_member \<Rightarrow> (cmark_chunk \<Rightarrow> ('a \<times> cmark_chunk) res) \<Rightarrow> ('a \<times> heap) res" where
  "on_chunk h p m f =
     bindr (deref h p) (\<lambda>n.
     bindr (get_chunk m (n_as n)) (\<lambda>c.
     bindr (f c) (\<lambda>(r, c').
     bindr (update h p (\<lambda>n. n\<lparr>n_as := set_chunk m c' (n_as n)\<rparr>)) (\<lambda>h. Inr (r, h)))))"

definition chunk_to_cstr_at :: "heap \<Rightarrow> nptr \<Rightarrow> chunk_member \<Rightarrow> (byte list option \<times> heap) res" where
  "chunk_to_cstr_at h p m = on_chunk h p m cmark_chunk_to_cstr"

definition chunk_set_cstr_at :: "heap \<Rightarrow> nptr \<Rightarrow> chunk_member \<Rightarrow> byte list option \<Rightarrow> heap res" where
  "chunk_set_cstr_at h p m s =
     bindr (on_chunk h p m (\<lambda>c. bindr (cmark_chunk_set_cstr c s) (\<lambda>c'. Inr ((), c')))) (\<lambda>(_, h). Inr h)"

definition chunk_free_at :: "heap \<Rightarrow> nptr \<Rightarrow> chunk_member \<Rightarrow> heap res" where
  "chunk_free_at h p m =
     bindr (on_chunk h p m (\<lambda>c. Inr ((), cmark_chunk_free c))) (\<lambda>(_, h). Inr h)"

section \<open>Types\<close>

definition CMARK_NODE_TYPE_BLOCK_P :: "node_type \<Rightarrow> bool" where
  "CMARK_NODE_TYPE_BLOCK_P t \<longleftrightarrow> t AND CMARK_NODE_TYPE_MASK = CMARK_NODE_TYPE_BLOCK"

definition CMARK_NODE_TYPE_INLINE_P :: "node_type \<Rightarrow> bool" where
  "CMARK_NODE_TYPE_INLINE_P t \<longleftrightarrow> t AND CMARK_NODE_TYPE_MASK = CMARK_NODE_TYPE_INLINE"

definition CMARK_NODE_BLOCK_P :: "heap \<Rightarrow> nptr option \<Rightarrow> bool res" where
  "CMARK_NODE_BLOCK_P h node =
     (case node of None \<Rightarrow> Inr False
      | Some p \<Rightarrow> bindr (deref h p) (\<lambda>n. Inr (CMARK_NODE_TYPE_BLOCK_P (n_type n))))"

definition CMARK_NODE_INLINE_P :: "heap \<Rightarrow> nptr option \<Rightarrow> bool res" where
  "CMARK_NODE_INLINE_P h node =
     (case node of None \<Rightarrow> Inr False
      | Some p \<Rightarrow> bindr (deref h p) (\<lambda>n. Inr (CMARK_NODE_TYPE_INLINE_P (n_type n))))"

definition cmark_node_can_contain_type :: "node_env \<Rightarrow> heap \<Rightarrow> nptr \<Rightarrow> node_type \<Rightarrow> bool res" where
  "cmark_node_can_contain_type env h p child_type =
     (if child_type = CMARK_NODE_DOCUMENT then Inr False
      else
        bindr (deref h p) (\<lambda>n.
        case Option.bind (extension n) (\<lambda>e. can_contain_func (exts env e)) of
          Some f \<Rightarrow> Inr (f h p child_type)
        | None \<Rightarrow>
            if n_type n \<in> {CMARK_NODE_DOCUMENT, CMARK_NODE_BLOCK_QUOTE,
                 CMARK_NODE_FOOTNOTE_DEFINITION, CMARK_NODE_ITEM}
            then Inr (CMARK_NODE_TYPE_BLOCK_P child_type \<and> child_type \<noteq> CMARK_NODE_ITEM)
            else if n_type n = CMARK_NODE_LIST then Inr (child_type = CMARK_NODE_ITEM)
            else if n_type n = CMARK_NODE_CUSTOM_BLOCK then Inr True
            else if n_type n \<in> {CMARK_NODE_PARAGRAPH, CMARK_NODE_HEADING, CMARK_NODE_EMPH,
                 CMARK_NODE_STRONG, CMARK_NODE_LINK, CMARK_NODE_IMAGE, CMARK_NODE_ATTRIBUTE,
                 CMARK_NODE_CUSTOM_INLINE}
            then Inr (CMARK_NODE_TYPE_INLINE_P child_type)
            else Inr False))"

text \<open>
  The walk from a node to its ancestors looks at most at every cell once, unless the parent
  pointers form a cycle and it never ends.  So as many steps as there are cells are enough.
\<close>

fun is_ancestor :: "nat \<Rightarrow> heap \<Rightarrow> nptr \<Rightarrow> nptr \<Rightarrow> bool res" where
  "is_ancestor 0 h cur child = Inl Out_of_fuel"
| "is_ancestor (Suc fuel) h cur child =
     (if cur = child then Inr True
      else
        bindr (deref h cur) (\<lambda>n.
        case n_parent n of None \<Rightarrow> Inr False | Some q \<Rightarrow> is_ancestor fuel h q child))"

definition S_can_contain :: "node_env \<Rightarrow> heap \<Rightarrow> nptr option \<Rightarrow> nptr option \<Rightarrow> bool res" where
  "S_can_contain env h node child =
     (case (node, child) of
        (Some p, Some c) \<Rightarrow>
          bindr (deref h p) (\<lambda>n.
          bindr (deref h c) (\<lambda>cn.
          if mem_id (mem (n_content n)) \<noteq> mem_id (mem (n_content cn)) then Inr False
          else
            bindr (if enable_safety_checks env then is_ancestor (Suc (length h)) h p c else Inr False)
              (\<lambda>anc.
            if anc then Inr False else cmark_node_can_contain_type env h p (n_type cn))))
      | _ \<Rightarrow> Inr False)"

definition cmark_enable_safety_checks :: "node_env \<Rightarrow> bool \<Rightarrow> node_env" where
  "cmark_enable_safety_checks env enable = env\<lparr>enable_safety_checks := enable\<rparr>"

text \<open>The pair of the caller's flag and the static variable \<open>nextflag\<close>.\<close>

definition cmark_register_node_flag :: "16 word \<Rightarrow> 16 word \<Rightarrow> (16 word \<times> 16 word) res" where
  "cmark_register_node_flag flag nextflag =
     bindr (guard (flag = 0) Abort) (\<lambda>_.
     bindr (guard (nextflag \<noteq> 0) Abort) (\<lambda>_. Inr (nextflag, push_bit 1 nextflag)))"

section \<open>Allocation and the payload\<close>

definition node_zero :: "cmark_mem \<Rightarrow> cmark_node" where
  "node_zero m =
     \<lparr>n_content = strbuf_empty m, n_next = None, n_prev = None, n_parent = None, n_first = None,
      n_last = None, user_data = None, user_data_free_func = None, start_line = 0,
      start_column = 0, end_line = 0, end_column = 0, internal_offset = 0, n_type = 0, flags = 0,
      backtick_count = 0, extension = None, ancestor_extension = None, footnote = 0,
      parent_footnote_def = None, n_as = As_zero\<rparr>"

definition new_node :: "node_env \<Rightarrow> node_type \<Rightarrow> cmark_mem \<Rightarrow> eptr option \<Rightarrow> cmark_node res" where
  "new_node env type m ext =
     bindr (cmark_strbuf_init m 0) (\<lambda>c.
     let n = (node_zero m)\<lparr>n_content := c, n_type := type, extension := ext\<rparr>;
         n = (if type = CMARK_NODE_HEADING then n\<lparr>n_as := As_heading \<lparr>level = 1, setext = False\<rparr>\<rparr>
              else if type = CMARK_NODE_LIST
              then n\<lparr>n_as := As_list (list_zero\<lparr>list_type := CMARK_BULLET_LIST, list_start := 0,
                     tight := False\<rparr>)\<rparr>
              else n)
     in Inr (case Option.bind ext (\<lambda>e. opaque_alloc_func (exts env e)) of
               None \<Rightarrow> n | Some f \<Rightarrow> f n))"

definition cmark_node_new_with_mem_and_ext ::
  "node_env \<Rightarrow> heap \<Rightarrow> node_type \<Rightarrow> cmark_mem \<Rightarrow> eptr option \<Rightarrow> (nptr \<times> heap) res" where
  "cmark_node_new_with_mem_and_ext env h type m ext =
     bindr (new_node env type m ext) (\<lambda>n. Inr (length h, h @ [Some n]))"

definition cmark_node_new_with_mem :: "node_env \<Rightarrow> heap \<Rightarrow> node_type \<Rightarrow> cmark_mem \<Rightarrow> (nptr \<times> heap) res" where
  "cmark_node_new_with_mem env h type m = cmark_node_new_with_mem_and_ext env h type m None"

text \<open>\<open>CMARK_DEFAULT_MEM_ALLOCATOR\<close> is an argument of the two functions that use it.\<close>

definition cmark_node_new_with_ext ::
  "node_env \<Rightarrow> heap \<Rightarrow> cmark_mem \<Rightarrow> node_type \<Rightarrow> eptr option \<Rightarrow> (nptr \<times> heap) res" where
  "cmark_node_new_with_ext env h default_mem type ext =
     cmark_node_new_with_mem_and_ext env h type default_mem ext"

definition cmark_node_new :: "node_env \<Rightarrow> heap \<Rightarrow> cmark_mem \<Rightarrow> node_type \<Rightarrow> (nptr \<times> heap) res" where
  "cmark_node_new env h default_mem type = cmark_node_new_with_ext env h default_mem type None"

definition free_node_as :: "heap \<Rightarrow> nptr \<Rightarrow> heap res" where
  "free_node_as h p =
     bindr (deref h p) (\<lambda>n.
     if n_type n = CMARK_NODE_CODE_BLOCK then
       bindr (chunk_free_at h p M_code_info) (\<lambda>h. chunk_free_at h p M_code_literal)
     else if n_type n \<in> {CMARK_NODE_TEXT, CMARK_NODE_HTML_INLINE, CMARK_NODE_CODE,
            CMARK_NODE_HTML_BLOCK, CMARK_NODE_FOOTNOTE_REFERENCE, CMARK_NODE_FOOTNOTE_DEFINITION} then
       chunk_free_at h p M_literal
     else if n_type n \<in> {CMARK_NODE_LINK, CMARK_NODE_IMAGE} then
       bindr (chunk_free_at h p M_link_url) (\<lambda>h. chunk_free_at h p M_link_title)
     else if n_type n = CMARK_NODE_ATTRIBUTE then chunk_free_at h p M_attributes
     else if n_type n \<in> {CMARK_NODE_CUSTOM_BLOCK, CMARK_NODE_CUSTOM_INLINE} then
       bindr (chunk_free_at h p M_on_enter) (\<lambda>h. chunk_free_at h p M_on_exit)
     else Inr h)"

section \<open>Accessors\<close>

text \<open>\<open>on_node\<close>: the null check that most accessors start with, and then the node.\<close>

definition on_node :: "heap \<Rightarrow> nptr option \<Rightarrow> 'a \<Rightarrow> (nptr \<Rightarrow> cmark_node \<Rightarrow> 'a res) \<Rightarrow> 'a res" where
  "on_node h node d f = (case node of None \<Rightarrow> Inr d | Some p \<Rightarrow> bindr (deref h p) (f p))"

definition cmark_node_get_type :: "heap \<Rightarrow> nptr option \<Rightarrow> node_type res" where
  "cmark_node_get_type h node = on_node h node CMARK_NODE_NONE (\<lambda>_ n. Inr (n_type n))"

definition cmark_node_set_type :: "node_env \<Rightarrow> heap \<Rightarrow> nptr \<Rightarrow> node_type \<Rightarrow> (bool \<times> heap) res" where
  "cmark_node_set_type env h p type =
     bindr (deref h p) (\<lambda>n.
     if type = n_type n then Inr (True, h)
     else
       let initial_type = n_type n in
       bindr (update h p (\<lambda>n. n\<lparr>n_type := type\<rparr>)) (\<lambda>h.
       bindr (S_can_contain env h (n_parent n) (Some p)) (\<lambda>ok.
       bindr (update h p (\<lambda>n. n\<lparr>n_type := initial_type\<rparr>)) (\<lambda>h.
       if \<not> ok then Inr (False, h)
       else
         bindr (free_node_as h p) (\<lambda>h.
         bindr (update h p (\<lambda>n. n\<lparr>n_type := type\<rparr>)) (\<lambda>h. Inr (True, h)))))))"

definition cmark_node_get_type_string :: "node_env \<Rightarrow> heap \<Rightarrow> nptr option \<Rightarrow> byte list res" where
  "cmark_node_get_type_string env h node =
     on_node h node (str ''NONE'') (\<lambda>p n.
     case Option.bind (extension n) (\<lambda>e. get_type_string_func (exts env e)) of
       Some f \<Rightarrow> Inr (f h p)
     | None \<Rightarrow> Inr (
         let t = n_type n in
         if t = CMARK_NODE_NONE then str ''none''
         else if t = CMARK_NODE_DOCUMENT then str ''document''
         else if t = CMARK_NODE_BLOCK_QUOTE then str ''block_quote''
         else if t = CMARK_NODE_LIST then str ''list''
         else if t = CMARK_NODE_ITEM then str ''item''
         else if t = CMARK_NODE_CODE_BLOCK then str ''code_block''
         else if t = CMARK_NODE_HTML_BLOCK then str ''html_block''
         else if t = CMARK_NODE_CUSTOM_BLOCK then str ''custom_block''
         else if t = CMARK_NODE_PARAGRAPH then str ''paragraph''
         else if t = CMARK_NODE_HEADING then str ''heading''
         else if t = CMARK_NODE_THEMATIC_BREAK then str ''thematic_break''
         else if t = CMARK_NODE_TEXT then str ''text''
         else if t = CMARK_NODE_SOFTBREAK then str ''softbreak''
         else if t = CMARK_NODE_LINEBREAK then str ''linebreak''
         else if t = CMARK_NODE_CODE then str ''code''
         else if t = CMARK_NODE_HTML_INLINE then str ''html_inline''
         else if t = CMARK_NODE_CUSTOM_INLINE then str ''custom_inline''
         else if t = CMARK_NODE_EMPH then str ''emph''
         else if t = CMARK_NODE_STRONG then str ''strong''
         else if t = CMARK_NODE_LINK then str ''link''
         else if t = CMARK_NODE_IMAGE then str ''image''
         else if t = CMARK_NODE_ATTRIBUTE then str ''attribute''
         else str ''<unknown>''))"

definition cmark_node_next :: "heap \<Rightarrow> nptr option \<Rightarrow> nptr option res" where
  "cmark_node_next h node = on_node h node None (\<lambda>_ n. Inr (n_next n))"

definition cmark_node_previous :: "heap \<Rightarrow> nptr option \<Rightarrow> nptr option res" where
  "cmark_node_previous h node = on_node h node None (\<lambda>_ n. Inr (n_prev n))"

definition cmark_node_parent :: "heap \<Rightarrow> nptr option \<Rightarrow> nptr option res" where
  "cmark_node_parent h node = on_node h node None (\<lambda>_ n. Inr (n_parent n))"

definition cmark_node_first_child :: "heap \<Rightarrow> nptr option \<Rightarrow> nptr option res" where
  "cmark_node_first_child h node = on_node h node None (\<lambda>_ n. Inr (n_first n))"

definition cmark_node_last_child :: "heap \<Rightarrow> nptr option \<Rightarrow> nptr option res" where
  "cmark_node_last_child h node = on_node h node None (\<lambda>_ n. Inr (n_last n))"

definition cmark_node_parent_footnote_def :: "heap \<Rightarrow> nptr option \<Rightarrow> nptr option res" where
  "cmark_node_parent_footnote_def h node = on_node h node None (\<lambda>_ n. Inr (parent_footnote_def n))"

fun skip_next :: "heap \<Rightarrow> nat \<Rightarrow> nptr option \<Rightarrow> nptr option res" where
  "skip_next h (Suc i) (Some p) = bindr (deref h p) (\<lambda>n. skip_next h i (n_next n))"
| "skip_next h _ ret = Inr ret"

definition cmark_node_nth_child :: "heap \<Rightarrow> nptr option \<Rightarrow> int \<Rightarrow> nptr option res" where
  "cmark_node_nth_child h node n = on_node h node None (\<lambda>_ r. skip_next h (nat n) (n_first r))"

definition cmark_node_get_user_data :: "heap \<Rightarrow> nptr option \<Rightarrow> nat option res" where
  "cmark_node_get_user_data h node = on_node h node None (\<lambda>_ n. Inr (user_data n))"

text \<open>The setters return the C result (1 or 0) and the heap.\<close>

definition set_field ::
  "heap \<Rightarrow> nptr option \<Rightarrow> (cmark_node \<Rightarrow> bool) \<Rightarrow> (cmark_node \<Rightarrow> cmark_node res) \<Rightarrow> (bool \<times> heap) res" where
  "set_field h node allowed f =
     on_node h node (False, h) (\<lambda>p n.
     if allowed n then bindr (f n) (\<lambda>n'. bindr (update h p (\<lambda>_. n')) (\<lambda>h. Inr (True, h)))
     else Inr (False, h))"

definition cmark_node_set_user_data :: "heap \<Rightarrow> nptr option \<Rightarrow> nat option \<Rightarrow> (bool \<times> heap) res" where
  "cmark_node_set_user_data h node d =
     set_field h node (\<lambda>_. True) (\<lambda>n. Inr (n\<lparr>user_data := d\<rparr>))"

definition cmark_node_set_user_data_free_func ::
  "heap \<Rightarrow> nptr option \<Rightarrow> nat option \<Rightarrow> (bool \<times> heap) res" where
  "cmark_node_set_user_data_free_func h node f =
     set_field h node (\<lambda>_. True) (\<lambda>n. Inr (n\<lparr>user_data_free_func := f\<rparr>))"

definition get_string ::
  "heap \<Rightarrow> nptr option \<Rightarrow> (node_type \<Rightarrow> chunk_member option) \<Rightarrow> (byte list option \<times> heap) res" where
  "get_string h node sel =
     on_node h node (None, h) (\<lambda>p n.
     case sel (n_type n) of None \<Rightarrow> Inr (None, h) | Some m \<Rightarrow> chunk_to_cstr_at h p m)"

definition set_string ::
  "heap \<Rightarrow> nptr option \<Rightarrow> (node_type \<Rightarrow> chunk_member option) \<Rightarrow> byte list option \<Rightarrow> (bool \<times> heap) res" where
  "set_string h node sel s =
     on_node h node (False, h) (\<lambda>p n.
     case sel (n_type n) of None \<Rightarrow> Inr (False, h)
     | Some m \<Rightarrow> bindr (chunk_set_cstr_at h p m s) (\<lambda>h. Inr (True, h)))"

definition cmark_node_get_literal :: "heap \<Rightarrow> nptr option \<Rightarrow> (byte list option \<times> heap) res" where
  "cmark_node_get_literal h node =
     get_string h node (\<lambda>t.
       if t \<in> {CMARK_NODE_HTML_BLOCK, CMARK_NODE_TEXT, CMARK_NODE_HTML_INLINE, CMARK_NODE_CODE,
               CMARK_NODE_FOOTNOTE_REFERENCE, CMARK_NODE_FOOTNOTE_DEFINITION} then Some M_literal
       else if t = CMARK_NODE_CODE_BLOCK then Some M_code_literal
       else None)"

definition cmark_node_get_backtick_count :: "heap \<Rightarrow> nptr \<Rightarrow> int res" where
  "cmark_node_get_backtick_count h p = bindr (deref h p) (\<lambda>n. Inr (backtick_count n))"

definition cmark_node_set_literal :: "heap \<Rightarrow> nptr option \<Rightarrow> byte list option \<Rightarrow> (bool \<times> heap) res" where
  "cmark_node_set_literal h node s =
     set_string h node (\<lambda>t.
       if t \<in> {CMARK_NODE_HTML_BLOCK, CMARK_NODE_TEXT, CMARK_NODE_HTML_INLINE, CMARK_NODE_CODE,
               CMARK_NODE_FOOTNOTE_REFERENCE} then Some M_literal
       else if t = CMARK_NODE_CODE_BLOCK then Some M_code_literal
       else None) s"

definition cmark_node_get_string_content :: "heap \<Rightarrow> nptr \<Rightarrow> byte list res" where
  "cmark_node_get_string_content h p = bindr (deref h p) (\<lambda>n. Inr (ptr (n_content n)))"

definition cmark_node_set_string_content :: "heap \<Rightarrow> nptr \<Rightarrow> byte list option \<Rightarrow> (bool \<times> heap) res" where
  "cmark_node_set_string_content h p s =
     bindr (deref h p) (\<lambda>n.
     bindr (cmark_strbuf_sets (n_content n) s) (\<lambda>c.
     bindr (update h p (\<lambda>n. n\<lparr>n_content := c\<rparr>)) (\<lambda>h. Inr (True, h))))"

definition cmark_node_get_heading_level :: "heap \<Rightarrow> nptr option \<Rightarrow> int res" where
  "cmark_node_get_heading_level h node =
     on_node h node 0 (\<lambda>_ n.
     if n_type n = CMARK_NODE_HEADING then bindr (as_heading (n_as n)) (\<lambda>r. Inr (level r)) else Inr 0)"

definition cmark_node_set_heading_level :: "heap \<Rightarrow> nptr option \<Rightarrow> int \<Rightarrow> (bool \<times> heap) res" where
  "cmark_node_set_heading_level h node l =
     (if node = None \<or> l < 1 \<or> l > 6 then Inr (False, h)
      else set_field h node (\<lambda>n. n_type n = CMARK_NODE_HEADING)
        (\<lambda>n. bindr (as_heading (n_as n)) (\<lambda>r. Inr (n\<lparr>n_as := As_heading (r\<lparr>level := l\<rparr>)\<rparr>))))"

text \<open>The accessors of a list field: \<open>d\<close> unless the node has one of the types \<open>ts\<close>.\<close>

definition get_list_field :: "heap \<Rightarrow> nptr option \<Rightarrow> node_type \<Rightarrow> 'a \<Rightarrow> (cmark_list \<Rightarrow> 'a) \<Rightarrow> 'a res" where
  "get_list_field h node t d f =
     on_node h node d (\<lambda>_ n.
     if n_type n = t then bindr (as_list (n_as n)) (\<lambda>l. Inr (f l)) else Inr d)"

definition set_list_field ::
  "heap \<Rightarrow> nptr option \<Rightarrow> node_type \<Rightarrow> (cmark_list \<Rightarrow> cmark_list) \<Rightarrow> (bool \<times> heap) res" where
  "set_list_field h node t f =
     set_field h node (\<lambda>n. n_type n = t)
       (\<lambda>n. bindr (as_list (n_as n)) (\<lambda>l. Inr (n\<lparr>n_as := As_list (f l)\<rparr>)))"

definition cmark_node_get_list_type :: "heap \<Rightarrow> nptr option \<Rightarrow> cmark_list_type res" where
  "cmark_node_get_list_type h node = get_list_field h node CMARK_NODE_LIST CMARK_NO_LIST list_type"

definition cmark_node_set_list_type :: "heap \<Rightarrow> nptr option \<Rightarrow> cmark_list_type \<Rightarrow> (bool \<times> heap) res" where
  "cmark_node_set_list_type h node t =
     (if \<not> (t = CMARK_BULLET_LIST \<or> t = CMARK_ORDERED_LIST) then Inr (False, h)
      else set_list_field h node CMARK_NODE_LIST (list_type_update (\<lambda>_. t)))"

definition cmark_node_get_list_marker :: "heap \<Rightarrow> nptr option \<Rightarrow> cmark_list_marker_type res" where
  "cmark_node_get_list_marker h node =
     bindr (cmark_node_get_list_type h node) (\<lambda>t.
     if t \<noteq> CMARK_BULLET_LIST then Inr CMARK_NO_LIST_MARKER
     else
       bindr (deref_opt h node) (\<lambda>n.
       bindr (as_list (n_as n)) (\<lambda>l.
       Inr (if bullet_char l = HYPHEN then CMARK_HYPHEN_LIST_MARKER
            else if bullet_char l = PLUS then CMARK_PLUS_LIST_MARKER
            else if bullet_char l = ASTERISK then CMARK_ASTERISK_LIST_MARKER
            else CMARK_NO_LIST_MARKER))))"

definition cmark_node_set_list_marker ::
  "heap \<Rightarrow> nptr option \<Rightarrow> cmark_list_marker_type \<Rightarrow> (bool \<times> heap) res" where
  "cmark_node_set_list_marker h node marker =
     (if marker = CMARK_NO_LIST_MARKER then Inr (False, h)
      else
        bindr (cmark_node_get_list_type h node) (\<lambda>t.
        if t \<noteq> CMARK_BULLET_LIST then Inr (False, h)
        else
          set_field h node (\<lambda>_. True) (\<lambda>n.
          bindr (as_list (n_as n)) (\<lambda>l.
          Inr (n\<lparr>n_as := As_list (l\<lparr>bullet_char :=
            (case marker of CMARK_HYPHEN_LIST_MARKER \<Rightarrow> HYPHEN
             | CMARK_PLUS_LIST_MARKER \<Rightarrow> PLUS
             | _ \<Rightarrow> ASTERISK)\<rparr>)\<rparr>)))))"

definition cmark_node_get_list_delim :: "heap \<Rightarrow> nptr option \<Rightarrow> cmark_delim_type res" where
  "cmark_node_get_list_delim h node = get_list_field h node CMARK_NODE_LIST CMARK_NO_DELIM delimiter"

definition cmark_node_set_list_delim :: "heap \<Rightarrow> nptr option \<Rightarrow> cmark_delim_type \<Rightarrow> (bool \<times> heap) res" where
  "cmark_node_set_list_delim h node d =
     (if \<not> (d = CMARK_PERIOD_DELIM \<or> d = CMARK_PAREN_DELIM) then Inr (False, h)
      else set_list_field h node CMARK_NODE_LIST (delimiter_update (\<lambda>_. d)))"

definition cmark_node_get_list_start :: "heap \<Rightarrow> nptr option \<Rightarrow> int res" where
  "cmark_node_get_list_start h node = get_list_field h node CMARK_NODE_LIST 0 list_start"

definition cmark_node_set_list_start :: "heap \<Rightarrow> nptr option \<Rightarrow> int \<Rightarrow> (bool \<times> heap) res" where
  "cmark_node_set_list_start h node i =
     (if node = None \<or> i < 0 then Inr (False, h)
      else set_list_field h node CMARK_NODE_LIST (list_start_update (\<lambda>_. i)))"

definition cmark_node_get_list_tight :: "heap \<Rightarrow> nptr option \<Rightarrow> bool res" where
  "cmark_node_get_list_tight h node = get_list_field h node CMARK_NODE_LIST False tight"

definition cmark_node_set_list_tight :: "heap \<Rightarrow> nptr option \<Rightarrow> int \<Rightarrow> (bool \<times> heap) res" where
  "cmark_node_set_list_tight h node t =
     set_list_field h node CMARK_NODE_LIST (tight_update (\<lambda>_. t = 1))"

definition cmark_node_get_item_index :: "heap \<Rightarrow> nptr option \<Rightarrow> int res" where
  "cmark_node_get_item_index h node = get_list_field h node CMARK_NODE_ITEM 0 list_start"

definition cmark_node_set_item_index :: "heap \<Rightarrow> nptr option \<Rightarrow> int \<Rightarrow> (bool \<times> heap) res" where
  "cmark_node_set_item_index h node i =
     (if node = None \<or> i < 0 then Inr (False, h)
      else set_list_field h node CMARK_NODE_ITEM (list_start_update (\<lambda>_. i)))"

definition cmark_node_get_fence_info :: "heap \<Rightarrow> nptr option \<Rightarrow> (byte list option \<times> heap) res" where
  "cmark_node_get_fence_info h node =
     get_string h node (\<lambda>t. if t \<in> {CMARK_NODE_CODE_BLOCK} then Some M_code_info else None)"

definition cmark_node_set_fence_info :: "heap \<Rightarrow> nptr option \<Rightarrow> byte list option \<Rightarrow> (bool \<times> heap) res" where
  "cmark_node_set_fence_info h node s =
     set_string h node (\<lambda>t. if t \<in> {CMARK_NODE_CODE_BLOCK} then Some M_code_info else None) s"

text \<open>The result, and the values of \<open>*length\<close>, \<open>*offset\<close> and \<open>*character\<close> when they are set.\<close>

definition cmark_node_get_fenced :: "heap \<Rightarrow> nptr option \<Rightarrow> (int \<times> (int \<times> int \<times> byte) option) res" where
  "cmark_node_get_fenced h node =
     on_node h node (0, None) (\<lambda>_ n.
     if n_type n = CMARK_NODE_CODE_BLOCK then
       bindr (as_code (n_as n)) (\<lambda>c.
       Inr (sint (fenced c), Some (uint (fence_length c), uint (fence_offset c), fence_char c)))
     else Inr (0, None))"

definition cmark_node_set_fenced ::
  "heap \<Rightarrow> nptr option \<Rightarrow> int \<Rightarrow> int \<Rightarrow> int \<Rightarrow> byte \<Rightarrow> (bool \<times> heap) res" where
  "cmark_node_set_fenced h node fd len offset character =
     set_field h node (\<lambda>n. n_type n = CMARK_NODE_CODE_BLOCK)
       (\<lambda>n. bindr (as_code (n_as n)) (\<lambda>c.
        Inr (n\<lparr>n_as := As_code (c\<lparr>fenced := word_of_int fd, fence_length := word_of_int len,
          fence_offset := word_of_int offset, fence_char := character\<rparr>)\<rparr>)))"

definition cmark_node_get_url :: "heap \<Rightarrow> nptr option \<Rightarrow> (byte list option \<times> heap) res" where
  "cmark_node_get_url h node =
     get_string h node (\<lambda>t. if t \<in> {CMARK_NODE_LINK, CMARK_NODE_IMAGE} then Some M_link_url else None)"

definition cmark_node_set_url :: "heap \<Rightarrow> nptr option \<Rightarrow> byte list option \<Rightarrow> (bool \<times> heap) res" where
  "cmark_node_set_url h node s =
     set_string h node (\<lambda>t. if t \<in> {CMARK_NODE_LINK, CMARK_NODE_IMAGE} then Some M_link_url else None) s"

definition cmark_node_get_title :: "heap \<Rightarrow> nptr option \<Rightarrow> (byte list option \<times> heap) res" where
  "cmark_node_get_title h node =
     get_string h node (\<lambda>t. if t \<in> {CMARK_NODE_LINK, CMARK_NODE_IMAGE} then Some M_link_title else None)"

definition cmark_node_set_title :: "heap \<Rightarrow> nptr option \<Rightarrow> byte list option \<Rightarrow> (bool \<times> heap) res" where
  "cmark_node_set_title h node s =
     set_string h node (\<lambda>t. if t \<in> {CMARK_NODE_LINK, CMARK_NODE_IMAGE} then Some M_link_title else None) s"

definition cmark_node_get_attributes :: "heap \<Rightarrow> nptr option \<Rightarrow> (byte list option \<times> heap) res" where
  "cmark_node_get_attributes h node =
     get_string h node (\<lambda>t. if t \<in> {CMARK_NODE_ATTRIBUTE} then Some M_attributes else None)"

definition cmark_node_set_attributes :: "heap \<Rightarrow> nptr option \<Rightarrow> byte list option \<Rightarrow> (bool \<times> heap) res" where
  "cmark_node_set_attributes h node s =
     set_string h node (\<lambda>t. if t \<in> {CMARK_NODE_ATTRIBUTE} then Some M_attributes else None) s"

definition cmark_node_get_on_enter :: "heap \<Rightarrow> nptr option \<Rightarrow> (byte list option \<times> heap) res" where
  "cmark_node_get_on_enter h node =
     get_string h node (\<lambda>t. if t \<in> {CMARK_NODE_CUSTOM_INLINE, CMARK_NODE_CUSTOM_BLOCK} then Some M_on_enter else None)"

definition cmark_node_set_on_enter :: "heap \<Rightarrow> nptr option \<Rightarrow> byte list option \<Rightarrow> (bool \<times> heap) res" where
  "cmark_node_set_on_enter h node s =
     set_string h node (\<lambda>t. if t \<in> {CMARK_NODE_CUSTOM_INLINE, CMARK_NODE_CUSTOM_BLOCK} then Some M_on_enter else None) s"

definition cmark_node_get_on_exit :: "heap \<Rightarrow> nptr option \<Rightarrow> (byte list option \<times> heap) res" where
  "cmark_node_get_on_exit h node =
     get_string h node (\<lambda>t. if t \<in> {CMARK_NODE_CUSTOM_INLINE, CMARK_NODE_CUSTOM_BLOCK} then Some M_on_exit else None)"

definition cmark_node_set_on_exit :: "heap \<Rightarrow> nptr option \<Rightarrow> byte list option \<Rightarrow> (bool \<times> heap) res" where
  "cmark_node_set_on_exit h node s =
     set_string h node (\<lambda>t. if t \<in> {CMARK_NODE_CUSTOM_INLINE, CMARK_NODE_CUSTOM_BLOCK} then Some M_on_exit else None) s"

definition cmark_node_get_syntax_extension :: "heap \<Rightarrow> nptr option \<Rightarrow> eptr option res" where
  "cmark_node_get_syntax_extension h node = on_node h node None (\<lambda>_ n. Inr (extension n))"

definition cmark_node_set_syntax_extension :: "heap \<Rightarrow> nptr option \<Rightarrow> eptr option \<Rightarrow> (bool \<times> heap) res" where
  "cmark_node_set_syntax_extension h node e =
     set_field h node (\<lambda>_. True) (\<lambda>n. Inr (n\<lparr>extension := e\<rparr>))"

definition cmark_node_get_start_line :: "heap \<Rightarrow> nptr option \<Rightarrow> int res" where
  "cmark_node_get_start_line h node = on_node h node 0 (\<lambda>_ n. Inr (start_line n))"

definition cmark_node_get_start_column :: "heap \<Rightarrow> nptr option \<Rightarrow> int res" where
  "cmark_node_get_start_column h node = on_node h node 0 (\<lambda>_ n. Inr (start_column n))"

definition cmark_node_get_end_line :: "heap \<Rightarrow> nptr option \<Rightarrow> int res" where
  "cmark_node_get_end_line h node = on_node h node 0 (\<lambda>_ n. Inr (end_line n))"

definition cmark_node_get_end_column :: "heap \<Rightarrow> nptr option \<Rightarrow> int res" where
  "cmark_node_get_end_column h node = on_node h node 0 (\<lambda>_ n. Inr (end_column n))"

section \<open>Laws of the heap\<close>

named_theorems heap \<open>reading and updating cells\<close>

lemma deref_Inr: "deref h p = Inr n \<longleftrightarrow> cell h p = Some n"
  by (simp add: deref_def split: option.splits)

lemma cell_update [heap]:
  "cell (h[p := v]) q = (if q = p \<and> p < length h then v else cell h q)"
  by (auto simp: cell_def)

lemma cell_append [heap]: "cell (h @ [v]) q = (if q = length h then v else cell h q)"
  by (auto simp: cell_def nth_append)

lemma cell_length: "cell h p = Some n \<Longrightarrow> p < length h"
  by (simp add: cell_def split: if_splits)

lemma update_Inr [heap]:
  "cell h p = Some n \<Longrightarrow> update h p f = Inr (h[p := Some (f n)])"
  by (simp add: update_def deref_def)

lemma update_cell:
  assumes "update h p f = Inr h'"
  obtains n where "cell h p = Some n" "h' = h[p := Some (f n)]" "p < length h"
  using assms by (auto simp: update_def deref_Inr dest: cell_length)

lemma deref_heap [heap]: "cell h p = Some n \<Longrightarrow> deref h p = Inr n"
  by (simp add: deref_def)

section \<open>Well-typed payloads\<close>

text \<open>
  The member of the union that belongs to a node type can be read, and its chunks are well-formed.
\<close>

definition chunk_at_ok :: "node_as \<Rightarrow> chunk_member \<Rightarrow> bool" where
  "chunk_at_ok a m = (case get_chunk m a of Inr c \<Rightarrow> chunk_ok c | Inl _ \<Rightarrow> False)"

definition chunk_members :: "node_type \<Rightarrow> chunk_member list" where
  "chunk_members t =
     (if t = CMARK_NODE_CODE_BLOCK then [M_code_info, M_code_literal]
      else if t \<in> {CMARK_NODE_TEXT, CMARK_NODE_HTML_INLINE, CMARK_NODE_CODE,
            CMARK_NODE_HTML_BLOCK, CMARK_NODE_FOOTNOTE_REFERENCE, CMARK_NODE_FOOTNOTE_DEFINITION}
      then [M_literal]
      else if t \<in> {CMARK_NODE_LINK, CMARK_NODE_IMAGE} then [M_link_url, M_link_title]
      else if t = CMARK_NODE_ATTRIBUTE then [M_attributes]
      else if t \<in> {CMARK_NODE_CUSTOM_BLOCK, CMARK_NODE_CUSTOM_INLINE} then [M_on_enter, M_on_exit]
      else [])"

definition payload_ok :: "node_type \<Rightarrow> node_as \<Rightarrow> bool" where
  "payload_ok t a \<longleftrightarrow>
     list_all (chunk_at_ok a) (chunk_members t) \<and>
     (t \<in> {CMARK_NODE_LIST, CMARK_NODE_ITEM} \<longrightarrow> \<not> isl (as_list a)) \<and>
     (t = CMARK_NODE_HEADING \<longrightarrow> \<not> isl (as_heading a))"

lemma chunk_zero_ok [simp]: "chunk_ok chunk_zero"
  by (simp add: chunk_zero_def CMARK_CHUNK_EMPTY_def chunk_ok_def)

lemma chunk_at_ok_iff: "chunk_at_ok a m \<longleftrightarrow> (\<exists>c. get_chunk m a = Inr c \<and> chunk_ok c)"
  by (cases "get_chunk m a") (simp_all add: chunk_at_ok_def)

lemma payload_chunk: "payload_ok t a \<Longrightarrow> m \<in> set (chunk_members t) \<Longrightarrow> chunk_at_ok a m"
  by (simp add: payload_ok_def list_all_iff)

lemma get_set_chunk [simp]: "get_chunk m (set_chunk m c a) = Inr c"
  by (cases m; cases a) simp_all

text \<open>Writing one chunk of a union leaves the other chunk of the same member as it was.\<close>

lemma get_set_chunk_other:
  assumes "get_chunk m a = Inr c" "get_chunk m' a = Inr c'" "m' \<noteq> m"
    "m \<in> set (chunk_members t)" "m' \<in> set (chunk_members t)"
  shows "get_chunk m' (set_chunk m d a) = Inr c'"
proof -
  have "(m, m') \<in> {(M_code_info, M_code_literal), (M_code_literal, M_code_info),
      (M_link_url, M_link_title), (M_link_title, M_link_url),
      (M_on_enter, M_on_exit), (M_on_exit, M_on_enter)}"
    using assms(3-5) by (auto simp: chunk_members_def split: if_splits)
  then show ?thesis
    using assms(1,2) by (elim insertE; simp; cases a; simp add: code_zero_def)
qed

lemma set_chunk_payload_ok:
  assumes "payload_ok t a" "m \<in> set (chunk_members t)" "chunk_ok c"
  shows "payload_ok t (set_chunk m c a)"
proof -
  have "chunk_at_ok (set_chunk m c a) m'" if m': "m' \<in> set (chunk_members t)" for m'
  proof (cases "m' = m")
    case True
    with assms show ?thesis by (simp add: chunk_at_ok_def)
  next
    case False
    obtain c1 c2 where "get_chunk m a = Inr c1" "get_chunk m' a = Inr c2" "chunk_ok c2"
      using payload_chunk [OF assms(1,2)] payload_chunk [OF assms(1) m']
      by (auto simp: chunk_at_ok_iff)
    with get_set_chunk_other [OF this(1,2) False assms(2) m'] show ?thesis by (simp add: chunk_at_ok_def)
  qed
  moreover have "t \<notin> {CMARK_NODE_LIST, CMARK_NODE_ITEM}" "t \<noteq> CMARK_NODE_HEADING"
    using assms(2) by (auto simp: chunk_members_def)
  ultimately show ?thesis by (simp add: payload_ok_def list_all_iff)
qed

lemma set_cstr_ok:
  assumes "NUL \<notin> set s" "int (length s) \<le> INT32_MAX"
  shows "cmark_chunk_set_cstr c (Some (s @ [NUL])) =
    Inr \<lparr>ch_data = Some (s @ [NUL]), ch_len = int (length s), ch_alloc = True\<rparr>"
proof -
  have "takeWhile (\<lambda>x. x \<noteq> NUL) (s @ [NUL]) = s" using assms by (induction s) auto
  then show ?thesis
    using assms(2) by (simp add: cmark_chunk_set_cstr_def strlen_i32_def strlen_def add_i32_def int32_def INT32_MIN_def)
qed

text \<open>
  Of the payload of a node of type \<open>t\<close>, only the string at \<open>m\<close> is changed, to \<open>s\<close>: every other string of the node and the
  fence of a code block are as before.
\<close>

definition fence :: "node_as \<Rightarrow> (8 word \<times> 8 word \<times> byte \<times> 8 word) res" where
  "fence a = bindr (as_code a) (\<lambda>k. Inr (fence_length k, fence_offset k, fence_char k, fenced k))"

definition only_string :: "node_type \<Rightarrow> chunk_member \<Rightarrow> byte list \<Rightarrow> node_as \<Rightarrow> node_as \<Rightarrow> bool" where
  "only_string t m s a a' \<longleftrightarrow>
     (\<exists>c. get_chunk m a' = Inr c \<and> chunk_ok c \<and> chunk_bytes c = s) \<and>
     (\<forall>m' \<in> set (chunk_members t). m' \<noteq> m \<longrightarrow> get_chunk m' a' = get_chunk m' a) \<and>
     (t = CMARK_NODE_CODE_BLOCK \<longrightarrow> fence a' = fence a)"

lemma set_only_string:
  assumes "m \<in> set (chunk_members t)" "payload_ok t a" "chunk_ok c" "chunk_bytes c = s"
  shows "only_string t m s a (set_chunk m c a)"
proof -
  obtain c0 where c0: "get_chunk m a = Inr c0"
    using payload_chunk [OF assms(2,1)] by (auto simp: chunk_at_ok_iff)
  have "get_chunk m' (set_chunk m c a) = get_chunk m' a" if m': "m' \<in> set (chunk_members t)" "m' \<noteq> m" for m'
  proof -
    obtain c1 where c1: "get_chunk m' a = Inr c1"
      using payload_chunk [OF assms(2) m'(1)] by (auto simp: chunk_at_ok_iff)
    with get_set_chunk_other [OF c0 c1 m'(2) assms(1) m'(1)] show ?thesis by simp
  qed
  moreover have "fence (set_chunk m c a) = fence a" if t: "t = CMARK_NODE_CODE_BLOCK"
  proof -
    have "m = M_code_info \<or> m = M_code_literal" using assms(1) t by (auto simp: chunk_members_def)
    with c0 show ?thesis by (cases a; auto simp: fence_def as_code_def code_zero_def)
  qed
  ultimately show ?thesis using assms(3,4) by (simp add: only_string_def)
qed

text \<open>
  \<open>stores h p m s r g\<close>: the setter's result \<open>r\<close> is 1, afterwards the getter \<open>g\<close> returns \<open>s\<close>, and the string at \<open>m\<close> of the
  node \<open>p\<close> is all that has changed in the heap.
\<close>

definition stores ::
  "heap \<Rightarrow> nptr \<Rightarrow> chunk_member \<Rightarrow> byte list \<Rightarrow> (bool \<times> heap) res \<Rightarrow> (heap \<Rightarrow> (byte list option \<times> heap) res) \<Rightarrow> bool" where
  "stores h p m s r g \<longleftrightarrow>
     (\<exists>n a h'. cell h p = Some n \<and> h' = h[p := Some (n\<lparr>n_as := a\<rparr>)] \<and> r = Inr (True, h') \<and>
        g h' = Inr (Some (s @ [NUL]), h') \<and> only_string (n_type n) m s (n_as n) a \<and> payload_ok (n_type n) a)"

lemma storesI:
  assumes n: "cell h p = Some n" and ok: "payload_ok (n_type n) (n_as n)" and s: "NUL \<notin> set s"
    and len: "int (length s) \<le> INT32_MAX"
    and sel: "sel (n_type n) = Some m" "sel' (n_type n) = Some m" and m: "m \<in> set (chunk_members (n_type n))"
  shows "stores h p m s (set_string h (Some p) sel (Some (s @ [NUL]))) (\<lambda>h'. get_string h' (Some p) sel')"
proof -
  let ?c = "\<lparr>ch_data = Some (s @ [NUL]), ch_len = int (length s), ch_alloc = True\<rparr>"
  let ?n = "n\<lparr>n_as := set_chunk m ?c (n_as n)\<rparr>"
  let ?h = "h[p := Some ?n]"
  obtain c where c: "get_chunk m (n_as n) = Inr c"
    using payload_chunk [OF ok m] by (auto simp: chunk_at_ok_iff)
  have p: "p < length h" using n by (rule cell_length)
  have n': "cell ?h p = Some ?n" using p by (simp add: heap)
  have "set_string h (Some p) sel (Some (s @ [NUL])) = Inr (True, ?h)"
    using n sel c s len
    by (simp add: set_string_def on_node_def chunk_set_cstr_at_def on_chunk_def heap set_cstr_ok)
  moreover have "set_chunk m ?c (set_chunk m ?c (n_as n)) = set_chunk m ?c (n_as n)"
    by (cases m; cases "n_as n") simp_all
  then have "get_string ?h (Some p) sel' = Inr (Some (s @ [NUL]), ?h)"
    using n' sel
    by (simp add: get_string_def on_node_def chunk_to_cstr_at_def on_chunk_def deref_heap update_Inr
        cmark_chunk_to_cstr_def)
  moreover have "chunk_ok ?c" "chunk_bytes ?c = s" using chunk_okI [of ?c s "[NUL]"] by simp_all
  then have "payload_ok (n_type n) (set_chunk m ?c (n_as n))" "only_string (n_type n) m s (n_as n) (set_chunk m ?c (n_as n))"
    using set_chunk_payload_ok [OF ok m] set_only_string [OF m ok] by simp_all
  ultimately show ?thesis using n unfolding stores_def by blast
qed

text \<open>The string content of a block, which is a buffer of the node.\<close>

lemma set_content_ok:
  assumes n: "cell h p = Some n" and ok: "strbuf_ok (n_content n)" and s: "NUL \<notin> set s"
    and len: "int (length s) \<le> grow_limit"
  shows "\<exists>b h' rest. h' = h[p := Some (n\<lparr>n_content := b\<rparr>)] \<and> strbuf_ok b \<and> contents b = s \<and>
    cmark_node_set_string_content h p (Some (s @ [NUL])) = Inr (True, h') \<and>
    cmark_node_get_string_content h' p = Inr (s @ NUL # rest)"
proof -
  have i: "int32 (int (length s))" using len by (simp add: int32_def INT32_MIN_def grow_limit_def INT32_MAX_def)
  have st: "strlen_i32 (s @ [NUL]) = Inr (int (length s))"
    using i by (simp add: strlen_i32_def strlen_def takeWhile_literal [OF s] add_i32_def)
  have "becomes (cmark_strbuf_set (n_content n) (Block (s @ [NUL])) (int (length s))) s"
  proof (cases "s = []")
    case True
    then show ?thesis using clear_becomes [OF ok] by (simp add: cmark_strbuf_set_def)
  next
    case False
    then show ?thesis using set_block [of "n_content n" "int (length s)" "s @ [NUL]"] ok_inv [OF ok] len by simp
  qed
  then obtain b where b: "cmark_strbuf_set (n_content n) (Block (s @ [NUL])) (int (length s)) = Inr b"
      "strbuf_ok b" "contents b = s" by (auto simp: becomes_def)
  obtain rest where "ptr b = s @ NUL # rest" using b(2) by (rule strbuf_ok_form) (simp add: b(3))
  moreover have "cmark_node_set_string_content h p (Some (s @ [NUL])) = Inr (True, h[p := Some (n\<lparr>n_content := b\<rparr>)])"
    using b(1) n st by (simp add: cmark_node_set_string_content_def cmark_strbuf_sets_def heap)
  moreover have "cmark_node_get_string_content (h[p := Some (n\<lparr>n_content := b\<rparr>)]) p = Inr (ptr b)"
    using cell_length [OF n] by (simp add: cmark_node_get_string_content_def heap)
  ultimately show ?thesis using b(2,3) by auto
qed

section \<open>Properties\<close>

text \<open>
  C28: Every string setter of a node stores what the getter returns: on a node of a type that has the string
  and whose payload is well-typed, the setter returns 1, the getter then returns the same string, and that string is all
  that changes: no other cell, no other field of the node, no other string of its payload and no fence of a
  code block.  The same holds for the string content of any node.  (The string must fit \<open>bufsize_t\<close>, or the buffer.)
\<close>

theorem string_accessors:
  assumes "cell h p = Some n" "payload_ok (n_type n) (n_as n)" "NUL \<notin> set s"
    and "int (length s) \<le> INT32_MAX"
  shows
    "(n_type n \<in> {CMARK_NODE_HTML_BLOCK, CMARK_NODE_TEXT, CMARK_NODE_HTML_INLINE, CMARK_NODE_CODE,
        CMARK_NODE_FOOTNOTE_REFERENCE, CMARK_NODE_CODE_BLOCK} \<longrightarrow>
      stores h p (if n_type n = CMARK_NODE_CODE_BLOCK then M_code_literal else M_literal) s (cmark_node_set_literal h (Some p) (Some (s @ [NUL])))
        (\<lambda>h. cmark_node_get_literal h (Some p))) \<and>
    (n_type n \<in> {CMARK_NODE_LINK, CMARK_NODE_IMAGE} \<longrightarrow>
      stores h p M_link_url s (cmark_node_set_url h (Some p) (Some (s @ [NUL]))) (\<lambda>h. cmark_node_get_url h (Some p)) \<and>
      stores h p M_link_title s (cmark_node_set_title h (Some p) (Some (s @ [NUL]))) (\<lambda>h. cmark_node_get_title h (Some p))) \<and>
    (n_type n = CMARK_NODE_CODE_BLOCK \<longrightarrow>
      stores h p M_code_info s (cmark_node_set_fence_info h (Some p) (Some (s @ [NUL])))
        (\<lambda>h. cmark_node_get_fence_info h (Some p))) \<and>
    (n_type n = CMARK_NODE_ATTRIBUTE \<longrightarrow>
      stores h p M_attributes s (cmark_node_set_attributes h (Some p) (Some (s @ [NUL])))
        (\<lambda>h. cmark_node_get_attributes h (Some p))) \<and>
    (n_type n \<in> {CMARK_NODE_CUSTOM_INLINE, CMARK_NODE_CUSTOM_BLOCK} \<longrightarrow>
      stores h p M_on_enter s (cmark_node_set_on_enter h (Some p) (Some (s @ [NUL])))
        (\<lambda>h. cmark_node_get_on_enter h (Some p)) \<and>
      stores h p M_on_exit s (cmark_node_set_on_exit h (Some p) (Some (s @ [NUL])))
        (\<lambda>h. cmark_node_get_on_exit h (Some p))) \<and>
    (strbuf_ok (n_content n) \<and> int (length s) \<le> grow_limit \<longrightarrow>
      (\<exists>b h' rest. h' = h[p := Some (n\<lparr>n_content := b\<rparr>)] \<and> strbuf_ok b \<and> contents b = s \<and>
        cmark_node_set_string_content h p (Some (s @ [NUL])) = Inr (True, h') \<and>
        cmark_node_get_string_content h' p = Inr (s @ NUL # rest)))"
proof (intro conjI impI)
  note st = storesI [OF assms] and ms = chunk_members_def
  assume t: "n_type n \<in> {CMARK_NODE_HTML_BLOCK, CMARK_NODE_TEXT, CMARK_NODE_HTML_INLINE,
    CMARK_NODE_CODE, CMARK_NODE_FOOTNOTE_REFERENCE, CMARK_NODE_CODE_BLOCK}"
  show "stores h p (if n_type n = CMARK_NODE_CODE_BLOCK then M_code_literal else M_literal) s (cmark_node_set_literal h (Some p) (Some (s @ [NUL])))
      (\<lambda>h. cmark_node_get_literal h (Some p))"
    unfolding cmark_node_set_literal_def cmark_node_get_literal_def
    by (rule st [where m = "if n_type n = CMARK_NODE_CODE_BLOCK then M_code_literal else M_literal"];
        use t in \<open>auto simp: ms\<close>)
next
  note st = storesI [OF assms] and ms = chunk_members_def
  assume t: "n_type n \<in> {CMARK_NODE_LINK, CMARK_NODE_IMAGE}"
  show "stores h p M_link_url s (cmark_node_set_url h (Some p) (Some (s @ [NUL]))) (\<lambda>h. cmark_node_get_url h (Some p))"
    unfolding cmark_node_set_url_def cmark_node_get_url_def
    by (rule st [where m = M_link_url]; use t in \<open>auto simp: ms\<close>)
  show "stores h p M_link_title s (cmark_node_set_title h (Some p) (Some (s @ [NUL]))) (\<lambda>h. cmark_node_get_title h (Some p))"
    unfolding cmark_node_set_title_def cmark_node_get_title_def
    by (rule st [where m = M_link_title]; use t in \<open>auto simp: ms\<close>)
next
  note st = storesI [OF assms] and ms = chunk_members_def
  assume t: "n_type n = CMARK_NODE_CODE_BLOCK"
  show "stores h p M_code_info s (cmark_node_set_fence_info h (Some p) (Some (s @ [NUL]))) (\<lambda>h. cmark_node_get_fence_info h (Some p))"
    unfolding cmark_node_set_fence_info_def cmark_node_get_fence_info_def
    by (rule st [where m = M_code_info]; use t in \<open>auto simp: ms\<close>)
next
  note st = storesI [OF assms] and ms = chunk_members_def
  assume t: "n_type n = CMARK_NODE_ATTRIBUTE"
  show "stores h p M_attributes s (cmark_node_set_attributes h (Some p) (Some (s @ [NUL]))) (\<lambda>h. cmark_node_get_attributes h (Some p))"
    unfolding cmark_node_set_attributes_def cmark_node_get_attributes_def
    by (rule st [where m = M_attributes]; use t in \<open>auto simp: ms\<close>)
next
  note st = storesI [OF assms] and ms = chunk_members_def
  assume t: "n_type n \<in> {CMARK_NODE_CUSTOM_INLINE, CMARK_NODE_CUSTOM_BLOCK}"
  show "stores h p M_on_enter s (cmark_node_set_on_enter h (Some p) (Some (s @ [NUL]))) (\<lambda>h. cmark_node_get_on_enter h (Some p))"
    unfolding cmark_node_set_on_enter_def cmark_node_get_on_enter_def
    by (rule st [where m = M_on_enter]; use t in \<open>auto simp: ms\<close>)
  show "stores h p M_on_exit s (cmark_node_set_on_exit h (Some p) (Some (s @ [NUL]))) (\<lambda>h. cmark_node_get_on_exit h (Some p))"
    unfolding cmark_node_set_on_exit_def cmark_node_get_on_exit_def
    by (rule st [where m = M_on_exit]; use t in \<open>auto simp: ms\<close>)
next
  assume "strbuf_ok (n_content n) \<and> int (length s) \<le> grow_limit"
  with set_content_ok [OF assms(1) _ assms(3)]
  show "\<exists>b h' rest. h' = h[p := Some (n\<lparr>n_content := b\<rparr>)] \<and> strbuf_ok b \<and> contents b = s \<and>
      cmark_node_set_string_content h p (Some (s @ [NUL])) = Inr (True, h') \<and>
      cmark_node_get_string_content h' p = Inr (s @ NUL # rest)" by blast
qed

definition sample_mem :: cmark_mem where
  "sample_mem = \<lparr>mem_id = 0, fresh = \<lambda>_. 0xAA\<rparr>"

definition sample_node :: "node_type \<Rightarrow> node_as \<Rightarrow> cmark_node" where
  "sample_node t a = (node_zero sample_mem)\<lparr>n_type := t, n_as := a\<rparr>"

theorem string_accessors_witness:
  "stores [Some (sample_node CMARK_NODE_LINK As_zero)] 0 M_link_url (str ''/url'')
     (cmark_node_set_url [Some (sample_node CMARK_NODE_LINK As_zero)] (Some 0) (Some (str ''/url'' @ [NUL])))
     (\<lambda>h. cmark_node_get_url h (Some 0))"
proof -
  let ?n = "sample_node CMARK_NODE_LINK As_zero"
  have "cell [Some ?n] 0 = Some ?n" by (simp add: cell_def)
  moreover have "payload_ok (n_type ?n) (n_as ?n)" "NUL \<notin> set (str ''/url'')" "n_type ?n = CMARK_NODE_LINK"
    by code_simp+
  moreover have "int (length (str ''/url'')) \<le> INT32_MAX" by code_simp
  ultimately show ?thesis using string_accessors [of "[Some ?n]" 0 ?n "str ''/url''"] by simp
qed

end
