(* ===== verification/Node_Links.thy ===== *)
theory Node_Links
  imports Node
begin

text \<open>
  Linking and unlinking of nodes, freeing of trees and the consistency check: the second part of
  src/src/node.c.

  The five pointers of each node are read through \<open>nx\<close>, \<open>pv\<close>, \<open>pa\<close>, \<open>fc\<close> and \<open>lc\<close>.  The abstract view
  of a heap is the function \<open>kids\<close> that gives the list of children of each node; \<open>links h kids\<close> says
  that the pointers of \<open>h\<close> are the doubly linked sibling lists with parent, first and last child
  pointers that represent \<open>kids\<close>.  Each linking operation is shown to refine the list operation
  that it is meant to be (\<open>without\<close>, \<open>ins_before\<close>, \<open>ins_after\<close>, cons and append) and to change nothing
  but links.  \<open>forest\<close> adds that the parent pointers have no cycle; with the safety checks enabled
  every operation keeps it.
\<close>

section \<open>The code\<close>

definition S_node_unlink :: "heap \<Rightarrow> nptr option \<Rightarrow> heap res" where
  "S_node_unlink h node =
     (case node of None \<Rightarrow> Inr h | Some p \<Rightarrow>
        bindr (deref h p) (\<lambda>n.
        bindr (update_opt h (n_prev n) (n_next_update (\<lambda>_. n_next n))) (\<lambda>h.
        bindr (deref h p) (\<lambda>n.
        bindr (update_opt h (n_next n) (n_prev_update (\<lambda>_. n_prev n))) (\<lambda>h.
        bindr (deref h p) (\<lambda>n.
        case n_parent n of None \<Rightarrow> Inr h | Some q \<Rightarrow>
          bindr (deref h q) (\<lambda>r.
          bindr (if n_first r = Some p then update h q (n_first_update (\<lambda>_. n_next n)) else Inr h) (\<lambda>h.
          bindr (deref h q) (\<lambda>r.
          bindr (deref h p) (\<lambda>n.
          if n_last r = Some p then update h q (n_last_update (\<lambda>_. n_prev n)) else Inr h))))))))))"

definition cmark_node_unlink :: "heap \<Rightarrow> nptr option \<Rightarrow> heap res" where
  "cmark_node_unlink h node =
     bindr (S_node_unlink h node) (\<lambda>h.
     case node of None \<Rightarrow> Inl Null_deref | Some p \<Rightarrow>
       update h p (\<lambda>n. n\<lparr>n_next := None, n_prev := None, n_parent := None\<rparr>))"

definition cmark_node_insert_before ::
  "node_env \<Rightarrow> heap \<Rightarrow> nptr option \<Rightarrow> nptr option \<Rightarrow> (bool \<times> heap) res" where
  "cmark_node_insert_before env h node sibling =
     (case (node, sibling) of
        (Some p, Some s) \<Rightarrow>
          bindr (deref h p) (\<lambda>n.
          if n_parent n = None then Inr (False, h)
          else
            bindr (S_can_contain env h (n_parent n) (Some s)) (\<lambda>ok.
            if \<not> ok then Inr (False, h)
            else
              bindr (S_node_unlink h (Some s)) (\<lambda>h.
              bindr (deref h p) (\<lambda>n.
              let old_prev = n_prev n in
              bindr (update_opt h old_prev (n_next_update (\<lambda>_. Some s))) (\<lambda>h.
              bindr (update h s (n_prev_update (\<lambda>_. old_prev))) (\<lambda>h.
              bindr (update h s (n_next_update (\<lambda>_. Some p))) (\<lambda>h.
              bindr (update h p (n_prev_update (\<lambda>_. Some s))) (\<lambda>h.
              bindr (deref h p) (\<lambda>n.
              let parent = n_parent n in
              bindr (update h s (n_parent_update (\<lambda>_. parent))) (\<lambda>h.
              bindr (if parent \<noteq> None \<and> old_prev = None
                     then update_opt h parent (n_first_update (\<lambda>_. Some s)) else Inr h) (\<lambda>h.
              Inr (True, h))))))))))))
      | _ \<Rightarrow> Inr (False, h))"

definition cmark_node_insert_after ::
  "node_env \<Rightarrow> heap \<Rightarrow> nptr option \<Rightarrow> nptr option \<Rightarrow> (bool \<times> heap) res" where
  "cmark_node_insert_after env h node sibling =
     (case (node, sibling) of
        (Some p, Some s) \<Rightarrow>
          bindr (deref h p) (\<lambda>n.
          if n_parent n = None then Inr (False, h)
          else
            bindr (S_can_contain env h (n_parent n) (Some s)) (\<lambda>ok.
            if \<not> ok then Inr (False, h)
            else
              bindr (S_node_unlink h (Some s)) (\<lambda>h.
              bindr (deref h p) (\<lambda>n.
              let old_next = n_next n in
              bindr (update_opt h old_next (n_prev_update (\<lambda>_. Some s))) (\<lambda>h.
              bindr (update h s (n_next_update (\<lambda>_. old_next))) (\<lambda>h.
              bindr (update h s (n_prev_update (\<lambda>_. Some p))) (\<lambda>h.
              bindr (update h p (n_next_update (\<lambda>_. Some s))) (\<lambda>h.
              bindr (deref h p) (\<lambda>n.
              let parent = n_parent n in
              bindr (update h s (n_parent_update (\<lambda>_. parent))) (\<lambda>h.
              bindr (if parent \<noteq> None \<and> old_next = None
                     then update_opt h parent (n_last_update (\<lambda>_. Some s)) else Inr h) (\<lambda>h.
              Inr (True, h))))))))))))
      | _ \<Rightarrow> Inr (False, h))"

definition cmark_node_replace ::
  "node_env \<Rightarrow> heap \<Rightarrow> nptr option \<Rightarrow> nptr option \<Rightarrow> (bool \<times> heap) res" where
  "cmark_node_replace env h oldnode newnode =
     bindr (cmark_node_insert_before env h oldnode newnode) (\<lambda>(ok, h).
     if \<not> ok then Inr (False, h)
     else bindr (cmark_node_unlink h oldnode) (\<lambda>h. Inr (True, h)))"

definition cmark_node_prepend_child ::
  "node_env \<Rightarrow> heap \<Rightarrow> nptr option \<Rightarrow> nptr option \<Rightarrow> (bool \<times> heap) res" where
  "cmark_node_prepend_child env h node child =
     bindr (S_can_contain env h node child) (\<lambda>ok.
     case (ok, node, child) of
       (True, Some p, Some c) \<Rightarrow>
         bindr (S_node_unlink h (Some c)) (\<lambda>h.
         bindr (deref h p) (\<lambda>n.
         let old_first_child = n_first n in
         bindr (update h c (n_next_update (\<lambda>_. old_first_child))) (\<lambda>h.
         bindr (update h c (n_prev_update (\<lambda>_. None))) (\<lambda>h.
         bindr (update h c (n_parent_update (\<lambda>_. Some p))) (\<lambda>h.
         bindr (update h p (n_first_update (\<lambda>_. Some c))) (\<lambda>h.
         bindr (case old_first_child of
                  Some f \<Rightarrow> update h f (n_prev_update (\<lambda>_. Some c))
                | None \<Rightarrow> update h p (n_last_update (\<lambda>_. Some c))) (\<lambda>h.
         Inr (True, h))))))))
     | _ \<Rightarrow> Inr (False, h))"

definition cmark_node_append_child ::
  "node_env \<Rightarrow> heap \<Rightarrow> nptr option \<Rightarrow> nptr option \<Rightarrow> (bool \<times> heap) res" where
  "cmark_node_append_child env h node child =
     bindr (S_can_contain env h node child) (\<lambda>ok.
     case (ok, node, child) of
       (True, Some p, Some c) \<Rightarrow>
         bindr (S_node_unlink h (Some c)) (\<lambda>h.
         bindr (deref h p) (\<lambda>n.
         let old_last_child = n_last n in
         bindr (update h c (n_next_update (\<lambda>_. None))) (\<lambda>h.
         bindr (update h c (n_prev_update (\<lambda>_. old_last_child))) (\<lambda>h.
         bindr (update h c (n_parent_update (\<lambda>_. Some p))) (\<lambda>h.
         bindr (update h p (n_last_update (\<lambda>_. Some c))) (\<lambda>h.
         bindr (case old_last_child of
                  Some f \<Rightarrow> update h f (n_next_update (\<lambda>_. Some c))
                | None \<Rightarrow> update h p (n_first_update (\<lambda>_. Some c))) (\<lambda>h.
         Inr (True, h))))))))
     | _ \<Rightarrow> Inr (False, h))"

section \<open>Sibling lists\<close>

text \<open>The element that follows \<open>p\<close> in a list; in the reversed list, the one before it.\<close>

fun next_in :: "'a list \<Rightarrow> 'a \<Rightarrow> 'a option" where
  "next_in [] p = None"
| "next_in (x # xs) p = (if x = p then hd_opt xs else next_in xs p)"

definition prev_in :: "'a list \<Rightarrow> 'a \<Rightarrow> 'a option" where
  "prev_in xs p = next_in (rev xs) p"

fun ins_before :: "'a \<Rightarrow> 'a \<Rightarrow> 'a list \<Rightarrow> 'a list" where
  "ins_before s p [] = []"
| "ins_before s p (x # xs) = (if x = p then s # x # xs else x # ins_before s p xs)"

fun ins_after :: "'a \<Rightarrow> 'a \<Rightarrow> 'a list \<Rightarrow> 'a list" where
  "ins_after s p [] = []"
| "ins_after s p (x # xs) = (if x = p then x # s # xs else x # ins_after s p xs)"

named_theorems siblings \<open>neighbours in edited sibling lists\<close>

lemma next_in_set: "next_in xs p = Some q \<Longrightarrow> p \<in> set xs \<and> q \<in> set xs"
  by (induction xs) (auto split: if_splits dest: hd_opt_in)

lemma next_in_None [simp]: "p \<notin> set xs \<Longrightarrow> next_in xs p = None"
  by (induction xs) auto

lemma next_in_neq: "distinct xs \<Longrightarrow> next_in xs p = Some q \<Longrightarrow> q \<noteq> p"
  by (induction xs) (auto split: if_splits dest: hd_opt_in)

lemma next_in_append:
  "next_in (xs @ ys) p = (if p \<in> set xs then
     (case next_in xs p of Some q \<Rightarrow> Some q | None \<Rightarrow> hd_opt ys) else next_in ys p)"
  by (induction xs) (auto split: option.splits)

lemma next_in_split: "p \<notin> set xs \<Longrightarrow> next_in (xs @ p # ys) p = hd_opt ys"
  by (simp add: next_in_append)

lemma next_in_eq_SomeD:
  "next_in xs p = Some q \<Longrightarrow> \<exists>as bs. xs = as @ p # q # bs"
proof (induction xs)
  case (Cons x xs)
  show ?case
  proof (cases "x = p")
    case True
    with Cons.prems obtain bs where "xs = q # bs" by (cases xs) auto
    with True have "x # xs = [] @ p # q # bs" by simp
    then show ?thesis by blast
  next
    case False
    with Cons obtain as bs where "xs = as @ p # q # bs" by auto
    then have "x # xs = (x # as) @ p # q # bs" by simp
    then show ?thesis by blast
  qed
qed simp

lemma next_in_prev_in: "distinct xs \<Longrightarrow> next_in xs p = Some q \<longleftrightarrow> prev_in xs q = Some p"
proof -
  have one: "distinct xs \<Longrightarrow> next_in xs p = Some q \<Longrightarrow> next_in (rev xs) q = Some p" for xs :: "'a list" and p q
    by (auto dest!: next_in_eq_SomeD simp: next_in_append)
  assume "distinct xs"
  then show ?thesis using one [of xs p q] one [of "rev xs" q p] by (auto simp: prev_in_def)
qed

lemma hd_opt_prev_in: "distinct xs \<Longrightarrow> p \<in> set xs \<Longrightarrow> hd_opt xs = Some p \<longleftrightarrow> prev_in xs p = None"
  by (cases xs) (auto simp: prev_in_def next_in_append split: option.splits dest: next_in_set)

lemma hd_rev_next_in: "distinct xs \<Longrightarrow> p \<in> set xs \<Longrightarrow> hd_opt (rev xs) = Some p \<longleftrightarrow> next_in xs p = None"
  using hd_opt_prev_in [of "rev xs" p] by (simp add: prev_in_def)

lemma hd_opt_removeAll [siblings]:
  "distinct xs \<Longrightarrow> hd_opt (removeAll p xs) = (if hd_opt xs = Some p then next_in xs p else hd_opt xs)"
  by (cases xs) auto

lemma next_in_removeAll [siblings]:
  "distinct xs \<Longrightarrow> c \<noteq> p \<Longrightarrow>
     next_in (removeAll p xs) c = (if next_in xs c = Some p then next_in xs p else next_in xs c)"
  by (induction xs) (auto simp: hd_opt_removeAll dest: hd_opt_in)

lemma prev_in_removeAll [siblings]:
  "distinct xs \<Longrightarrow> c \<noteq> p \<Longrightarrow>
     prev_in (removeAll p xs) c = (if prev_in xs c = Some p then prev_in xs p else prev_in xs c)"
  unfolding prev_in_def using next_in_removeAll [of "rev xs" c p] by (simp add: removeAll_filter_not_eq rev_filter)

lemma ins_before_id [simp]: "p \<notin> set xs \<Longrightarrow> ins_before s p xs = xs"
  by (induction xs) auto

lemma ins_after_id [simp]: "p \<notin> set xs \<Longrightarrow> ins_after s p xs = xs"
  by (induction xs) auto

lemma ins_before_split: "p \<notin> set as \<Longrightarrow> ins_before s p (as @ p # bs) = as @ s # p # bs"
  by (induction as) auto

lemma ins_after_split: "p \<notin> set as \<Longrightarrow> ins_after s p (as @ p # bs) = as @ p # s # bs"
  by (induction as) auto

lemma set_ins_before [simp]: "p \<in> set xs \<Longrightarrow> set (ins_before s p xs) = insert s (set xs)"
  by (induction xs) auto

lemma set_ins_after [simp]: "p \<in> set xs \<Longrightarrow> set (ins_after s p xs) = insert s (set xs)"
  by (induction xs) auto

lemma distinct_ins_before: "distinct xs \<Longrightarrow> s \<notin> set xs \<Longrightarrow> distinct (ins_before s p xs)"
  by (induction xs) (auto, metis ins_before_id insertE set_ins_before)

lemma rev_ins_before: "distinct xs \<Longrightarrow> rev (ins_before s p xs) = ins_after s p (rev xs)"
proof (cases "p \<in> set xs")
  case True
  assume "distinct xs"
  with True obtain as bs where xs: "xs = as @ p # bs" "p \<notin> set as" "p \<notin> set bs"
    by (metis distinct.simps(2) distinct_append not_distinct_conv_prefix split_list_first)
  then show ?thesis using ins_after_split [of p "rev bs" s "rev as"] by (simp add: ins_before_split)
qed simp

lemma rev_ins_after: "distinct xs \<Longrightarrow> rev (ins_after s p xs) = ins_before s p (rev xs)"
  using rev_ins_before [of "rev xs" s p] by (simp add: rev_swap)

lemma distinct_ins_after: "distinct xs \<Longrightarrow> s \<notin> set xs \<Longrightarrow> distinct (ins_after s p xs)"
  using distinct_ins_before [of "rev xs" s p] rev_ins_after [of xs s p]
  by (metis distinct_rev set_rev)

lemma hd_opt_ins_before [siblings]:
  "hd_opt (ins_before s p xs) = (if hd_opt xs = Some p then Some s else hd_opt xs)"
  by (cases xs) auto

lemma hd_opt_ins_after [siblings]: "hd_opt (ins_after s p xs) = hd_opt xs"
  by (cases xs) auto

lemma next_in_ins_before [siblings]:
  "distinct xs \<Longrightarrow> s \<notin> set xs \<Longrightarrow> p \<in> set xs \<Longrightarrow>
     next_in (ins_before s p xs) c =
       (if c = s then Some p else if next_in xs c = Some p then Some s else next_in xs c)"
proof (induction xs)
  case (Cons x xs)
  then show ?case by (cases "x = p") (auto simp: hd_opt_ins_before dest: next_in_set hd_opt_in)
qed simp

lemma next_in_ins_after [siblings]:
  "distinct xs \<Longrightarrow> s \<notin> set xs \<Longrightarrow> p \<in> set xs \<Longrightarrow>
     next_in (ins_after s p xs) c =
       (if c = s then next_in xs p else if c = p then Some s else next_in xs c)"
  by (induction xs) (auto simp: hd_opt_ins_after)

section \<open>The pointers of a heap\<close>

record links_view =
  live :: "nptr \<Rightarrow> bool"
  nx :: "nptr \<Rightarrow> nptr option"
  pv :: "nptr \<Rightarrow> nptr option"
  pa :: "nptr \<Rightarrow> nptr option"
  fc :: "nptr \<Rightarrow> nptr option"
  lc :: "nptr \<Rightarrow> nptr option"

definition view :: "heap \<Rightarrow> links_view" where
  "view h = \<lparr>live = (\<lambda>p. cell h p \<noteq> None), nx = (\<lambda>p. Option.bind (cell h p) n_next),
     pv = (\<lambda>p. Option.bind (cell h p) n_prev), pa = (\<lambda>p. Option.bind (cell h p) n_parent),
     fc = (\<lambda>p. Option.bind (cell h p) n_first), lc = (\<lambda>p. Option.bind (cell h p) n_last)\<rparr>"

text \<open>Everything in a node but its links; and heaps that differ in links only.\<close>

definition no_links :: "cmark_node \<Rightarrow> cmark_node" where
  "no_links n = n\<lparr>n_next := None, n_prev := None, n_parent := None, n_first := None, n_last := None\<rparr>"

definition same_data :: "heap \<Rightarrow> heap \<Rightarrow> bool" where
  "same_data h h' \<longleftrightarrow>
     length h' = length h \<and> (\<forall>p. map_option no_links (cell h' p) = map_option no_links (cell h p))"

lemma same_data_refl [simp]: "same_data h h"
  by (simp add: same_data_def)

lemma same_data_trans: "same_data h h' \<Longrightarrow> same_data h' h'' \<Longrightarrow> same_data h h''"
  by (simp add: same_data_def)

text \<open>
  Runs over the view: \<open>runs m P\<close> says that \<open>m\<close> does not fail and that its result satisfies \<open>P\<close>.
\<close>

definition runs :: "'a res \<Rightarrow> ('a \<Rightarrow> bool) \<Rightarrow> bool" where
  "runs m P \<longleftrightarrow> (\<exists>x. m = Inr x \<and> P x)"

named_theorems run \<open>rules for runs of linking operations\<close>

lemma runs_Inr [run]: "P x \<Longrightarrow> runs (Inr x) P"
  by (simp add: runs_def)

lemma runs_bindr: "runs m (\<lambda>x. runs (f x) P) \<Longrightarrow> runs (bindr m f) P"
  by (auto simp: runs_def)

lemma runs_mono: "runs m P \<Longrightarrow> (\<And>x. P x \<Longrightarrow> Q x) \<Longrightarrow> runs m Q"
  by (auto simp: runs_def)

lemma runs_deref [run]:
  assumes "live (view h) p"
    "\<And>n. n_next n = nx (view h) p \<Longrightarrow> n_prev n = pv (view h) p \<Longrightarrow> n_parent n = pa (view h) p \<Longrightarrow>
       n_first n = fc (view h) p \<Longrightarrow> n_last n = lc (view h) p \<Longrightarrow> cell h p = Some n \<Longrightarrow> runs (f n) P"
  shows "runs (bindr (deref h p) f) P"
proof -
  obtain n where "cell h p = Some n" using assms(1) by (auto simp: view_def)
  with assms(2) [of n] show ?thesis by (simp add: deref_heap view_def)
qed

lemma cell_update_view:
  assumes "cell h q = Some n"
  shows "cell (h[q := Some m]) p = (if p = q then Some m else cell h p)"
  using cell_length [OF assms] by (simp add: heap)

lemma run_update:
  assumes "live (view h) q"
    and "\<And>n. cell h q = Some n \<Longrightarrow> no_links (f n) = no_links n"
    and "\<And>n. cell h q = Some n \<Longrightarrow>
       \<lparr>live = live (view h), nx = (nx (view h))(q := n_next (f n)), pv = (pv (view h))(q := n_prev (f n)),
        pa = (pa (view h))(q := n_parent (f n)), fc = (fc (view h))(q := n_first (f n)),
        lc = (lc (view h))(q := n_last (f n))\<rparr> = v"
    and "\<And>h'. view h' = v \<Longrightarrow> same_data h h' \<Longrightarrow> P h'"
  shows "runs (update h q f) P"
proof -
  obtain n where n: "cell h q = Some n" using assms(1) by (auto simp: view_def)
  let ?h = "h[q := Some (f n)]"
  have "view ?h = v"
    using assms(3) [OF n, symmetric] by (auto simp: view_def cell_update_view [OF n] n fun_eq_iff)
  moreover have "same_data h ?h"
    using assms(2) [OF n] n by (simp add: same_data_def cell_update_view [OF n])
  ultimately have "P ?h" by (rule assms(4))
  then show ?thesis using n by (simp add: runs_def update_Inr)
qed

lemma view_sel:
  "cell h p = Some n \<Longrightarrow> n_next n = nx (view h) p" "cell h p = Some n \<Longrightarrow> n_prev n = pv (view h) p"
  "cell h p = Some n \<Longrightarrow> n_parent n = pa (view h) p" "cell h p = Some n \<Longrightarrow> n_first n = fc (view h) p"
  "cell h p = Some n \<Longrightarrow> n_last n = lc (view h) p"
  by (simp_all add: view_def)

lemma runs_set [run]:
  assumes "live (view h) q"
  shows
    "(\<And>h'. view h' = (view h)\<lparr>nx := (nx (view h))(q := x)\<rparr> \<Longrightarrow> same_data h h' \<Longrightarrow> P h') \<Longrightarrow>
       runs (update h q (n_next_update (\<lambda>_. x))) P"
    "(\<And>h'. view h' = (view h)\<lparr>pv := (pv (view h))(q := x)\<rparr> \<Longrightarrow> same_data h h' \<Longrightarrow> P h') \<Longrightarrow>
       runs (update h q (n_prev_update (\<lambda>_. x))) P"
    "(\<And>h'. view h' = (view h)\<lparr>pa := (pa (view h))(q := x)\<rparr> \<Longrightarrow> same_data h h' \<Longrightarrow> P h') \<Longrightarrow>
       runs (update h q (n_parent_update (\<lambda>_. x))) P"
    "(\<And>h'. view h' = (view h)\<lparr>fc := (fc (view h))(q := x)\<rparr> \<Longrightarrow> same_data h h' \<Longrightarrow> P h') \<Longrightarrow>
       runs (update h q (n_first_update (\<lambda>_. x))) P"
    "(\<And>h'. view h' = (view h)\<lparr>lc := (lc (view h))(q := x)\<rparr> \<Longrightarrow> same_data h h' \<Longrightarrow> P h') \<Longrightarrow>
       runs (update h q (n_last_update (\<lambda>_. x))) P"
  by (rule run_update [OF assms]; auto simp: no_links_def view_sel)+

lemma runs_set_opt [run]:
  assumes "\<And>q. x = Some q \<Longrightarrow> runs (update h q f) P" "x = None \<Longrightarrow> P h"
  shows "runs (update_opt h x f) P"
  using assms by (cases x) (auto simp: update_opt_def runs_Inr)

lemma runs_if [run]:
  "(b \<Longrightarrow> runs m P) \<Longrightarrow> (\<not> b \<Longrightarrow> runs m' P) \<Longrightarrow> runs (if b then m else m') P"
  by simp

section \<open>Well-linked heaps\<close>

text \<open>
  \<open>links_but X v kids\<close>: the pointers represent the children lists \<open>kids\<close>, where the nodes in \<open>X\<close> are
  children of no node and their own sibling and parent pointers may be stale.
\<close>

definition links_but :: "nptr set \<Rightarrow> links_view \<Rightarrow> (nptr \<Rightarrow> nptr list) \<Rightarrow> bool" where
  "links_but X v kids \<longleftrightarrow>
     (\<forall>q. live v q \<longrightarrow> distinct (kids q) \<and> fc v q = hd_opt (kids q) \<and> lc v q = hd_opt (rev (kids q))) \<and>
     (\<forall>q. \<not> live v q \<longrightarrow> kids q = []) \<and>
     (\<forall>q c. c \<in> set (kids q) \<longrightarrow>
        live v c \<and> c \<notin> X \<and> pa v c = Some q \<and> nx v c = next_in (kids q) c \<and> pv v c = prev_in (kids q) c) \<and>
     (\<forall>c q. live v c \<and> c \<notin> X \<and> pa v c = Some q \<longrightarrow> live v q \<and> c \<in> set (kids q)) \<and>
     (\<forall>c. live v c \<and> c \<notin> X \<and> pa v c = None \<longrightarrow> nx v c = None \<and> pv v c = None)"

definition links :: "heap \<Rightarrow> (nptr \<Rightarrow> nptr list) \<Rightarrow> bool" where
  "links h kids \<longleftrightarrow> links_but {} (view h) kids"

text \<open>The list operations.\<close>

definition without :: "nptr \<Rightarrow> (nptr \<Rightarrow> nptr list) \<Rightarrow> nptr \<Rightarrow> nptr list" where
  "without p kids = (\<lambda>q. removeAll p (kids q))"

lemma links_butD:
  assumes "links_but X v kids"
  shows "live v q \<Longrightarrow> fc v q = hd_opt (kids q)" "live v q \<Longrightarrow> lc v q = hd_opt (rev (kids q))"
    "distinct (kids q)"
    "c \<in> set (kids q) \<Longrightarrow> live v c" "c \<in> set (kids q) \<Longrightarrow> c \<notin> X" "c \<in> set (kids q) \<Longrightarrow> pa v c = Some q"
    "c \<in> set (kids q) \<Longrightarrow> nx v c = next_in (kids q) c" "c \<in> set (kids q) \<Longrightarrow> pv v c = prev_in (kids q) c"
    "c \<in> set (kids q) \<Longrightarrow> live v q"
    "live v c \<Longrightarrow> c \<notin> X \<Longrightarrow> pa v c = Some q \<Longrightarrow> live v q"
    "live v c \<Longrightarrow> c \<notin> X \<Longrightarrow> pa v c = Some q \<Longrightarrow> c \<in> set (kids q)"
    "live v c \<Longrightarrow> c \<notin> X \<Longrightarrow> pa v c = None \<Longrightarrow> nx v c = None"
    "live v c \<Longrightarrow> c \<notin> X \<Longrightarrow> pa v c = None \<Longrightarrow> pv v c = None"
    "\<not> live v q \<Longrightarrow> kids q = []"
  using assms unfolding links_but_def
  by (metis distinct.simps(1) empty_iff list.set(1))+

lemma neighbours:
  assumes "links_but X v kids" "live v p" "p \<notin> X"
  shows "nx v p = Some c \<Longrightarrow> live v c \<and> c \<noteq> p \<and> pa v c = pa v p \<and> pv v c = Some p"
    "pv v p = Some c \<Longrightarrow> live v c \<and> c \<noteq> p \<and> pa v c = pa v p \<and> nx v c = Some p"
proof -
  note D = links_butD [OF assms(1)]
  have "\<exists>q. pa v p = Some q \<and> p \<in> set (kids q)" if "nx v p = Some c \<or> pv v p = Some c"
    using that D(11-13) [OF assms(2,3)] by (cases "pa v p") auto
  moreover have "live v c \<and> c \<noteq> p \<and> pa v c = pa v p \<and> pv v c = Some p"
    if "pa v p = Some q" "p \<in> set (kids q)" "nx v p = Some c" for q
    using that D(3,4,6-8) next_in_set [of "kids q" p c] next_in_neq [of "kids q" p c]
      next_in_prev_in [of "kids q" p c]
    by auto
  moreover have "live v c \<and> c \<noteq> p \<and> pa v c = pa v p \<and> nx v c = Some p"
    if "pa v p = Some q" "p \<in> set (kids q)" "pv v p = Some c" for q
    using that D(3,4,6-8) next_in_set [of "kids q" c p] next_in_neq [of "kids q" c p]
      next_in_prev_in [of "kids q" c p]
    by auto
  ultimately show "nx v p = Some c \<Longrightarrow> live v c \<and> c \<noteq> p \<and> pa v c = pa v p \<and> pv v c = Some p"
    "pv v p = Some c \<Longrightarrow> live v c \<and> c \<noteq> p \<and> pa v c = pa v p \<and> nx v c = Some p"
    by blast+
qed

section \<open>Steps\<close>

definition put :: "nptr option \<Rightarrow> 'a \<Rightarrow> (nptr \<Rightarrow> 'a) \<Rightarrow> nptr \<Rightarrow> 'a" where
  "put x y f = (\<lambda>c. if x = Some c then y else f c)"

lemma put_simps [simp]: "put None y f = f" "put (Some q) y f = f(q := y)"
  by (auto simp: put_def)

text \<open>One assignment, in the form in which the runs below are put together.\<close>

lemma step_nx:
  assumes "\<And>q. x = Some q \<Longrightarrow> live (view h) q"
  obtains h' where "update_opt h x (n_next_update (\<lambda>_. y)) = Inr h'"
    "view h' = (view h)\<lparr>nx := put x y (nx (view h))\<rparr>" "same_data h h'"
proof -
  have "runs (update_opt h x (n_next_update (\<lambda>_. y)))
      (\<lambda>h'. view h' = (view h)\<lparr>nx := put x y (nx (view h))\<rparr> \<and> same_data h h')"
    by (rule runs_set_opt; simp add: assms runs_set)
  with that show thesis unfolding runs_def by blast
qed

lemma step_pv:
  assumes "\<And>q. x = Some q \<Longrightarrow> live (view h) q"
  obtains h' where "update_opt h x (n_prev_update (\<lambda>_. y)) = Inr h'"
    "view h' = (view h)\<lparr>pv := put x y (pv (view h))\<rparr>" "same_data h h'"
proof -
  have "runs (update_opt h x (n_prev_update (\<lambda>_. y)))
      (\<lambda>h'. view h' = (view h)\<lparr>pv := put x y (pv (view h))\<rparr> \<and> same_data h h')"
    by (rule runs_set_opt; simp add: assms runs_set)
  with that show thesis unfolding runs_def by blast
qed

lemma step_pa:
  assumes "\<And>q. x = Some q \<Longrightarrow> live (view h) q"
  obtains h' where "update_opt h x (n_parent_update (\<lambda>_. y)) = Inr h'"
    "view h' = (view h)\<lparr>pa := put x y (pa (view h))\<rparr>" "same_data h h'"
proof -
  have "runs (update_opt h x (n_parent_update (\<lambda>_. y)))
      (\<lambda>h'. view h' = (view h)\<lparr>pa := put x y (pa (view h))\<rparr> \<and> same_data h h')"
    by (rule runs_set_opt; simp add: assms runs_set)
  with that show thesis unfolding runs_def by blast
qed

lemma step_fc:
  assumes "\<And>q. x = Some q \<Longrightarrow> live (view h) q"
  obtains h' where "update_opt h x (n_first_update (\<lambda>_. y)) = Inr h'"
    "view h' = (view h)\<lparr>fc := put x y (fc (view h))\<rparr>" "same_data h h'"
proof -
  have "runs (update_opt h x (n_first_update (\<lambda>_. y)))
      (\<lambda>h'. view h' = (view h)\<lparr>fc := put x y (fc (view h))\<rparr> \<and> same_data h h')"
    by (rule runs_set_opt; simp add: assms runs_set)
  with that show thesis unfolding runs_def by blast
qed

lemma step_lc:
  assumes "\<And>q. x = Some q \<Longrightarrow> live (view h) q"
  obtains h' where "update_opt h x (n_last_update (\<lambda>_. y)) = Inr h'"
    "view h' = (view h)\<lparr>lc := put x y (lc (view h))\<rparr>" "same_data h h'"
proof -
  have "runs (update_opt h x (n_last_update (\<lambda>_. y)))
      (\<lambda>h'. view h' = (view h)\<lparr>lc := put x y (lc (view h))\<rparr> \<and> same_data h h')"
    by (rule runs_set_opt; simp add: assms runs_set)
  with that show thesis unfolding runs_def by blast
qed

definition the_node :: "heap \<Rightarrow> nptr \<Rightarrow> cmark_node" where
  "the_node h p = the (cell h p)"

lemma node_live:
  assumes "live (view h) p"
  shows "deref h p = Inr (the_node h p)" "n_next (the_node h p) = nx (view h) p" "n_prev (the_node h p) = pv (view h) p"
    "n_parent (the_node h p) = pa (view h) p" "n_first (the_node h p) = fc (view h) p"
    "n_last (the_node h p) = lc (view h) p" "cell h p = Some (the_node h p)"
  using assms by (auto simp: view_def the_node_def deref_def)

lemma update_as_opt: "update h p f = update_opt h (Some p) f"
  by (simp add: update_opt_def)

lemma step_if:
  "(if b then update h q f else Inr h) = update_opt h (if b then Some q else None) f"
  "(if b then update_opt h x f else Inr h) = update_opt h (if b then x else None) f"
  by (simp_all add: update_opt_def)

section \<open>Unlinking\<close>

definition unlink_view :: "nptr \<Rightarrow> links_view \<Rightarrow> links_view" where
  "unlink_view p v = v\<lparr>
     nx := put (pv v p) (nx v p) (nx v),
     pv := put (nx v p) (pv v p) (pv v),
     fc := put (case pa v p of Some q \<Rightarrow> if fc v q = Some p then Some q else None | None \<Rightarrow> None) (nx v p) (fc v),
     lc := put (case pa v p of Some q \<Rightarrow> if lc v q = Some p then Some q else None | None \<Rightarrow> None) (pv v p) (lc v)\<rparr>"

lemma unlink_runs:
  assumes l: "links_but X (view h) kids" "live (view h) p" "p \<notin> X"
  shows "\<exists>h'. S_node_unlink h (Some p) = Inr h' \<and> view h' = unlink_view p (view h) \<and> same_data h h'"
proof -
  let ?v = "view h"
  have nb: "\<And>c. nx ?v p = Some c \<Longrightarrow> live ?v c \<and> c \<noteq> p" "\<And>c. pv ?v p = Some c \<Longrightarrow> live ?v c \<and> c \<noteq> p"
    using neighbours [OF l] by auto
  have par: "live ?v q" if "pa ?v p = Some q" for q
    using links_butD(10) [OF l(1,2,3) that] .
  obtain h1 where h1: "update_opt h (pv ?v p) (n_next_update (\<lambda>_. nx ?v p)) = Inr h1"
    "view h1 = ?v\<lparr>nx := put (pv ?v p) (nx ?v p) (nx ?v)\<rparr>" "same_data h h1"
    by (rule step_nx [of "pv ?v p" h "nx ?v p"]) (auto simp: nb)
  have p1: "nx (view h1) p = nx ?v p" "pv (view h1) p = pv ?v p" "live (view h1) p"
    using nb(2) [of p] l(2) by (auto simp: h1 put_def)
  obtain h2 where h2: "update_opt h1 (nx ?v p) (n_prev_update (\<lambda>_. pv ?v p)) = Inr h2"
    "view h2 = ?v\<lparr>nx := put (pv ?v p) (nx ?v p) (nx ?v), pv := put (nx ?v p) (pv ?v p) (pv ?v)\<rparr>"
    "same_data h1 h2"
    by (rule step_pv [of "nx ?v p" h1 "pv ?v p"]) (auto simp: nb h1)
  have p2: "nx (view h2) p = nx ?v p" "pv (view h2) p = pv ?v p" "live (view h2) p"
    using nb [of p] l(2) by (auto simp: h2 put_def)
  note [simp] = node_live l(2) p1 p2 h1(1) h2(1)
  show ?thesis
  proof (cases "pa ?v p")
    case None
    then have "S_node_unlink h (Some p) = Inr h2" by (simp add: S_node_unlink_def h2)
    then show ?thesis
      using None h2 same_data_trans [OF h1(3) h2(3)] by (simp add: unlink_view_def)
  next
    case (Some q)
    let ?f = "if fc ?v q = Some p then Some q else None" and ?l = "if lc ?v q = Some p then Some q else None"
    have q: "live (view h2) q" using par [OF Some] by (simp add: h2)
    obtain h3 where h3: "update_opt h2 ?f (n_first_update (\<lambda>_. nx ?v p)) = Inr h3"
      "view h3 = (view h2)\<lparr>fc := put ?f (nx ?v p) (fc ?v)\<rparr>" "same_data h2 h3"
      by (rule step_fc [of ?f h2 "nx ?v p"]) (use q in \<open>auto simp: h2 split: if_splits\<close>)
    obtain h4 where h4: "update_opt h3 ?l (n_last_update (\<lambda>_. pv ?v p)) = Inr h4"
      "view h4 = (view h3)\<lparr>lc := put ?l (pv ?v p) (lc ?v)\<rparr>" "same_data h3 h4"
      by (rule step_lc [of ?l h3 "pv ?v p"]) (use q in \<open>auto simp: h3 h2 split: if_splits\<close>)
    have p3: "live (view h3) p" "live (view h3) q" "pv (view h3) p = pv ?v p" "lc (view h3) q = lc ?v q"
      using q p2 by (simp_all add: h3 h2)
    have "pa (view h2) p = Some q" "fc (view h2) q = fc ?v q" using Some by (simp_all add: h2)
    then have "S_node_unlink h (Some p) = Inr h4"
      using q p3 h3(1) h4(1) by (simp add: S_node_unlink_def step_if)
    moreover have "view h4 = unlink_view p ?v" by (simp add: h4 h3 h2 unlink_view_def Some)
    ultimately show ?thesis
      using same_data_trans [OF same_data_trans [OF h1(3) h2(3)] same_data_trans [OF h3(3) h4(3)]] by blast
  qed
qed

lemma unlink_links:
  assumes l: "links_but X v kids" "live v p" "p \<notin> X"
  shows "links_but (insert p X) (unlink_view p v) (without p kids)"
proof -
  note D = links_butD [OF l(1)]
  have pq: "p \<in> set (kids q) \<longleftrightarrow> pa v p = Some q" for q
    using D(6,11) l(2,3) by blast
  have next_some: "nx v c = Some p \<longleftrightarrow> pv v p = Some c" if "live v c" "c \<notin> X" for c
    using neighbours [OF l(1) that] neighbours [OF l] by blast
  have prev_some: "pv v c = Some p \<longleftrightarrow> nx v p = Some c" if "live v c" "c \<notin> X" for c
    using neighbours [OF l(1) that] neighbours [OF l] by blast
  let ?u = "unlink_view p v"
  have u: "live ?u = live v" "pa ?u = pa v" by (simp_all add: unlink_view_def)
  have nx: "nx ?u c = (if nx v c = Some p then nx v p else nx v c)" if "live v c" "c \<notin> X" for c
    using next_some [OF that] by (simp add: unlink_view_def put_def)
  have pv: "pv ?u c = (if pv v c = Some p then pv v p else pv v c)" if "live v c" "c \<notin> X" for c
    using prev_some [OF that] by (simp add: unlink_view_def put_def)
  have fc: "fc ?u q = hd_opt (removeAll p (kids q))" if "live v q" for q
  proof (cases "pa v p = Some q")
    case True
    then show ?thesis using D(1) [OF that] D(7) [of p q] pq [of q] D(3)
      by (simp add: unlink_view_def put_def siblings)
  next
    case False
    then have "removeAll p (kids q) = kids q" using pq by (simp add: removeAll_id)
    then show ?thesis using False D(1) [OF that] by (auto simp: unlink_view_def put_def split: option.splits if_splits)
  qed
  have lc: "lc ?u q = hd_opt (rev (removeAll p (kids q)))" if "live v q" for q
  proof (cases "pa v p = Some q")
    case True
    then show ?thesis using D(2) [OF that] D(8) [of p q] pq [of q] D(3) [of q]
      hd_opt_removeAll [of "rev (kids q)" p]
      by (simp add: unlink_view_def put_def prev_in_def removeAll_filter_not_eq rev_filter)
  next
    case False
    then have "removeAll p (kids q) = kids q" using pq by (simp add: removeAll_id)
    then show ?thesis using False D(2) [OF that] by (auto simp: unlink_view_def put_def split: option.splits if_splits)
  qed
  show ?thesis
    unfolding links_but_def
  proof (intro conjI allI impI)
    fix q assume "live ?u q"
    then show "distinct (without p kids q)" "fc ?u q = hd_opt (without p kids q)"
      "lc ?u q = hd_opt (rev (without p kids q))"
      using D(3) fc lc by (simp_all add: without_def u distinct_removeAll)
  next
    fix q assume "\<not> live ?u q"
    then show "without p kids q = []" using D(14) by (simp add: without_def u)
  next
    fix q c assume c: "c \<in> set (without p kids q)"
    then have c: "c \<in> set (kids q)" "c \<noteq> p" by (auto simp: without_def)
    note cD = D(4-8) [OF c(1)]
    have m: "next_in (kids q) c = Some p \<Longrightarrow> nx v p = next_in (kids q) p"
      "prev_in (kids q) c = Some p \<Longrightarrow> pv v p = prev_in (kids q) p"
      using D(7) [of p q] D(8) [of p q] next_in_set [of "kids q" c p] next_in_set [of "rev (kids q)" c p]
      unfolding prev_in_def set_rev by blast+
    show "live ?u c" "c \<notin> insert p X" "pa ?u c = Some q" using cD c by (simp_all add: u)
    show "nx ?u c = next_in (without p kids q) c"
      unfolding nx [OF cD(1,2)] without_def next_in_removeAll [OF D(3) c(2)] cD(4)
      using m(1) by (cases "next_in (kids q) c = Some p") simp_all
    show "pv ?u c = prev_in (without p kids q) c"
      unfolding pv [OF cD(1,2)] without_def prev_in_removeAll [OF D(3) c(2)] cD(5)
      using m(2) by (cases "prev_in (kids q) c = Some p") simp_all
  next
    fix c q assume "live ?u c \<and> c \<notin> insert p X \<and> pa ?u c = Some q"
    then show "live ?u q" "c \<in> set (without p kids q)" using D(10,11) by (auto simp: u without_def)
  next
    fix c assume c: "live ?u c \<and> c \<notin> insert p X \<and> pa ?u c = None"
    then show "nx ?u c = None" "pv ?u c = None"
      using D(12,13) [of c] nx [of c] pv [of c] by (auto simp: u)
  qed
qed

text \<open>Clearing the stale pointers makes the node a root.\<close>

lemma clear_links:
  assumes "links_but (insert p {}) v kids"
  shows "links_but {} (v\<lparr>nx := (nx v)(p := None), pv := (pv v)(p := None), pa := (pa v)(p := None)\<rparr>) kids"
proof -
  note D = links_butD [OF assms]
  have np: "c \<noteq> p" if "c \<in> set (kids q)" for c q using D(5) [OF that] by simp
  show ?thesis
    unfolding links_but_def
  proof (intro conjI allI impI)
    fix q c assume "c \<in> set (kids q)"
    note c = np [OF this] D(4,6-8) [OF this]
    let ?u = "v\<lparr>nx := (nx v)(p := None), pv := (pv v)(p := None), pa := (pa v)(p := None)\<rparr>"
    show "live ?u c" "c \<notin> {}" "pa ?u c = Some q" "nx ?u c = next_in (kids q) c"
      "pv ?u c = prev_in (kids q) c"
      using c by simp_all
  qed (use D(1-3,10-14) in \<open>simp_all split: if_splits, blast\<close>)
qed

lemma node_unlink_links:
  assumes l: "links h kids" "live (view h) p"
  shows "\<exists>h'. cmark_node_unlink h (Some p) = Inr h' \<and> links h' (without p kids) \<and> same_data h h' \<and>
    live (view h') = live (view h) \<and> pa (view h') = (pa (view h))(p := None)"
proof -
  obtain h1 where h1: "S_node_unlink h (Some p) = Inr h1" "view h1 = unlink_view p (view h)" "same_data h h1"
    using unlink_runs [of "{}" h kids p] l by (auto simp: links_def)
  have lv: "live (view h1) = live (view h)" "pa (view h1) = pa (view h)"
    by (simp_all add: h1 unlink_view_def)
  have "links_but {p} (view h1) (without p kids)"
    using unlink_links [of "{}" "view h" kids p] l by (simp add: links_def h1)
  note cl = clear_links [OF this]
  have "runs (update h1 p (\<lambda>n. n\<lparr>n_next := None, n_prev := None, n_parent := None\<rparr>))
    (\<lambda>h'. view h' = (view h1)\<lparr>nx := (nx (view h1))(p := None), pv := (pv (view h1))(p := None),
       pa := (pa (view h1))(p := None)\<rparr> \<and> same_data h1 h')"
    by (rule run_update) (use l lv in \<open>auto simp: no_links_def view_sel\<close>)
  then obtain h2 where "update h1 p (\<lambda>n. n\<lparr>n_next := None, n_prev := None, n_parent := None\<rparr>) = Inr h2"
    "view h2 = (view h1)\<lparr>nx := (nx (view h1))(p := None), pv := (pv (view h1))(p := None),
       pa := (pa (view h1))(p := None)\<rparr>" "same_data h1 h2"
    by (auto simp: runs_def)
  with h1 cl lv show ?thesis
    using same_data_trans [OF h1(3)] by (simp add: cmark_node_unlink_def links_def)
qed

section \<open>Linking\<close>

text \<open>Reading the sibling lists backwards: it turns insertion before a node into insertion after it.\<close>

definition mirror :: "links_view \<Rightarrow> links_view" where
  "mirror v = v\<lparr>nx := pv v, pv := nx v, fc := lc v, lc := fc v\<rparr>"

lemma mirror_sel [simp]:
  "live (mirror v) = live v" "nx (mirror v) = pv v" "pv (mirror v) = nx v" "pa (mirror v) = pa v"
  "fc (mirror v) = lc v" "lc (mirror v) = fc v"
  by (simp_all add: mirror_def)

lemma links_mirror:
  assumes "links_but X v kids"
  shows "links_but X (mirror v) (\<lambda>q. rev (kids q))"
proof -
  note D = links_butD [OF assms]
  show ?thesis
    unfolding links_but_def
  proof (intro conjI allI impI)
    fix q c assume "c \<in> set (rev (kids q))"
    then have "c \<in> set (kids q)" by simp
    note c = D(4-8) [OF this]
    show "live (mirror v) c" "c \<notin> X" "pa (mirror v) c = Some q"
      "nx (mirror v) c = next_in (rev (kids q)) c" "pv (mirror v) c = prev_in (rev (kids q)) c"
      using c by (simp_all add: prev_in_def)
  next
    fix c q assume "live (mirror v) c \<and> c \<notin> X \<and> pa (mirror v) c = Some q"
    then show "live (mirror v) q" "c \<in> set (rev (kids q))" using D(10,11) [of c q] by simp_all
  qed (use D(1-3,12-14) in simp_all)
qed

definition before_view :: "nptr \<Rightarrow> nptr \<Rightarrow> links_view \<Rightarrow> links_view" where
  "before_view p s v = v\<lparr>
     nx := (put (pv v p) (Some s) (nx v))(s := Some p),
     pv := (pv v)(s := pv v p, p := Some s),
     pa := (pa v)(s := pa v p),
     fc := put (if pv v p = None then pa v p else None) (Some s) (fc v)\<rparr>"

definition after_view :: "nptr \<Rightarrow> nptr \<Rightarrow> links_view \<Rightarrow> links_view" where
  "after_view p s v = v\<lparr>
     pv := (put (nx v p) (Some s) (pv v))(s := Some p),
     nx := (nx v)(s := nx v p, p := Some s),
     pa := (pa v)(s := pa v p),
     lc := put (if nx v p = None then pa v p else None) (Some s) (lc v)\<rparr>"

lemma after_before_mirror: "after_view p s v = mirror (before_view p s (mirror v))"
  by (simp add: after_view_def before_view_def mirror_def)

lemma before_links:
  assumes l: "links_but {s} v kids" and p: "p \<in> set (kids q)" and s: "live v s"
  shows "links_but {} (before_view p s v) (kids(q := ins_before s p (kids q)))"
proof -
  note D = links_butD [OF l]
  have sp: "s \<noteq> p" using D(5) [OF p] by simp
  have notin: "s \<notin> set (kids r)" for r using D(5) by blast
  note P = D(4-9) [OF p]
  let ?u = "before_view p s v" and ?k = "kids(q := ins_before s p (kids q))"
  have u [simp]: "live ?u = live v" "pa ?u = (pa v)(s := Some q)" using P by (simp_all add: before_view_def)
  have nx_u: "nx ?u c = (if c = s then Some p else if nx v c = Some p then Some s else nx v c)"
    if "live v c" "c \<noteq> s" for c
  proof -
    have "nx v c = Some p \<longleftrightarrow> pv v p = Some c"
      using neighbours(1) [OF l that(1), of p] neighbours(2) [OF l P(1), of c] that sp by blast
    then show ?thesis using that by (simp add: before_view_def put_def)
  qed
  have pv_u: "pv ?u c = (if c = p then Some s else if c = s then pv v p else pv v c)" for c
    by (simp add: before_view_def)
  have dist: "distinct (kids q)" by (rule D)
  have rk: "rev (ins_before s p (kids q)) = ins_after s p (rev (kids q))" using dist by (rule rev_ins_before)
  have pr: "p \<in> set (rev (kids q))" "distinct (rev (kids q))" "s \<notin> set (rev (kids q))"
    using p dist notin by simp_all
  have first: "pv v p = None \<longleftrightarrow> hd_opt (kids q) = Some p"
    using hd_opt_prev_in [OF dist p] P(5) by simp
  show ?thesis
    unfolding links_but_def
  proof (intro conjI allI impI)
    fix r assume r: "live ?u r"
    show "distinct (?k r)" using D(3) distinct_ins_before [OF dist notin] by simp
    show "fc ?u r = hd_opt (?k r)"
      using D(1) r P(3) first by (auto simp: before_view_def put_def hd_opt_ins_before)
    show "lc ?u r = hd_opt (rev (?k r))"
      using D(2) r by (auto simp: before_view_def rk hd_opt_ins_after)
  next
    fix r assume "\<not> live ?u r"
    then show "?k r = []" using D(14) [of r] P(6) by auto
  next
    fix r c assume c: "c \<in> set (?k r)"
    show "live ?u c" "c \<notin> {}" "pa ?u c = Some r"
      using c p D(4,6) s notin by (auto split: if_splits)
    show "nx ?u c = next_in (?k r) c"
    proof (cases "c = s")
      case True
      with c notin have "r = q" by (auto split: if_splits)
      with True show ?thesis
        using next_in_ins_before [OF dist notin p] by (simp add: before_view_def)
    next
      case False
      with c p have cr: "c \<in> set (kids r)" by (auto split: if_splits)
      have "next_in (kids r) c \<noteq> Some p" if "r \<noteq> q"
        using next_in_set [of "kids r" c p] D(6) [of p r] P(3) that by auto
      then show ?thesis
        using nx_u [OF D(4) [OF cr] False] D(7) [OF cr] False next_in_ins_before [OF dist notin p, of c]
        by auto
    qed
    show "pv ?u c = prev_in (?k r) c"
    proof (cases "r = q")
      case True
      have "prev_in (?k q) c = (if c = s then prev_in (kids q) p else if c = p then Some s else prev_in (kids q) c)"
        using next_in_ins_after [OF pr(2,3,1), of c] rk by (simp add: prev_in_def)
      moreover have "c = s \<or> c \<in> set (kids q)" using c True p by simp
      ultimately show ?thesis using True pv_u [of c] P(5) D(8) [of c q] sp by auto
    next
      case False
      then have cr: "c \<in> set (kids r)" using c by simp
      then have "c \<noteq> p" "c \<noteq> s" using D(6) P(3) False notin by auto
      then show ?thesis using pv_u [of c] D(8) [OF cr] False by simp
    qed
  next
    fix c r assume c: "live ?u c \<and> c \<notin> {} \<and> pa ?u c = Some r"
    then show "live ?u r" "c \<in> set (?k r)"
      using D(10,11) [of c r] P(6) p by (auto split: if_splits)
  next
    fix c assume c: "live ?u c \<and> c \<notin> {} \<and> pa ?u c = None"
    then have c: "live v c" "c \<noteq> s" "pa v c = None" by (auto split: if_splits)
    then have "nx v c = None" "pv v c = None" "c \<noteq> p" using D(12,13) P(3) by auto
    then show "nx ?u c = None" "pv ?u c = None" using nx_u [OF c(1,2)] pv_u [of c] c by simp_all
  qed
qed

lemma after_links:
  assumes l: "links_but {s} v kids" and p: "p \<in> set (kids q)" and s: "live v s"
  shows "links_but {} (after_view p s v) (kids(q := ins_after s p (kids q)))"
proof -
  have d: "distinct (kids q)" using links_butD(3) [OF l] .
  have "links_but {} (before_view p s (mirror v)) ((\<lambda>q. rev (kids q))(q := ins_before s p (rev (kids q))))"
    using before_links [OF links_mirror [OF l], of p q] p s by simp
  from links_mirror [OF this] have "links_but {} (after_view p s v)
      (\<lambda>r. rev (((\<lambda>q. rev (kids q))(q := ins_before s p (rev (kids q)))) r))"
    by (simp only: after_before_mirror)
  moreover have "(\<lambda>r. rev (((\<lambda>q. rev (kids q))(q := ins_before s p (rev (kids q)))) r)) =
      kids(q := ins_after s p (kids q))"
    using rev_ins_before [of "rev (kids q)" s p] d by (auto simp: fun_eq_iff)
  ultimately show ?thesis by simp
qed

definition prepend_view :: "nptr \<Rightarrow> nptr \<Rightarrow> links_view \<Rightarrow> links_view" where
  "prepend_view p s v = v\<lparr>
     nx := (nx v)(s := fc v p),
     pv := put (fc v p) (Some s) ((pv v)(s := None)),
     pa := (pa v)(s := Some p),
     fc := (fc v)(p := Some s),
     lc := put (if fc v p = None then Some p else None) (Some s) (lc v)\<rparr>"

definition append_view :: "nptr \<Rightarrow> nptr \<Rightarrow> links_view \<Rightarrow> links_view" where
  "append_view p s v = v\<lparr>
     pv := (pv v)(s := lc v p),
     nx := put (lc v p) (Some s) ((nx v)(s := None)),
     pa := (pa v)(s := Some p),
     lc := (lc v)(p := Some s),
     fc := put (if lc v p = None then Some p else None) (Some s) (fc v)\<rparr>"

lemma append_prepend_mirror: "append_view p s v = mirror (prepend_view p s (mirror v))"
  by (simp add: append_view_def prepend_view_def mirror_def)

lemma prepend_links:
  assumes l: "links_but {s} v kids" and p: "live v p" and s: "live v s"
  shows "links_but {} (prepend_view p s v) (kids(p := s # kids p))"
proof -
  note D = links_butD [OF l]
  have notin: "s \<notin> set (kids r)" for r using D(5) by blast
  let ?u = "prepend_view p s v" and ?k = "kids(p := s # kids p)"
  have u [simp]: "live ?u = live v" "pa ?u = (pa v)(s := Some p)" by (simp_all add: prepend_view_def)
  have f: "fc v p = hd_opt (kids p)" "lc v p = hd_opt (rev (kids p))" using D(1,2) p by simp_all
  have pv_u: "pv ?u c = (if hd_opt (kids p) = Some c then Some s else if c = s then None else pv v c)" for c
    using f by (auto simp: prepend_view_def put_def)
  have nx_u: "nx ?u c = (if c = s then hd_opt (kids p) else nx v c)" for c
    using f by (simp add: prepend_view_def)
  have hs: "hd_opt (kids p) \<noteq> Some s" using hd_opt_in notin by metis
  show ?thesis
    unfolding links_but_def
  proof (intro conjI allI impI)
    fix r assume r: "live ?u r"
    show "distinct (?k r)" using D(3) notin by simp
    show "fc ?u r = hd_opt (?k r)" using D(1) r by (simp add: prepend_view_def)
    show "lc ?u r = hd_opt (rev (?k r))" using D(2) r f by (auto simp: prepend_view_def put_def)
  next
    fix r assume "\<not> live ?u r"
    then show "?k r = []" using D(14) [of r] p by auto
  next
    fix r c assume c: "c \<in> set (?k r)"
    show "live ?u c" "c \<notin> {}" "pa ?u c = Some r"
      using c D(4,6) s notin by (auto split: if_splits)
    have cr: "c = s \<and> r = p \<or> c \<noteq> s \<and> c \<in> set (kids r)" using c notin by (auto split: if_splits)
    then show "nx ?u c = next_in (?k r) c" using nx_u [of c] D(7) [of c r] by auto
    show "pv ?u c = prev_in (?k r) c"
    proof (cases "c = s")
      case True
      then show ?thesis using cr pv_u [of s] hs notin [of p] by (auto simp: prev_in_def next_in_append)
    next
      case False
      with cr have cr: "c \<in> set (kids r)" by simp
      have "hd_opt (kids p) = Some c \<longleftrightarrow> r = p \<and> prev_in (kids r) c = None"
        using hd_opt_prev_in [OF D(3), of c p] hd_opt_in [of "kids p" c] D(6) [OF cr] D(6) [of c p] cr by auto
      then show ?thesis
        using pv_u [of c] D(8) [OF cr] False cr
        by (auto simp: prev_in_def next_in_append split: option.splits)
    qed
  next
    fix c r assume c: "live ?u c \<and> c \<notin> {} \<and> pa ?u c = Some r"
    then show "live ?u r" "c \<in> set (?k r)"
      using D(10,11) [of c r] p by (auto split: if_splits)
  next
    fix c assume c: "live ?u c \<and> c \<notin> {} \<and> pa ?u c = None"
    then have c: "live v c" "c \<noteq> s" "pa v c = None" by (auto split: if_splits)
    then have "nx v c = None" "pv v c = None" "hd_opt (kids p) \<noteq> Some c"
      using D(12,13) D(6) [of c p] hd_opt_in [of "kids p" c] by auto
    then show "nx ?u c = None" "pv ?u c = None" using nx_u [of c] pv_u [of c] c by simp_all
  qed
qed

lemma append_links:
  assumes l: "links_but {s} v kids" and p: "live v p" and s: "live v s"
  shows "links_but {} (append_view p s v) (kids(p := kids p @ [s]))"
proof -
  have "links_but {} (prepend_view p s (mirror v)) ((\<lambda>q. rev (kids q))(p := s # rev (kids p)))"
    using prepend_links [OF links_mirror [OF l], of p] p s by simp
  from links_mirror [OF this] have "links_but {} (append_view p s v)
      (\<lambda>r. rev (((\<lambda>q. rev (kids q))(p := s # rev (kids p))) r))"
    by (simp only: append_prepend_mirror)
  moreover have "(\<lambda>r. rev (((\<lambda>q. rev (kids q))(p := s # rev (kids p))) r)) = kids(p := kids p @ [s])"
    by (auto simp: fun_eq_iff)
  ultimately show ?thesis by simp
qed

section \<open>The linking operations\<close>

text \<open>Taking the new child out of its old place.\<close>

lemma unlink_first:
  assumes "links h kids" "live (view h) s"
  obtains h1 where "S_node_unlink h (Some s) = Inr h1" "live (view h1) = live (view h)"
    "pa (view h1) = pa (view h)" "links_but {s} (view h1) (without s kids)" "same_data h h1"
proof -
  from assms have l: "links_but {} (view h) kids" by (simp add: links_def)
  from unlink_runs [OF l assms(2)] unlink_links [OF l assms(2)] that show thesis
    by (auto simp: unlink_view_def)
qed

lemma insert_before_ok:
  assumes l: "links h kids" and p: "live (view h) p" and s: "live (view h) s" and ps: "p \<noteq> s"
    and q: "pa (view h) p = Some q" and ok: "S_can_contain env h (Some q) (Some s) = Inr True"
  shows "\<exists>h'. cmark_node_insert_before env h (Some p) (Some s) = Inr (True, h') \<and> same_data h h' \<and>
    links h' ((without s kids)(q := ins_before s p (without s kids q))) \<and>
    live (view h') = live (view h) \<and> pa (view h') = (pa (view h))(s := Some q)"
proof -
  obtain h1 where h1: "S_node_unlink h (Some s) = Inr h1" "live (view h1) = live (view h)"
    "pa (view h1) = pa (view h)" "links_but {s} (view h1) (without s kids)" "same_data h h1"
    by (rule unlink_first [OF l s])
  let ?v = "view h1"
  note D = links_butD [OF h1(4)]
  have p1: "live ?v p" "live ?v s" "pa ?v p = Some q" using p s q by (simp_all add: h1)
  then have pk: "p \<in> set (without s kids q)" and lq: "live ?v q" using D(10,11) ps by auto
  have op: "live ?v c \<and> c \<noteq> s" if "pv ?v p = Some c" for c
    using D(8) [OF pk] D(4,5) next_in_set [of "rev (without s kids q)" p c] that
    by (auto simp: prev_in_def)
  obtain h2 where h2: "update_opt h1 (pv ?v p) (n_next_update (\<lambda>_. Some s)) = Inr h2"
    "view h2 = ?v\<lparr>nx := put (pv ?v p) (Some s) (nx ?v)\<rparr>" "same_data h1 h2"
    by (rule step_nx [of "pv ?v p" h1 "Some s"]) (use op in auto)
  obtain h3 where h3: "update_opt h2 (Some s) (n_prev_update (\<lambda>_. pv ?v p)) = Inr h3"
    "view h3 = (view h2)\<lparr>pv := put (Some s) (pv ?v p) (pv (view h2))\<rparr>" "same_data h2 h3"
    by (rule step_pv [of "Some s" h2 "pv ?v p"]) (use p1 h2 in auto)
  obtain h4 where h4: "update_opt h3 (Some s) (n_next_update (\<lambda>_. Some p)) = Inr h4"
    "view h4 = (view h3)\<lparr>nx := put (Some s) (Some p) (nx (view h3))\<rparr>" "same_data h3 h4"
    by (rule step_nx [of "Some s" h3 "Some p"]) (use p1 h2 h3 in auto)
  obtain h5 where h5: "update_opt h4 (Some p) (n_prev_update (\<lambda>_. Some s)) = Inr h5"
    "view h5 = (view h4)\<lparr>pv := put (Some p) (Some s) (pv (view h4))\<rparr>" "same_data h4 h5"
    by (rule step_pv [of "Some p" h4 "Some s"]) (use p1 h2 h3 h4 in auto)
  obtain h6 where h6: "update_opt h5 (Some s) (n_parent_update (\<lambda>_. Some q)) = Inr h6"
    "view h6 = (view h5)\<lparr>pa := put (Some s) (Some q) (pa (view h5))\<rparr>" "same_data h5 h6"
    by (rule step_pa [of "Some s" h5 "Some q"]) (use p1 h2 h3 h4 h5 in auto)
  let ?f = "if pv ?v p = None then Some q else None"
  obtain h7 where h7: "update_opt h6 ?f (n_first_update (\<lambda>_. Some s)) = Inr h7"
    "view h7 = (view h6)\<lparr>fc := put ?f (Some s) (fc (view h6))\<rparr>" "same_data h6 h7"
    by (rule step_fc [of ?f h6 "Some s"]) (use lq h2 h3 h4 h5 h6 in \<open>auto split: if_splits\<close>)
  note vs = h2(2) h3(2) h4(2) h5(2) h6(2) h7(2)
  have "live (view h5) p" "pa (view h5) p = Some q" using p1 by (simp_all add: vs)
  note nodes = node_live [OF p] node_live [OF p1(1)] node_live [OF this(1)] this
  have "cmark_node_insert_before env h (Some p) (Some s) = Inr (True, h7)"
    using h2(1) h3(1) h4(1) h5(1) h6(1) h7(1) h1(1) ok q
    by (simp add: cmark_node_insert_before_def nodes update_as_opt step_if(2))
  moreover have v7: "view h7 = before_view p s ?v"
    using p1(3) ps by (simp add: vs before_view_def fun_upd_twist)
  then have "links h7 ((without s kids)(q := ins_before s p (without s kids q)))"
    using before_links [OF h1(4) pk p1(2)] by (simp add: links_def)
  moreover have "same_data h h7"
    using h1(5) h2(3) h3(3) h4(3) h5(3) h6(3) h7(3) by (blast intro: same_data_trans)
  moreover have "live (view h7) = live (view h)" "pa (view h7) = (pa (view h))(s := Some q)"
    using p1(3) by (simp_all add: v7 before_view_def h1)
  ultimately show ?thesis by blast
qed

lemma insert_after_ok:
  assumes l: "links h kids" and p: "live (view h) p" and s: "live (view h) s" and ps: "p \<noteq> s"
    and q: "pa (view h) p = Some q" and ok: "S_can_contain env h (Some q) (Some s) = Inr True"
  shows "\<exists>h'. cmark_node_insert_after env h (Some p) (Some s) = Inr (True, h') \<and> same_data h h' \<and>
    links h' ((without s kids)(q := ins_after s p (without s kids q))) \<and>
    live (view h') = live (view h) \<and> pa (view h') = (pa (view h))(s := Some q)"
proof -
  obtain h1 where h1: "S_node_unlink h (Some s) = Inr h1" "live (view h1) = live (view h)"
    "pa (view h1) = pa (view h)" "links_but {s} (view h1) (without s kids)" "same_data h h1"
    by (rule unlink_first [OF l s])
  let ?v = "view h1"
  note D = links_butD [OF h1(4)]
  have p1: "live ?v p" "live ?v s" "pa ?v p = Some q" using p s q by (simp_all add: h1)
  then have pk: "p \<in> set (without s kids q)" and lq: "live ?v q" using D(10,11) ps by auto
  have op: "live ?v c \<and> c \<noteq> s" if "nx ?v p = Some c" for c
    using D(7) [OF pk] D(4,5) next_in_set [of "without s kids q" p c] that
    by auto
  obtain h2 where h2: "update_opt h1 (nx ?v p) (n_prev_update (\<lambda>_. Some s)) = Inr h2"
    "view h2 = ?v\<lparr>pv := put (nx ?v p) (Some s) (pv ?v)\<rparr>" "same_data h1 h2"
    by (rule step_pv [of "nx ?v p" h1 "Some s"]) (use op in auto)
  obtain h3 where h3: "update_opt h2 (Some s) (n_next_update (\<lambda>_. nx ?v p)) = Inr h3"
    "view h3 = (view h2)\<lparr>nx := put (Some s) (nx ?v p) (nx (view h2))\<rparr>" "same_data h2 h3"
    by (rule step_nx [of "Some s" h2 "nx ?v p"]) (use p1 h2 in auto)
  obtain h4 where h4: "update_opt h3 (Some s) (n_prev_update (\<lambda>_. Some p)) = Inr h4"
    "view h4 = (view h3)\<lparr>pv := put (Some s) (Some p) (pv (view h3))\<rparr>" "same_data h3 h4"
    by (rule step_pv [of "Some s" h3 "Some p"]) (use p1 h2 h3 in auto)
  obtain h5 where h5: "update_opt h4 (Some p) (n_next_update (\<lambda>_. Some s)) = Inr h5"
    "view h5 = (view h4)\<lparr>nx := put (Some p) (Some s) (nx (view h4))\<rparr>" "same_data h4 h5"
    by (rule step_nx [of "Some p" h4 "Some s"]) (use p1 h2 h3 h4 in auto)
  obtain h6 where h6: "update_opt h5 (Some s) (n_parent_update (\<lambda>_. Some q)) = Inr h6"
    "view h6 = (view h5)\<lparr>pa := put (Some s) (Some q) (pa (view h5))\<rparr>" "same_data h5 h6"
    by (rule step_pa [of "Some s" h5 "Some q"]) (use p1 h2 h3 h4 h5 in auto)
  let ?f = "if nx ?v p = None then Some q else None"
  obtain h7 where h7: "update_opt h6 ?f (n_last_update (\<lambda>_. Some s)) = Inr h7"
    "view h7 = (view h6)\<lparr>lc := put ?f (Some s) (lc (view h6))\<rparr>" "same_data h6 h7"
    by (rule step_lc [of ?f h6 "Some s"]) (use lq h2 h3 h4 h5 h6 in \<open>auto split: if_splits\<close>)
  note vs = h2(2) h3(2) h4(2) h5(2) h6(2) h7(2)
  have "live (view h5) p" "pa (view h5) p = Some q" using p1 by (simp_all add: vs)
  note nodes = node_live [OF p] node_live [OF p1(1)] node_live [OF this(1)] this
  have "cmark_node_insert_after env h (Some p) (Some s) = Inr (True, h7)"
    using h2(1) h3(1) h4(1) h5(1) h6(1) h7(1) h1(1) ok q
    by (simp add: cmark_node_insert_after_def nodes update_as_opt step_if(2))
  moreover have v7: "view h7 = after_view p s ?v"
    using p1(3) ps by (simp add: vs after_view_def fun_upd_twist)
  then have "links h7 ((without s kids)(q := ins_after s p (without s kids q)))"
    using after_links [OF h1(4) pk p1(2)] by (simp add: links_def)
  moreover have "same_data h h7"
    using h1(5) h2(3) h3(3) h4(3) h5(3) h6(3) h7(3) by (blast intro: same_data_trans)
  moreover have "live (view h7) = live (view h)" "pa (view h7) = (pa (view h))(s := Some q)"
    using p1(3) by (simp_all add: v7 after_view_def h1)
  ultimately show ?thesis by blast
qed

lemma prepend_ok:
  assumes l: "links h kids" and p: "live (view h) p" and s: "live (view h) s"
    and ok: "S_can_contain env h (Some p) (Some s) = Inr True"
  shows "\<exists>h'. cmark_node_prepend_child env h (Some p) (Some s) = Inr (True, h') \<and> same_data h h' \<and>
    links h' ((without s kids)(p := s # without s kids p)) \<and>
    live (view h') = live (view h) \<and> pa (view h') = (pa (view h))(s := Some p)"
proof -
  obtain h1 where h1: "S_node_unlink h (Some s) = Inr h1" "live (view h1) = live (view h)"
    "pa (view h1) = pa (view h)" "links_but {s} (view h1) (without s kids)" "same_data h h1"
    by (rule unlink_first [OF l s])
  let ?v = "view h1"
  note D = links_butD [OF h1(4)]
  have p1: "live ?v p" "live ?v s" using p s by (simp_all add: h1)
  have f: "fc ?v p = hd_opt (without s kids p)" using D(1) [OF p1(1)] .
  have of: "live ?v c \<and> c \<noteq> s" if "fc ?v p = Some c" for c
    using hd_opt_in [of "without s kids p" c] f D(4,5) that by auto
  obtain h2 where h2: "update_opt h1 (Some s) (n_next_update (\<lambda>_. fc ?v p)) = Inr h2"
    "view h2 = ?v\<lparr>nx := put (Some s) (fc ?v p) (nx ?v)\<rparr>" "same_data h1 h2"
    by (rule step_nx [of "Some s" h1 "fc ?v p"]) (use p1 in auto)
  obtain h3 where h3: "update_opt h2 (Some s) (n_prev_update (\<lambda>_. None)) = Inr h3"
    "view h3 = (view h2)\<lparr>pv := put (Some s) None (pv (view h2))\<rparr>" "same_data h2 h3"
    by (rule step_pv [of "Some s" h2 None]) (use p1 h2 in auto)
  obtain h4 where h4: "update_opt h3 (Some s) (n_parent_update (\<lambda>_. Some p)) = Inr h4"
    "view h4 = (view h3)\<lparr>pa := put (Some s) (Some p) (pa (view h3))\<rparr>" "same_data h3 h4"
    by (rule step_pa [of "Some s" h3 "Some p"]) (use p1 h2 h3 in auto)
  obtain h5 where h5: "update_opt h4 (Some p) (n_first_update (\<lambda>_. Some s)) = Inr h5"
    "view h5 = (view h4)\<lparr>fc := put (Some p) (Some s) (fc (view h4))\<rparr>" "same_data h4 h5"
    by (rule step_fc [of "Some p" h4 "Some s"]) (use p1 h2 h3 h4 in auto)
  obtain h6 where h6: "(case fc ?v p of Some f \<Rightarrow> update_opt h5 (Some f) (n_prev_update (\<lambda>_. Some s))
        | None \<Rightarrow> update_opt h5 (Some p) (n_last_update (\<lambda>_. Some s))) = Inr h6"
    "view h6 = (view h5)\<lparr>pv := put (fc ?v p) (Some s) (pv (view h5)),
       lc := put (if fc ?v p = None then Some p else None) (Some s) (lc (view h5))\<rparr>" "same_data h5 h6"
  proof (cases "fc ?v p")
    case None
    show ?thesis
      by (rule step_lc [of "Some p" h5 "Some s"]) (use None p1 h2 h3 h4 h5 that in auto)
  next
    case (Some f)
    show ?thesis
      by (rule step_pv [of "Some f" h5 "Some s"]) (use Some of p1 h2 h3 h4 h5 that in auto)
  qed
  note vs = h2(2) h3(2) h4(2) h5(2) h6(2)
  note nodes = node_live [OF p1(1)]
  have "cmark_node_prepend_child env h (Some p) (Some s) = Inr (True, h6)"
    using h2(1) h3(1) h4(1) h5(1) h6(1) h1(1) ok
    by (cases "fc ?v p") (simp_all add: cmark_node_prepend_child_def nodes update_as_opt)
  moreover have v6: "view h6 = prepend_view p s ?v"
    using of by (simp add: vs prepend_view_def)
  then have "links h6 ((without s kids)(p := s # without s kids p))"
    using prepend_links [OF h1(4) p1] by (simp add: links_def)
  moreover have "same_data h h6"
    using h1(5) h2(3) h3(3) h4(3) h5(3) h6(3) by (blast intro: same_data_trans)
  moreover have "live (view h6) = live (view h)" "pa (view h6) = (pa (view h))(s := Some p)"
    by (simp_all add: v6 prepend_view_def h1)
  ultimately show ?thesis by blast
qed

lemma append_ok:
  assumes l: "links h kids" and p: "live (view h) p" and s: "live (view h) s"
    and ok: "S_can_contain env h (Some p) (Some s) = Inr True"
  shows "\<exists>h'. cmark_node_append_child env h (Some p) (Some s) = Inr (True, h') \<and> same_data h h' \<and>
    links h' ((without s kids)(p := without s kids p @ [s])) \<and>
    live (view h') = live (view h) \<and> pa (view h') = (pa (view h))(s := Some p)"
proof -
  obtain h1 where h1: "S_node_unlink h (Some s) = Inr h1" "live (view h1) = live (view h)"
    "pa (view h1) = pa (view h)" "links_but {s} (view h1) (without s kids)" "same_data h h1"
    by (rule unlink_first [OF l s])
  let ?v = "view h1"
  note D = links_butD [OF h1(4)]
  have p1: "live ?v p" "live ?v s" using p s by (simp_all add: h1)
  have f: "lc ?v p = hd_opt (rev (without s kids p))" using D(2) [OF p1(1)] .
  have of: "live ?v c \<and> c \<noteq> s" if "lc ?v p = Some c" for c
    using hd_opt_in [of "rev (without s kids p)" c] f D(4,5) that by auto
  obtain h2 where h2: "update_opt h1 (Some s) (n_next_update (\<lambda>_. None)) = Inr h2"
    "view h2 = ?v\<lparr>nx := put (Some s) None (nx ?v)\<rparr>" "same_data h1 h2"
    by (rule step_nx [of "Some s" h1 None]) (use p1 in auto)
  obtain h3 where h3: "update_opt h2 (Some s) (n_prev_update (\<lambda>_. lc ?v p)) = Inr h3"
    "view h3 = (view h2)\<lparr>pv := put (Some s) (lc ?v p) (pv (view h2))\<rparr>" "same_data h2 h3"
    by (rule step_pv [of "Some s" h2 "lc ?v p"]) (use p1 h2 in auto)
  obtain h4 where h4: "update_opt h3 (Some s) (n_parent_update (\<lambda>_. Some p)) = Inr h4"
    "view h4 = (view h3)\<lparr>pa := put (Some s) (Some p) (pa (view h3))\<rparr>" "same_data h3 h4"
    by (rule step_pa [of "Some s" h3 "Some p"]) (use p1 h2 h3 in auto)
  obtain h5 where h5: "update_opt h4 (Some p) (n_last_update (\<lambda>_. Some s)) = Inr h5"
    "view h5 = (view h4)\<lparr>lc := put (Some p) (Some s) (lc (view h4))\<rparr>" "same_data h4 h5"
    by (rule step_lc [of "Some p" h4 "Some s"]) (use p1 h2 h3 h4 in auto)
  obtain h6 where h6: "(case lc ?v p of Some f \<Rightarrow> update_opt h5 (Some f) (n_next_update (\<lambda>_. Some s))
        | None \<Rightarrow> update_opt h5 (Some p) (n_first_update (\<lambda>_. Some s))) = Inr h6"
    "view h6 = (view h5)\<lparr>nx := put (lc ?v p) (Some s) (nx (view h5)),
       fc := put (if lc ?v p = None then Some p else None) (Some s) (fc (view h5))\<rparr>" "same_data h5 h6"
  proof (cases "lc ?v p")
    case None
    show ?thesis
      by (rule step_fc [of "Some p" h5 "Some s"]) (use None p1 h2 h3 h4 h5 that in auto)
  next
    case (Some f)
    show ?thesis
      by (rule step_nx [of "Some f" h5 "Some s"]) (use Some of p1 h2 h3 h4 h5 that in auto)
  qed
  note vs = h2(2) h3(2) h4(2) h5(2) h6(2)
  note nodes = node_live [OF p1(1)]
  have "cmark_node_append_child env h (Some p) (Some s) = Inr (True, h6)"
    using h2(1) h3(1) h4(1) h5(1) h6(1) h1(1) ok
    by (cases "lc ?v p") (simp_all add: cmark_node_append_child_def nodes update_as_opt)
  moreover have v6: "view h6 = append_view p s ?v"
    using of by (simp add: vs append_view_def)
  then have "links h6 ((without s kids)(p := without s kids p @ [s]))"
    using append_links [OF h1(4) p1] by (simp add: links_def)
  moreover have "same_data h h6"
    using h1(5) h2(3) h3(3) h4(3) h5(3) h6(3) by (blast intro: same_data_trans)
  moreover have "live (view h6) = live (view h)" "pa (view h6) = (pa (view h))(s := Some p)"
    by (simp_all add: v6 append_view_def h1)
  ultimately show ?thesis by blast
qed

lemma replace_in_list:
  "distinct ks \<Longrightarrow> s \<notin> set ks \<Longrightarrow> p \<noteq> s \<Longrightarrow>
     removeAll p (ins_before s p ks) = map (\<lambda>x. if x = p then s else x) ks"
proof (induction ks)
  case (Cons k ks)
  have "map (\<lambda>x. if x = k then s else x) ks = ks" if "k \<notin> set ks" by (rule map_idI) (use that in auto)
  with Cons show ?case by (auto simp: removeAll_id)
qed simp

lemma replace_ok:
  assumes l: "links h kids" and p: "live (view h) p" and s: "live (view h) s" and ps: "p \<noteq> s"
    and q: "pa (view h) p = Some q" and ok: "S_can_contain env h (Some q) (Some s) = Inr True"
  shows "\<exists>h'. cmark_node_replace env h (Some p) (Some s) = Inr (True, h') \<and> same_data h h' \<and>
    links h' ((without s kids)(q := map (\<lambda>x. if x = p then s else x) (without s kids q))) \<and>
    live (view h') = live (view h)"
proof -
  obtain h1 where h1: "cmark_node_insert_before env h (Some p) (Some s) = Inr (True, h1)" "same_data h h1"
    "links h1 ((without s kids)(q := ins_before s p (without s kids q)))" "live (view h1) = live (view h)"
    using insert_before_ok [OF l p s ps q ok] by blast
  obtain h2 where h2: "cmark_node_unlink h1 (Some p) = Inr h2"
    "links h2 (without p ((without s kids)(q := ins_before s p (without s kids q))))"
    "same_data h1 h2" "live (view h2) = live (view h1)"
    using node_unlink_links [OF h1(3)] p h1(4) by auto
  have "links_but {} (view h) kids" using l by (simp add: links_def)
  note D = links_butD [OF this]
  have "without p ((without s kids)(q := ins_before s p (without s kids q))) =
      (without s kids)(q := map (\<lambda>x. if x = p then s else x) (without s kids q))" (is "?l = ?r")
  proof
    fix r
    show "?l r = ?r r"
    proof (cases "r = q")
      case True
      then show ?thesis
        using replace_in_list [of "without s kids q" s p] D(3) [of q] ps
        by (simp add: without_def distinct_removeAll)
    next
      case False
      then have "p \<notin> set (kids r)" using D(6) q by auto
      with False show ?thesis by (simp add: without_def removeAll_id)
    qed
  qed
  with h1 h2 show ?thesis
    using same_data_trans [OF h1(2) h2(3)] by (auto simp: cmark_node_replace_def)
qed

section \<open>Forests and the ancestor check\<close>

definition parent_rel :: "links_view \<Rightarrow> (nptr \<times> nptr) set" where
  "parent_rel v = {(c, q). live v c \<and> pa v c = Some q}"

definition forest :: "heap \<Rightarrow> (nptr \<Rightarrow> nptr list) \<Rightarrow> bool" where
  "forest h kids \<longleftrightarrow> links h kids \<and> acyclic (parent_rel (view h))"

definition ancestors :: "links_view \<Rightarrow> nptr \<Rightarrow> nptr set" where
  "ancestors v p = {q. (p, q) \<in> (parent_rel v)\<^sup>*}"

lemma live_length: "live (view h) p \<Longrightarrow> p < length h"
  by (auto simp: view_def dest: cell_length)

lemma links_live: "links h kids \<Longrightarrow> live (view h) p \<Longrightarrow> pa (view h) p = Some q \<Longrightarrow> live (view h) q"
  using links_butD(10) unfolding links_def by blast

lemma ancestors_live:
  assumes "links h kids" "live (view h) p"
  shows "ancestors (view h) p \<subseteq> {q. live (view h) q}"
proof
  fix q assume "q \<in> ancestors (view h) p"
  then have "(p, q) \<in> (parent_rel (view h))\<^sup>*" by (simp add: ancestors_def)
  then show "q \<in> {q. live (view h) q}"
    by (induction rule: rtrancl_induct) (use assms in \<open>auto simp: parent_rel_def dest: links_live\<close>)
qed

lemma ancestors_finite:
  assumes "links h kids" "live (view h) p"
  shows "finite (ancestors (view h) p)" "card (ancestors (view h) p) \<le> length h"
proof -
  have sub: "ancestors (view h) p \<subseteq> {..<length h}"
    using ancestors_live [OF assms] live_length by fastforce
  then show "finite (ancestors (view h) p)" by (rule finite_subset) simp
  show "card (ancestors (view h) p) \<le> length h" using card_mono [OF _ sub] by simp
qed

lemma ancestors_step:
  assumes "live v p" "pa v p = Some q" "acyclic (parent_rel v)"
  shows "ancestors v p = insert p (ancestors v q)" "p \<notin> ancestors v q"
proof -
  have pq: "(p, q) \<in> parent_rel v" using assms by (simp add: parent_rel_def)
  show "p \<notin> ancestors v q"
    using assms(3) pq unfolding acyclic_def ancestors_def by (auto dest: rtrancl_into_trancl2)
  have "(p, x) \<in> (parent_rel v)\<^sup>* \<longleftrightarrow> x = p \<or> (q, x) \<in> (parent_rel v)\<^sup>*" for x
    using pq assms(2) by (auto simp: parent_rel_def elim: converse_rtranclE intro: converse_rtrancl_into_rtrancl)
  then show "ancestors v p = insert p (ancestors v q)" by (auto simp: ancestors_def)
qed

lemma ancestors_root: "pa v p = None \<Longrightarrow> ancestors v p = {p}"
  by (auto simp: ancestors_def parent_rel_def elim: converse_rtranclE)

lemma is_ancestor_eq:
  assumes l: "links h kids" and a: "acyclic (parent_rel (view h))"
  shows "live (view h) p \<Longrightarrow> card (ancestors (view h) p) < fuel \<Longrightarrow>
    is_ancestor fuel h p c = Inr (c \<in> ancestors (view h) p)"
proof (induction fuel arbitrary: p)
  case (Suc fuel)
  note n = node_live [OF Suc.prems(1)]
  show ?case
  proof (cases "pa (view h) p")
    case None
    then show ?thesis by (simp add: n ancestors_root)
  next
    case (Some q)
    note st = ancestors_step [OF Suc.prems(1) Some a]
    have q: "live (view h) q" using links_live [OF l Suc.prems(1) Some] .
    have "card (ancestors (view h) q) < fuel"
      using Suc.prems(2) st ancestors_finite(1) [OF l q] by simp
    from Suc.IH [OF q this] show ?thesis using Some st by (simp add: n)
  qed
qed simp

text \<open>So \<open>S_can_contain\<close> always returns, and refuses to close a cycle when the checks are on.\<close>

lemma can_contain_type_total: "live (view h) p \<Longrightarrow> \<exists>b. cmark_node_can_contain_type env h p t = Inr b"
  by (auto simp: cmark_node_can_contain_type_def node_live split: option.splits)

lemma can_contain_total:
  assumes "forest h kids" "live (view h) q" "live (view h) s"
  obtains b where "S_can_contain env h (Some q) (Some s) = Inr b"
    "enable_safety_checks env \<Longrightarrow> b \<Longrightarrow> s \<notin> ancestors (view h) q"
proof -
  have l: "links h kids" "acyclic (parent_rel (view h))" using assms by (simp_all add: forest_def)
  have "is_ancestor (Suc (length h)) h q s = Inr (s \<in> ancestors (view h) q)"
    by (rule is_ancestor_eq [OF l assms(2)]) (use ancestors_finite(2) [OF l(1) assms(2)] in simp)
  note anc = this
  obtain b0 where b0: "cmark_node_can_contain_type env h q (n_type (the_node h s)) = Inr b0"
    using can_contain_type_total [OF assms(2)] by blast
  let ?same = "mem_id (mem (n_content (the_node h q))) = mem_id (mem (n_content (the_node h s)))"
  have "S_can_contain env h (Some q) (Some s) =
      Inr (?same \<and> \<not> (enable_safety_checks env \<and> s \<in> ancestors (view h) q) \<and> b0)"
    unfolding S_can_contain_def
    by (simp add: node_live(1) [OF assms(2)] node_live(1) [OF assms(3)] anc b0 bindr_def del: is_ancestor.simps)
  then show ?thesis by (rule that) simp
qed

lemma forest_link:
  assumes "acyclic (parent_rel v)" "s \<notin> ancestors v q" "live v' = live v" "pa v' = (pa v)(s := Some q)"
  shows "acyclic (parent_rel v')"
proof -
  have "parent_rel v' \<subseteq> insert (s, q) (parent_rel v)" using assms(3,4) by (auto simp: parent_rel_def split: if_splits)
  moreover have "acyclic (insert (s, q) (parent_rel v))"
    using assms(1,2) by (simp add: acyclic_insert ancestors_def)
  ultimately show ?thesis by (rule acyclic_subset [rotated])
qed

section \<open>Every operation on a forest\<close>

text \<open>
  The steps a client can make: creating a node, and the six linking operations on live nodes.
  A node is not its own sibling to be (see the property about \<open>cmark_node_insert_before\<close> below).
\<close>

inductive tree_step :: "node_env \<Rightarrow> heap \<Rightarrow> heap \<Rightarrow> bool" for env where
  step_new: "cmark_node_new_with_mem_and_ext env h t m ext = Inr (p, h') \<Longrightarrow> tree_step env h h'"
| step_unlink: "live (view h) p \<Longrightarrow> cmark_node_unlink h (Some p) = Inr h' \<Longrightarrow> tree_step env h h'"
| step_before: "live (view h) p \<Longrightarrow> live (view h) s \<Longrightarrow> p \<noteq> s \<Longrightarrow>
    cmark_node_insert_before env h (Some p) (Some s) = Inr (b, h') \<Longrightarrow> tree_step env h h'"
| step_after: "live (view h) p \<Longrightarrow> live (view h) s \<Longrightarrow> p \<noteq> s \<Longrightarrow>
    cmark_node_insert_after env h (Some p) (Some s) = Inr (b, h') \<Longrightarrow> tree_step env h h'"
| step_replace: "live (view h) p \<Longrightarrow> live (view h) s \<Longrightarrow> p \<noteq> s \<Longrightarrow>
    cmark_node_replace env h (Some p) (Some s) = Inr (b, h') \<Longrightarrow> tree_step env h h'"
| step_prepend: "live (view h) p \<Longrightarrow> live (view h) s \<Longrightarrow>
    cmark_node_prepend_child env h (Some p) (Some s) = Inr (b, h') \<Longrightarrow> tree_step env h h'"
| step_append: "live (view h) p \<Longrightarrow> live (view h) s \<Longrightarrow>
    cmark_node_append_child env h (Some p) (Some s) = Inr (b, h') \<Longrightarrow> tree_step env h h'"

inductive_cases tree_stepE [elim!]: "tree_step env h h'"

text \<open>\<open>keeps m\<close>: the call returns, in a forest.\<close>

definition keeps :: "(bool \<times> heap) res \<Rightarrow> (nptr \<Rightarrow> bool) \<Rightarrow> bool" where
  "keeps m lv \<longleftrightarrow> (\<exists>b h' kids. m = Inr (b, h') \<and> forest h' kids \<and> live (view h') = lv)"

lemma keeps_same: "forest h kids \<Longrightarrow> m = Inr (b, h) \<Longrightarrow> keeps m (live (view h))"
  by (auto simp: keeps_def)

lemma keeps_link:
  assumes "forest h kids" "s \<notin> ancestors (view h) q"
    and "\<exists>h'. m = Inr (True, h') \<and> same_data h h' \<and> links h' kids' \<and> live (view h') = live (view h) \<and>
      pa (view h') = (pa (view h))(s := Some q)"
  shows "keeps m (live (view h))"
  using assms forest_link [of "view h" s q] unfolding keeps_def forest_def by blast

lemma keeps_insert:
  assumes f: "forest h kids" and safe: "enable_safety_checks env"
    and p: "live (view h) p" and s: "live (view h) s" and ps: "p \<noteq> s"
  shows "keeps (cmark_node_insert_before env h (Some p) (Some s)) (live (view h)) \<and>
    keeps (cmark_node_insert_after env h (Some p) (Some s)) (live (view h))"
proof (cases "pa (view h) p")
  case None
  then show ?thesis
    using p s by (auto intro!: keeps_same [OF f] simp: cmark_node_insert_before_def
        cmark_node_insert_after_def node_live)
next
  case (Some q)
  have l: "links h kids" and q: "live (view h) q" using f links_live p Some by (auto simp: forest_def)
  obtain b where b: "S_can_contain env h (Some q) (Some s) = Inr b"
    "b \<Longrightarrow> s \<notin> ancestors (view h) q"
    using can_contain_total [OF f q s, of env] safe by metis
  show ?thesis
  proof (cases b)
    case True
    with b have "S_can_contain env h (Some q) (Some s) = Inr True" "s \<notin> ancestors (view h) q" by simp_all
    then show ?thesis
      using insert_before_ok [OF l p s ps Some] insert_after_ok [OF l p s ps Some] keeps_link [OF f] by blast
  next
    case False
    then show ?thesis
      using b(1) p s Some by (auto intro!: keeps_same [OF f] simp: cmark_node_insert_before_def
          cmark_node_insert_after_def node_live)
  qed
qed

lemma keeps_child:
  assumes f: "forest h kids" and safe: "enable_safety_checks env"
    and p: "live (view h) p" and s: "live (view h) s"
  shows "keeps (cmark_node_prepend_child env h (Some p) (Some s)) (live (view h)) \<and>
    keeps (cmark_node_append_child env h (Some p) (Some s)) (live (view h))"
proof -
  have l: "links h kids" using f by (auto simp: forest_def)
  obtain b where b: "S_can_contain env h (Some p) (Some s) = Inr b"
    "b \<Longrightarrow> s \<notin> ancestors (view h) p"
    using can_contain_total [OF f p s, of env] safe by metis
  show ?thesis
  proof (cases b)
    case True
    with b have "S_can_contain env h (Some p) (Some s) = Inr True" "s \<notin> ancestors (view h) p" by simp_all
    then show ?thesis
      using prepend_ok [OF l p s] append_ok [OF l p s] keeps_link [OF f] by blast
  next
    case False
    then show ?thesis
      using b(1) by (auto intro!: keeps_same [OF f] simp: cmark_node_prepend_child_def
          cmark_node_append_child_def)
  qed
qed

lemma keeps_unlink:
  assumes "forest h kids" "live (view h) p"
  shows "\<exists>h'. cmark_node_unlink h (Some p) = Inr h' \<and> forest h' (without p kids) \<and>
    live (view h') = live (view h)"
proof -
  have "links h kids" using assms by (simp add: forest_def)
  from node_unlink_links [OF this assms(2)] obtain h' where
    h': "cmark_node_unlink h (Some p) = Inr h'" "links h' (without p kids)"
    "live (view h') = live (view h)" "pa (view h') = (pa (view h))(p := None)" by blast
  have "parent_rel (view h') \<subseteq> parent_rel (view h)"
    using h'(3,4) by (auto simp: parent_rel_def split: if_splits)
  then have "acyclic (parent_rel (view h'))" using assms(1) acyclic_subset by (auto simp: forest_def)
  with h' show ?thesis by (auto simp: forest_def)
qed

lemma keeps_replace:
  assumes f: "forest h kids" and safe: "enable_safety_checks env"
    and p: "live (view h) p" and s: "live (view h) s" and ps: "p \<noteq> s"
  shows "keeps (cmark_node_replace env h (Some p) (Some s)) (live (view h))"
proof -
  obtain b h1 k1 where h1: "cmark_node_insert_before env h (Some p) (Some s) = Inr (b, h1)"
    "forest h1 k1" "live (view h1) = live (view h)"
    using keeps_insert [OF f safe p s ps] by (auto simp: keeps_def)
  show ?thesis
  proof (cases b)
    case True
    obtain h2 where "cmark_node_unlink h1 (Some p) = Inr h2" "forest h2 (without p k1)"
      "live (view h2) = live (view h)"
      using keeps_unlink [OF h1(2)] p h1(3) by metis
    with h1 True show ?thesis by (auto simp: keeps_def cmark_node_replace_def)
  next
    case False
    with h1 show ?thesis by (auto simp: keeps_def cmark_node_replace_def)
  qed
qed

lemma new_node_links:
  assumes "new_node env t m ext = Inr n" "\<And>e f k. opaque_alloc_func (exts env e) = Some f \<Longrightarrow> f k = k\<lparr>n_as := n_as (f k)\<rparr>"
  shows "n_next n = None" "n_prev n = None" "n_parent n = None" "n_first n = None" "n_last n = None"
proof -
  have alloc: "n_next (f k) = n_next k \<and> n_prev (f k) = n_prev k \<and> n_parent (f k) = n_parent k \<and>
      n_first (f k) = n_first k \<and> n_last (f k) = n_last k"
    if "opaque_alloc_func (exts env e) = Some f" for e f k
    by (subst (1 2 3 4 5) assms(2) [OF that]) simp
  show "n_next n = None" "n_prev n = None" "n_parent n = None" "n_first n = None" "n_last n = None"
    using assms(1) alloc
    by (auto simp: new_node_def Let_def node_zero_def split: option.splits if_splits bind_splits)
qed

lemma links_append_root:
  assumes l: "links h kids"
    and n: "n_next n = None" "n_prev n = None" "n_parent n = None" "n_first n = None" "n_last n = None"
  shows "links (h @ [Some n]) kids" "parent_rel (view (h @ [Some n])) = parent_rel (view h)"
proof -
  have new: "\<not> live (view h) (length h)" using live_length [of h "length h"] by auto
  have v: "view (h @ [Some n]) = (view h)\<lparr>live := (live (view h))(length h := True),
      nx := (nx (view h))(length h := None), pv := (pv (view h))(length h := None),
      pa := (pa (view h))(length h := None), fc := (fc (view h))(length h := None),
      lc := (lc (view h))(length h := None)\<rparr>"
    using n by (auto simp: view_def heap fun_eq_iff)
  have lb: "links_but {} (view h) kids" using l by (simp add: links_def)
  note D = links_butD [OF lb]
  have e: "kids (length h) = []" using D(14) [OF new] .
  have nk: "c \<noteq> length h" if "c \<in> set (kids q)" for c q using D(4) [OF that] new by auto
  show "parent_rel (view (h @ [Some n])) = parent_rel (view h)"
    using new by (auto simp: v parent_rel_def split: if_splits)
  show "links (h @ [Some n]) kids"
    unfolding links_def links_but_def
  proof (intro conjI allI impI)
    fix q c assume c: "c \<in> set (kids q)"
    note c' = nk [OF c] D(4,6-8) [OF c]
    show "live (view (h @ [Some n])) c" "c \<notin> {}" "pa (view (h @ [Some n])) c = Some q"
      "nx (view (h @ [Some n])) c = next_in (kids q) c" "pv (view (h @ [Some n])) c = prev_in (kids q) c"
      using c' by (simp_all add: v)
  next
    fix c q assume "live (view (h @ [Some n])) c \<and> c \<notin> {} \<and> pa (view (h @ [Some n])) c = Some q"
    then show "live (view (h @ [Some n])) q" "c \<in> set (kids q)"
      using D(10,11) [of c q] by (auto simp: v split: if_splits)
  qed (use D(1-3,12-14) e in \<open>auto simp: v split: if_splits\<close>)
qed

text \<open>
  An extension's allocation callback fills in the payload of the new node; it is called before the
  node is linked and does not touch its links.
\<close>

definition alloc_payload_only :: "node_env \<Rightarrow> bool" where
  "alloc_payload_only env \<longleftrightarrow>
     (\<forall>e f k. opaque_alloc_func (exts env e) = Some f \<longrightarrow> f k = k\<lparr>n_as := n_as (f k)\<rparr>)"

lemma keepsD: "keeps m lv \<Longrightarrow> m = Inr (b, h') \<Longrightarrow> \<exists>kids. forest h' kids"
  by (auto simp: keeps_def)

lemma forest_step:
  assumes "tree_step env h h'" "forest h kids" "enable_safety_checks env" "alloc_payload_only env"
  shows "\<exists>kids'. forest h' kids'"
  using assms(1)
proof (elim tree_stepE)
  fix t m ext p assume "cmark_node_new_with_mem_and_ext env h t m ext = Inr (p, h')"
  then obtain n where n: "new_node env t m ext = Inr n" "h' = h @ [Some n]"
    by (auto simp: cmark_node_new_with_mem_and_ext_def)
  have "n_next n = None" "n_prev n = None" "n_parent n = None" "n_first n = None" "n_last n = None"
    using new_node_links [OF n(1)] assms(4) unfolding alloc_payload_only_def by blast+
  then show ?thesis
    using links_append_root [of h kids n] assms(2) n(2) by (auto simp: forest_def)
next
  fix p assume "live (view h) p" "cmark_node_unlink h (Some p) = Inr h'"
  with keeps_unlink [OF assms(2)] show ?thesis by fastforce
qed (use keepsD keeps_insert [OF assms(2,3)] keeps_child [OF assms(2,3)] keeps_replace [OF assms(2,3)]
    in blast)+

lemma forest_Nil: "forest [] (\<lambda>_. [])"
  by (simp add: forest_def links_def links_but_def view_def cell_def parent_rel_def acyclic_def)

lemma forest_steps:
  assumes "(tree_step env)\<^sup>*\<^sup>* h h'" "forest h kids" "enable_safety_checks env" "alloc_payload_only env"
  shows "\<exists>kids'. forest h' kids'"
  using assms(1,2)
proof (induction arbitrary: kids rule: converse_rtranclp_induct)
  case (step y z)
  from forest_step [OF step(1,4) assms(3,4)] step(3) show ?case by blast
qed blast

section \<open>Properties\<close>

definition sample_ext :: cmark_syntax_extension where
  "sample_ext = \<lparr>ext_name = [], emphasis = False, can_contain_func = None,
     get_type_string_func = None, opaque_alloc_func = None, opaque_free_func = None\<rparr>"

definition sample_env :: node_env where
  "sample_env = \<lparr>enable_safety_checks = True, exts = (\<lambda>_. sample_ext)\<rparr>"

text \<open>A document with the paragraphs 1 and 2, and a loose paragraph 3.\<close>

definition sample_tree :: heap where
  "sample_tree =
     [Some ((sample_node CMARK_NODE_DOCUMENT As_zero)\<lparr>n_first := Some 1, n_last := Some 2\<rparr>),
      Some ((sample_node CMARK_NODE_PARAGRAPH As_zero)\<lparr>n_parent := Some 0, n_next := Some 2\<rparr>),
      Some ((sample_node CMARK_NODE_PARAGRAPH As_zero)\<lparr>n_parent := Some 0, n_prev := Some 1\<rparr>),
      Some (sample_node CMARK_NODE_PARAGRAPH As_zero)]"

definition sample_kids :: "nptr \<Rightarrow> nptr list" where
  "sample_kids = (\<lambda>_. [])(0 := [1, 2])"

lemma sample_cell:
  "cell sample_tree 0 = Some ((sample_node CMARK_NODE_DOCUMENT As_zero)\<lparr>n_first := Some 1, n_last := Some 2\<rparr>)"
  "cell sample_tree 1 = Some ((sample_node CMARK_NODE_PARAGRAPH As_zero)\<lparr>n_parent := Some 0, n_next := Some 2\<rparr>)"
  "cell sample_tree (Suc 0) = Some ((sample_node CMARK_NODE_PARAGRAPH As_zero)\<lparr>n_parent := Some 0, n_next := Some 2\<rparr>)"
  "cell sample_tree 2 = Some ((sample_node CMARK_NODE_PARAGRAPH As_zero)\<lparr>n_parent := Some 0, n_prev := Some 1\<rparr>)"
  "cell sample_tree 3 = Some (sample_node CMARK_NODE_PARAGRAPH As_zero)"
  "3 < p \<Longrightarrow> cell sample_tree p = None"
  by (simp_all add: cell_def sample_tree_def)

lemma sample_links: "links sample_tree sample_kids"
proof -
  have p: "p = 0 \<or> p = 1 \<or> p = 2 \<or> p = 3 \<or> 3 < p" for p :: nat by linarith
  let ?v = "view sample_tree"
  have v: "live ?v p \<longleftrightarrow> p \<le> 3" "pa ?v p = (if p = 1 \<or> p = 2 then Some 0 else None)"
    "nx ?v p = (if p = 1 then Some 2 else None)" "pv ?v p = (if p = 2 then Some 1 else None)"
    "fc ?v p = (if p = 0 then Some 1 else None)" "lc ?v p = (if p = 0 then Some 2 else None)" for p
    using p [of p] by (auto simp: view_def sample_cell sample_node_def node_zero_def)
  show ?thesis
    unfolding links_def links_but_def v sample_kids_def by (auto simp: prev_in_def)
qed

lemma sample_live: "live (view sample_tree) p \<longleftrightarrow> p \<le> 3"
proof -
  have "p = 0 \<or> p = 1 \<or> p = 2 \<or> p = 3 \<or> 3 < p" by linarith
  then show ?thesis by (auto simp: view_def sample_cell)
qed

lemma sample_forest: "forest sample_tree sample_kids"
proof -
  have "parent_rel (view sample_tree) \<subseteq> {1, 2} \<times> {0}"
  proof
    fix x assume "x \<in> parent_rel (view sample_tree)"
    then obtain c q where x: "x = (c, q)" "c \<le> 3" "pa (view sample_tree) c = Some q"
      by (auto simp: parent_rel_def sample_live)
    then have "c = 0 \<or> c = 1 \<or> c = 2 \<or> c = 3" by linarith
    with x show "x \<in> {1, 2} \<times> {0}" by (auto simp: view_def sample_cell sample_node_def node_zero_def)
  qed
  moreover have "acyclic ({1, 2} \<times> {0 :: nat})"
  proof (rule acyclicI, rule allI)
    have "y = 0 \<and> x \<noteq> 0" if "(x, y) \<in> ({1, 2} \<times> {0 :: nat})\<^sup>+" for x y
      using that by (induction) auto
    then show "(x, x) \<notin> ({1, 2} \<times> {0 :: nat})\<^sup>+" for x by blast
  qed
  ultimately have "acyclic (parent_rel (view sample_tree))" by (rule acyclic_subset [rotated])
  then show ?thesis using sample_links by (simp add: forest_def)
qed

text \<open>
  C10: Unlinking a live node of a well-linked heap always succeeds, gives a well-linked heap in which
  the node is no child of any node and every other children list is as it was, and changes nothing
  but links.
\<close>

theorem unlink_refines:
  assumes "links h kids" "live (view h) p"
  shows "\<exists>h'. cmark_node_unlink h (Some p) = Inr h' \<and> links h' (\<lambda>q. removeAll p (kids q)) \<and>
    same_data h h' \<and> live (view h') = live (view h) \<and> pa (view h') p = None"
proof -
  have "without p kids = (\<lambda>q. removeAll p (kids q))" by (simp add: without_def fun_eq_iff)
  with node_unlink_links [OF assms] show ?thesis by auto
qed

theorem unlink_refines_witness:
  "\<exists>h'. cmark_node_unlink sample_tree (Some 1) = Inr h' \<and> links h' (\<lambda>q. removeAll 1 (sample_kids q))"
  using unlink_refines [OF sample_links, of 1] by (auto simp: sample_live)

text \<open>
  C8: Inserting a node before or after another one, or in its place, is the list operation on the
  children of the parent (after the new sibling has left its old place), whenever the parent can
  contain the new sibling; if it cannot, or if there is no parent, nothing changes and 0 is
  returned.
\<close>

theorem insert_refines:
  assumes "links h kids" "live (view h) p" "live (view h) s" "p \<noteq> s"
    "pa (view h) p = Some q" "S_can_contain env h (Some q) (Some s) = Inr ok"
  shows "if ok
    then (\<exists>h'. cmark_node_insert_before env h (Some p) (Some s) = Inr (True, h') \<and> same_data h h' \<and>
        links h' ((without s kids)(q := ins_before s p (without s kids q)))) \<and>
      (\<exists>h'. cmark_node_insert_after env h (Some p) (Some s) = Inr (True, h') \<and> same_data h h' \<and>
        links h' ((without s kids)(q := ins_after s p (without s kids q)))) \<and>
      (\<exists>h'. cmark_node_replace env h (Some p) (Some s) = Inr (True, h') \<and> same_data h h' \<and>
        links h' ((without s kids)(q := map (\<lambda>x. if x = p then s else x) (without s kids q))))
    else cmark_node_insert_before env h (Some p) (Some s) = Inr (False, h) \<and>
      cmark_node_insert_after env h (Some p) (Some s) = Inr (False, h) \<and>
      cmark_node_replace env h (Some p) (Some s) = Inr (False, h)"
proof (cases ok)
  case True
  with assms(6) have "S_can_contain env h (Some q) (Some s) = Inr True" by simp
  with insert_before_ok [OF assms(1-5) this] insert_after_ok [OF assms(1-5) this]
    replace_ok [OF assms(1-5) this] True show ?thesis by auto
next
  case False
  then show ?thesis
    using assms by (simp add: cmark_node_insert_before_def cmark_node_insert_after_def
        cmark_node_replace_def node_live)
qed

theorem insert_refines_witness:
  "\<exists>h'. cmark_node_insert_before sample_env sample_tree (Some 2) (Some 3) = Inr (True, h') \<and>
     links h' (sample_kids(0 := [1, 3, 2]))"
proof -
  have "S_can_contain sample_env sample_tree (Some 0) (Some 3) = Inr True" by code_simp
  moreover have "pa (view sample_tree) 2 = Some 0"
    by (simp add: view_def sample_cell sample_node_def node_zero_def)
  moreover have "(without 3 sample_kids)(0 := ins_before 3 2 (without 3 sample_kids 0)) = sample_kids(0 := [1, 3, 2])"
    by (auto simp: fun_eq_iff without_def sample_kids_def)
  ultimately show ?thesis
    using insert_refines [OF sample_links, of 2 3 0 sample_env True] by (auto simp: sample_live)
qed

text \<open>
  C9: Adding a node as the first or last child of another one is consing or appending it to the list
  of its children, after it has left its old place; if the parent cannot contain it, nothing
  changes and 0 is returned.
\<close>

theorem child_refines:
  assumes "links h kids" "live (view h) p" "live (view h) c"
    "S_can_contain env h (Some p) (Some c) = Inr ok"
  shows "if ok
    then (\<exists>h'. cmark_node_prepend_child env h (Some p) (Some c) = Inr (True, h') \<and> same_data h h' \<and>
        links h' ((without c kids)(p := c # without c kids p))) \<and>
      (\<exists>h'. cmark_node_append_child env h (Some p) (Some c) = Inr (True, h') \<and> same_data h h' \<and>
        links h' ((without c kids)(p := without c kids p @ [c])))
    else cmark_node_prepend_child env h (Some p) (Some c) = Inr (False, h) \<and>
      cmark_node_append_child env h (Some p) (Some c) = Inr (False, h)"
proof (cases ok)
  case True
  with assms(4) have "S_can_contain env h (Some p) (Some c) = Inr True" by simp
  with prepend_ok [OF assms(1-3) this] append_ok [OF assms(1-3) this] True show ?thesis by auto
next
  case False
  then show ?thesis
    using assms by (simp add: cmark_node_prepend_child_def cmark_node_append_child_def)
qed

theorem child_refines_witness:
  "\<exists>h'. cmark_node_append_child sample_env sample_tree (Some 0) (Some 1) = Inr (True, h') \<and>
     links h' (sample_kids(0 := [2, 1]))"
proof -
  have "S_can_contain sample_env sample_tree (Some 0) (Some 1) = Inr True" by code_simp
  moreover have "(without 1 sample_kids)(0 := without 1 sample_kids 0 @ [1]) = sample_kids(0 := [2, 1])"
    by (auto simp: fun_eq_iff without_def sample_kids_def)
  ultimately show ?thesis
    using child_refines [OF sample_links, of 0 1 sample_env True] by (auto simp: sample_live)
qed

text \<open>
  C3: With the safety checks enabled, whatever sequence of node creations and linking operations a
  client performs on live nodes, starting from nothing, the heap always represents a forest: the
  links are consistent and the parent pointers have no cycle.  Two things are excluded: putting a node before,
  behind or in the place of itself, which the code does not refuse (\<open>insert_before_itself\<close>), and an
  extension whose \<open>opaque_alloc_func\<close> changes the links of a new node (\<open>alloc_payload_only\<close>).
\<close>

theorem reachable_forest:
  assumes "(tree_step env)\<^sup>*\<^sup>* [] h" "enable_safety_checks env" "alloc_payload_only env"
  shows "\<exists>kids. links h kids \<and> acyclic (parent_rel (view h))"
  using forest_steps [OF assms(1) forest_Nil assms(2,3)] by (simp add: forest_def)

text \<open>A document with a paragraph, before which a second one is inserted.\<close>

definition script :: "(bool \<times> bool \<times> heap \<times> heap \<times> heap \<times> heap \<times> heap) res" where
  "script =
     bindr (cmark_node_new_with_mem_and_ext sample_env [] CMARK_NODE_DOCUMENT sample_mem None) (\<lambda>(_, h1).
     bindr (cmark_node_new_with_mem_and_ext sample_env h1 CMARK_NODE_PARAGRAPH sample_mem None) (\<lambda>(_, h2).
     bindr (cmark_node_new_with_mem_and_ext sample_env h2 CMARK_NODE_PARAGRAPH sample_mem None) (\<lambda>(_, h3).
     bindr (cmark_node_append_child sample_env h3 (Some 0) (Some 1)) (\<lambda>(b, h4).
     bindr (cmark_node_insert_before sample_env h4 (Some 1) (Some 2)) (\<lambda>(c, h5).
     Inr (b, c, h1, h2, h3, h4, h5))))))"

theorem reachable_forest_witness:
  "\<exists>h kids. (tree_step sample_env)\<^sup>*\<^sup>* [] h \<and> fc (view h) 0 = Some 2 \<and> nx (view h) 2 = Some 1 \<and>
     links h kids \<and> acyclic (parent_rel (view h))"
proof -
  have "case script of
      Inr (b, c, h1, h2, h3, h4, h5) \<Rightarrow> cell h3 0 \<noteq> None \<and> cell h3 1 \<noteq> None \<and> cell h4 1 \<noteq> None \<and> cell h4 2 \<noteq> None \<and>
        Option.bind (cell h5 0) n_first = Some 2 \<and> Option.bind (cell h5 2) n_next = Some 1
    | Inl _ \<Rightarrow> False" by code_simp
  then obtain b c h1 h2 h3 h4 h5 where s: "script = Inr (b, c, h1, h2, h3, h4, h5)"
    and live: "live (view h3) 0" "live (view h3) 1" "live (view h4) 1" "live (view h4) 2"
    and out: "fc (view h5) 0 = Some 2" "nx (view h5) 2 = Some 1"
    by (auto simp: view_def split: sum.splits prod.splits)
  obtain p1 p2 p3 where new: "cmark_node_new_with_mem_and_ext sample_env [] CMARK_NODE_DOCUMENT sample_mem None = Inr (p1, h1)"
    "cmark_node_new_with_mem_and_ext sample_env h1 CMARK_NODE_PARAGRAPH sample_mem None = Inr (p2, h2)"
    "cmark_node_new_with_mem_and_ext sample_env h2 CMARK_NODE_PARAGRAPH sample_mem None = Inr (p3, h3)"
    and ops: "cmark_node_append_child sample_env h3 (Some 0) (Some 1) = Inr (b, h4)"
      "cmark_node_insert_before sample_env h4 (Some 1) (Some 2) = Inr (c, h5)"
    using s unfolding script_def by (auto split: sum.splits prod.splits simp: bindr_eq_Inr)
  have "(tree_step sample_env)\<^sup>*\<^sup>* [] h5"
    using step_new [OF new(1)] step_new [OF new(2)] step_new [OF new(3)] step_append [OF live(1,2) ops(1)]
      step_before [OF live(3,4) _ ops(2)] by simp
  moreover have "enable_safety_checks sample_env" "alloc_payload_only sample_env"
    by (simp_all add: sample_env_def alloc_payload_only_def sample_ext_def)
  ultimately show ?thesis using reachable_forest [of sample_env h5] out by blast
qed

text \<open>
  C11: With the safety checks enabled, no linking operation on live nodes of a forest fails, and the
  walk to the ancestors in \<open>S_can_contain\<close> always ends: all of them return, in a forest with the
  same nodes.  For the three operations that put a node next to or in the place of another one, the two
  nodes must be different: the code does not refuse the same node, and the result is no forest
  (\<open>insert_before_itself\<close>).  Making a node its own child is refused.
\<close>

theorem linking_total:
  assumes "forest h kids" "enable_safety_checks env" "live (view h) p" "live (view h) s"
  shows "\<forall>op \<in> (if p = s then {} else {cmark_node_insert_before, cmark_node_insert_after, cmark_node_replace}) \<union>
      {cmark_node_prepend_child, cmark_node_append_child}.
    \<exists>b h' kids'. op env h (Some p) (Some s) = Inr (b, h') \<and> forest h' kids' \<and>
      live (view h') = live (view h)"
  using keeps_insert [OF assms] keeps_child [OF assms] keeps_replace [OF assms]
  unfolding keeps_def by simp

theorem linking_total_witness:
  "(\<exists>b h' kids'. cmark_node_append_child sample_env sample_tree (Some 3) (Some 1) = Inr (b, h') \<and> forest h' kids') \<and>
   (\<exists>b h' kids'. cmark_node_replace sample_env sample_tree (Some 3) (Some 1) = Inr (b, h') \<and> forest h' kids')"
proof -
  have "enable_safety_checks sample_env" by (simp add: sample_env_def)
  with sample_forest show ?thesis using linking_total [of sample_tree sample_kids sample_env 3 1]
    by (simp add: sample_live) blast
qed

text \<open>
  Inserting a node before itself is not refused: the call returns 1 and leaves a node whose
  \<open>next\<close> and \<open>prev\<close> pointers lead to itself, so that the heap is no longer linked and a walk along
  the siblings never ends.
\<close>

theorem insert_before_itself:
  "\<exists>h'. cmark_node_insert_before sample_env sample_tree (Some 1) (Some 1) = Inr (True, h') \<and>
     nx (view h') 1 = Some 1 \<and> pv (view h') 1 = Some 1 \<and> (\<nexists>kids. links h' kids)"
proof -
  obtain h' where h': "cmark_node_insert_before sample_env sample_tree (Some 1) (Some 1) = Inr (True, h')"
    "Option.bind (cell h' 1) n_next = Some 1" "Option.bind (cell h' 1) n_prev = Some 1"
    "cell h' 1 \<noteq> None"
  proof -
    have "case cmark_node_insert_before sample_env sample_tree (Some 1) (Some 1) of
        Inr (b, h') \<Rightarrow> b \<and> Option.bind (cell h' 1) n_next = Some 1 \<and> Option.bind (cell h' 1) n_prev = Some 1 \<and> cell h' 1 \<noteq> None
      | Inl _ \<Rightarrow> False" by code_simp
    then show thesis using that by (auto split: sum.splits)
  qed
  then have v: "nx (view h') 1 = Some 1" "pv (view h') 1 = Some 1" "live (view h') 1"
    by (simp_all add: view_def)
  have "\<not> links h' kids" for kids
    using neighbours(1) [of "{}" "view h'" kids 1 1] v by (auto simp: links_def)
  with h' v show ?thesis by blast
qed

end
