(* ===== verification/Node_Free.thy ===== *)
theory Node_Free
  imports Node_Links
begin

text \<open>
  Freeing a tree: \<open>S_free_nodes\<close> and \<open>cmark_node_free\<close> of src/src/node.c.

  The C loop needs no stack: it splices the children of the node it frees into the list that it
  walks.  \<open>worklist\<close> is the invariant of that loop, \<open>reach\<close> the nodes below the list, and the main
  lemma says that the loop frees exactly these nodes, each once, and leaves every other cell as it
  is.  The callbacks that free the data behind \<open>as.opaque\<close> are parameters, assumed to return; the
  one that frees \<open>user_data\<close> is called with a pointer that is not part of the heap and has no effect
  in the model.
\<close>

section \<open>The code\<close>

definition opaque_free :: "node_env \<Rightarrow> cmark_node \<Rightarrow> unit res" where
  "opaque_free env n =
     (case Option.bind (extension n) (\<lambda>e. opaque_free_func (exts env e)) of
        None \<Rightarrow> Inr ()
      | Some f \<Rightarrow>
          bindr (as_opaque (n_as n)) (\<lambda>q. if q \<noteq> None then f n else Inr ()))"

definition free_step :: "node_env \<Rightarrow> heap \<Rightarrow> nptr \<Rightarrow> (heap \<times> nptr option) res" where
  "free_step env h p =
     bindr (deref h p) (\<lambda>n.
     bindr (cmark_strbuf_free (n_content n)) (\<lambda>c.
     bindr (update h p (n_content_update (\<lambda>_. c))) (\<lambda>h.
     bindr (opaque_free env (n\<lparr>n_content := c\<rparr>)) (\<lambda>_.
     bindr (free_node_as h p) (\<lambda>h.
     bindr (deref h p) (\<lambda>n.
     bindr (case n_last n of
              Some l \<Rightarrow>
                bindr (update h l (n_next_update (\<lambda>_. n_next n))) (\<lambda>h.
                update h p (n_next_update (\<lambda>_. n_first n)))
            | None \<Rightarrow> Inr h) (\<lambda>h.
     bindr (deref h p) (\<lambda>n.
     bindr (release h p) (\<lambda>h. Inr (h, n_next n))))))))))"

definition live_count :: "heap \<Rightarrow> nat" where
  "live_count h = card {p. live (view h) p}"

lemma live_finite [simp]: "finite {p. live (view h) p}"
  by (rule finite_subset [of _ "{..<length h}"]) (auto dest: live_length)

lemma update_live: "update h p f = Inr h' \<Longrightarrow> live (view h') = live (view h)"
  by (auto elim!: update_cell simp: view_def heap fun_eq_iff split: if_splits)

lemma on_chunk_live: "on_chunk h p m f = Inr (r, h') \<Longrightarrow> live (view h') = live (view h)"
  by (auto simp: on_chunk_def dest: update_live)

lemma chunk_free_live: "chunk_free_at h p m = Inr h' \<Longrightarrow> live (view h') = live (view h)"
  by (auto simp: chunk_free_at_def dest: on_chunk_live)

lemma free_node_as_live: "free_node_as h p = Inr h' \<Longrightarrow> live (view h') = live (view h)"
  by (auto simp: free_node_as_def dest!: chunk_free_live split: if_splits)

lemma release_live: "release h p = Inr h' \<Longrightarrow> live (view h') = (live (view h))(p := False)"
  by (auto simp: release_def deref_Inr view_def heap fun_eq_iff dest: cell_length)

lemma splice_live:
  "(case l of Some l \<Rightarrow> bindr (update h l f) (\<lambda>h. update h p g) | None \<Rightarrow> Inr h) = Inr h' \<Longrightarrow>
     live (view h') = live (view h)"
  by (auto split: option.splits dest!: update_live)

lemma free_step_live:
  assumes "free_step env h p = Inr (h', nxt)"
  shows "live (view h') = (live (view h))(p := False)" "live (view h) p"
  using assms unfolding free_step_def
  by (auto simp: deref_Inr dest!: update_live free_node_as_live splice_live release_live)
    (simp add: view_def)

function S_free_nodes :: "node_env \<Rightarrow> heap \<Rightarrow> nptr option \<Rightarrow> heap res" where
  "S_free_nodes env h None = Inr h"
| "S_free_nodes env h (Some p) =
     bindr (free_step env h p) (\<lambda>x. S_free_nodes env (fst x) (snd x))"
  by pat_completeness auto
termination
proof (relation "measure (\<lambda>(env, h, e). live_count h)", goal_cases)
  case (2 env h p x)
  then obtain h' nxt where x: "free_step env h p = Inr (h', nxt)" "x = (h', nxt)" by (cases x) auto
  have "{q. live (view h') q} \<subset> {q. live (view h) q}" using free_step_live [OF x(1)] by auto
  then show ?case using x by (simp add: live_count_def psubset_card_mono)
qed simp

definition cmark_node_free :: "node_env \<Rightarrow> heap \<Rightarrow> nptr option \<Rightarrow> heap res" where
  "cmark_node_free env h node =
     bindr (S_node_unlink h node) (\<lambda>h.
     case node of None \<Rightarrow> Inl Null_deref
     | Some p \<Rightarrow> bindr (update h p (n_next_update (\<lambda>_. None))) (\<lambda>h. S_free_nodes env h (Some p)))"

section \<open>One step\<close>

text \<open>A node whose payload can be freed.\<close>

definition freeable :: "node_env \<Rightarrow> cmark_node \<Rightarrow> bool" where
  "freeable env n \<longleftrightarrow>
     payload_ok (n_type n) (n_as n) \<and>
     (\<forall>m c. no_links m = no_links n \<longrightarrow> opaque_free env (m\<lparr>n_content := c\<rparr>) = Inr ())"

lemma freeable_same:
  assumes "freeable env n" "no_links m = no_links n"
  shows "freeable env m"
proof -
  have "n_type m = n_type n" "n_as m = n_as n"
    using arg_cong [OF assms(2), of n_type] arg_cong [OF assms(2), of n_as]
    by (simp_all add: no_links_def)
  with assms show ?thesis by (simp add: freeable_def)
qed

lemma chunk_free_cell:
  assumes "cell h p = Some n" "chunk_at_ok (n_as n) m"
  shows "\<exists>c. chunk_free_at h p m = Inr (h[p := Some (n\<lparr>n_as := set_chunk m c (n_as n)\<rparr>)]) \<and> chunk_ok c"
proof -
  obtain c where c: "get_chunk m (n_as n) = Inr c" using assms(2) by (auto simp: chunk_at_ok_iff)
  have "chunk_ok (cmark_chunk_free c)" by (simp add: cmark_chunk_free_def chunk_ok_def)
  with assms c show ?thesis by (auto simp: chunk_free_at_def on_chunk_def heap)
qed

lemma free_two_chunks:
  assumes n: "cell h p = Some n" and ok: "payload_ok (n_type n) (n_as n)"
    and m: "m \<in> set (chunk_members (n_type n))" "m' \<in> set (chunk_members (n_type n))"
  shows "\<exists>a. bindr (chunk_free_at h p m) (\<lambda>h. chunk_free_at h p m') = Inr (h[p := Some (n\<lparr>n_as := a\<rparr>)])"
proof -
  obtain c where c: "chunk_free_at h p m = Inr (h[p := Some (n\<lparr>n_as := set_chunk m c (n_as n)\<rparr>)])" "chunk_ok c"
    using chunk_free_cell [OF n payload_chunk [OF ok m(1)]] by blast
  let ?n = "n\<lparr>n_as := set_chunk m c (n_as n)\<rparr>"
  have "cell (h[p := Some ?n]) p = Some ?n" using cell_length [OF n] by (simp add: heap)
  moreover have "chunk_at_ok (n_as ?n) m'"
    using payload_chunk [OF set_chunk_payload_ok [OF ok m(1) c(2)] m(2)] by simp
  ultimately show ?thesis using chunk_free_cell [of "h[p := Some ?n]" p ?n m'] c(1) by auto
qed

lemma free_node_as_cell:
  assumes n: "cell h p = Some n" and ok: "payload_ok (n_type n) (n_as n)"
  shows "\<exists>a. free_node_as h p = Inr (h[p := Some (n\<lparr>n_as := a\<rparr>)])"
proof -
  have "h = h[p := Some (n\<lparr>n_as := n_as n\<rparr>)]"
    using n cell_length [OF n] list_update_id [of h p] by (simp add: cell_def)
  then have keep: "\<exists>a. Inr h = Inr (h[p := Some (n\<lparr>n_as := a\<rparr>)])" by metis
  have one: "\<exists>a. chunk_free_at h p m = Inr (h[p := Some (n\<lparr>n_as := a\<rparr>)])"
    if "m \<in> set (chunk_members (n_type n))" for m
    using chunk_free_cell [OF n payload_chunk [OF ok that]] by blast
  note two = free_two_chunks [OF n ok]
  have branch: "\<exists>a. (if b then x else y) = Inr (h[p := Some (n\<lparr>n_as := a\<rparr>)])"
    if "b \<Longrightarrow> \<exists>a. x = Inr (h[p := Some (n\<lparr>n_as := a\<rparr>)])"
      "\<not> b \<Longrightarrow> \<exists>a. y = Inr (h[p := Some (n\<lparr>n_as := a\<rparr>)])" for b and x y :: "heap res"
    using that by simp
  show ?thesis
    unfolding free_node_as_def deref_heap [OF n] bindr_Inr
    by (intro branch; (rule one two keep)?; simp add: chunk_members_def)
qed

lemma free_step_cells:
  assumes n: "cell h p = Some n" and ok: "freeable env n"
    and l: "\<And>l. n_last n = Some l \<Longrightarrow> live (view h) l \<and> l \<noteq> p"
  shows "\<exists>h'. free_step env h p = Inr (h', if n_last n = None then n_next n else n_first n) \<and>
    length h' = length h \<and>
    (\<forall>q. cell h' q = (if q = p then None
       else if n_last n = Some q then map_option (n_next_update (\<lambda>_. n_next n)) (cell h q) else cell h q))"
proof -
  have p: "p < length h" using n by (rule cell_length)
  obtain c where c: "cmark_strbuf_free (n_content n) = Inr c"
    by (auto simp: cmark_strbuf_free_def cmark_strbuf_init_def Let_def)
  let ?n1 = "n\<lparr>n_content := c\<rparr>"
  have n1: "cell (h[p := Some ?n1]) p = Some ?n1" using p by (simp add: heap)
  obtain a where a: "free_node_as (h[p := Some ?n1]) p = Inr (h[p := Some (?n1\<lparr>n_as := a\<rparr>)])"
    using free_node_as_cell [OF n1] ok by (auto simp: freeable_def)
  let ?n2 = "?n1\<lparr>n_as := a\<rparr>" and ?h2 = "h[p := Some (?n1\<lparr>n_as := a\<rparr>)]"
  have n2: "cell ?h2 p = Some ?n2" using p by (simp add: heap)
  have op: "opaque_free env ?n1 = Inr ()" using ok by (simp add: freeable_def)
  note run = free_step_def n c update_Inr deref_heap n1 op a n2
  show ?thesis
  proof (cases "n_last n")
    case None
    then have "free_step env h p = Inr (h[p := None], n_next n)"
      using p by (simp add: run release_def)
    with None show ?thesis by (intro exI [of _ "h[p := None]"]) (use p in \<open>simp add: heap\<close>)
  next
    case (Some l)
    obtain nl where nl: "cell h l = Some nl" "l \<noteq> p" using l [OF Some] by (auto simp: view_def)
    have l2: "cell ?h2 l = Some nl" "l < length h" using nl cell_length by (auto simp: heap)
    let ?h3 = "?h2[l := Some (nl\<lparr>n_next := n_next n\<rparr>)]"
    have n3: "cell ?h3 p = Some ?n2" using nl p by (simp add: heap)
    let ?n4 = "?n2\<lparr>n_next := n_first n\<rparr>"
    let ?h4 = "?h3[p := Some ?n4]"
    have n4: "cell ?h4 p = Some ?n4" using p by (simp add: heap)
    have "free_step env h p = Inr (?h4[p := None], n_first n)"
      using Some by (simp add: run l2 n3 n4 release_def)
    moreover have "cell (?h4[p := None]) q = (if q = p then None else if l = q
        then Some (nl\<lparr>n_next := n_next n\<rparr>) else cell h q)" for q
      using p l2 nl(2) by (auto simp: heap)
    ultimately show ?thesis using Some nl by (intro exI [of _ "?h4[p := None]"]) auto
  qed
qed

section \<open>The worklist\<close>

definition kid_rel :: "(nptr \<Rightarrow> nptr list) \<Rightarrow> (nptr \<times> nptr) set" where
  "kid_rel kids = {(p, c). c \<in> set (kids p)}"

definition reach :: "(nptr \<Rightarrow> nptr list) \<Rightarrow> nptr list \<Rightarrow> nptr set" where
  "reach kids ps = (kid_rel kids)\<^sup>* `` set ps"

text \<open>
  \<open>ps\<close> is the chain of \<open>next\<close> pointers still to be freed; the nodes below it are linked by \<open>kids\<close>, and
  none of them is below two nodes.
\<close>

definition worklist :: "links_view \<Rightarrow> (nptr \<Rightarrow> nptr list) \<Rightarrow> nptr list \<Rightarrow> bool" where
  "worklist v kids ps \<longleftrightarrow>
     distinct ps \<and>
     (\<forall>p q. p \<in> set ps \<longrightarrow> live v p \<and> nx v p = next_in ps p \<and> p \<notin> set (kids q)) \<and>
     (\<forall>q c r. c \<in> set (kids q) \<longrightarrow>
        live v c \<and> nx v c = next_in (kids q) c \<and> (c \<in> set (kids r) \<longrightarrow> r = q)) \<and>
     (\<forall>q. live v q \<longrightarrow> distinct (kids q) \<and> fc v q = hd_opt (kids q) \<and> lc v q = hd_opt (rev (kids q)))"

lemma worklistD:
  assumes "worklist v kids ps"
  shows "distinct ps" "p \<in> set ps \<Longrightarrow> live v p" "p \<in> set ps \<Longrightarrow> nx v p = next_in ps p"
    "p \<in> set ps \<Longrightarrow> p \<notin> set (kids q)"
    "c \<in> set (kids q) \<Longrightarrow> live v c" "c \<in> set (kids q) \<Longrightarrow> nx v c = next_in (kids q) c"
    "c \<in> set (kids q) \<Longrightarrow> c \<in> set (kids r) \<Longrightarrow> r = q"
    "live v q \<Longrightarrow> distinct (kids q)" "live v q \<Longrightarrow> fc v q = hd_opt (kids q)"
    "live v q \<Longrightarrow> lc v q = hd_opt (rev (kids q))"
  using assms unfolding worklist_def by blast+

lemma reach_step:
  assumes w: "worklist v kids (p # ps)"
  shows "reach kids (p # ps) = insert p (reach (kids(p := [])) (kids p @ ps))"
    "p \<notin> reach (kids(p := [])) (kids p @ ps)"
proof -
  let ?k = "kids(p := [])"
  have np: "p \<notin> set (kids q)" for q using worklistD(4) [OF w] by simp
  have keep: "(x, y) \<in> (kid_rel ?k)\<^sup>*" if "(x, y) \<in> (kid_rel kids)\<^sup>*" "x \<noteq> p" for x y
    using that
  proof (induction rule: rtrancl_induct)
    case (step y z)
    have "y \<noteq> p" using step.IH step.prems step.hyps(1) np
      by (auto simp: kid_rel_def elim: rtranclE)
    with step show ?case by (auto simp: kid_rel_def intro: rtrancl_into_rtrancl)
  qed simp
  have sub: "(kid_rel ?k)\<^sup>* \<subseteq> (kid_rel kids)\<^sup>*" by (rule rtrancl_mono) (auto simp: kid_rel_def split: if_splits)
  have pps: "p \<notin> set ps" using worklistD(1) [OF w] by simp
  have from_p: "y = p \<or> (\<exists>c \<in> set (kids p). (c, y) \<in> (kid_rel kids)\<^sup>*)" if "(p, y) \<in> (kid_rel kids)\<^sup>*" for y
    using that by (auto simp: kid_rel_def elim: converse_rtranclE)
  show "reach kids (p # ps) = insert p (reach ?k (kids p @ ps))" (is "?l = ?r")
  proof (rule set_eqI)
    fix y
    show "y \<in> ?l \<longleftrightarrow> y \<in> ?r"
    proof
      assume "y \<in> ?l"
      then consider "(p, y) \<in> (kid_rel kids)\<^sup>*" | x where "x \<in> set ps" "(x, y) \<in> (kid_rel kids)\<^sup>*"
        by (auto simp: reach_def)
      then show "y \<in> ?r"
      proof cases
        case 1
        from from_p [OF this] show ?thesis
        proof
          assume "\<exists>c \<in> set (kids p). (c, y) \<in> (kid_rel kids)\<^sup>*"
          then obtain c where "c \<in> set (kids p)" "(c, y) \<in> (kid_rel kids)\<^sup>*" by blast
          with keep np [of p] have "(c, y) \<in> (kid_rel ?k)\<^sup>*" by metis
          then show ?thesis using \<open>c \<in> set (kids p)\<close> by (auto simp: reach_def)
        qed simp
      next
        case 2
        with keep pps have "(x, y) \<in> (kid_rel ?k)\<^sup>*" by metis
        then show ?thesis using 2 by (auto simp: reach_def)
      qed
    next
      assume "y \<in> ?r"
      then consider "y = p" | c where "c \<in> set (kids p)" "(c, y) \<in> (kid_rel kids)\<^sup>*"
        | x where "x \<in> set ps" "(x, y) \<in> (kid_rel kids)\<^sup>*"
        using sub by (auto simp: reach_def)
      then show "y \<in> ?l"
      proof cases
        case 2
        then have "(p, y) \<in> (kid_rel kids)\<^sup>*"
          by (auto simp: kid_rel_def intro: converse_rtrancl_into_rtrancl)
        then show ?thesis by (auto simp: reach_def)
      qed (auto simp: reach_def)
    qed
  qed
  show "p \<notin> reach ?k (kids p @ ps)"
    using np pps by (auto simp: reach_def kid_rel_def elim: rtranclE split: if_splits)
qed

lemma worklist_step:
  assumes w: "worklist v kids (p # ps)"
    and v': "live v' = (live v)(p := False)"
      "\<And>q. q \<noteq> p \<Longrightarrow> nx v' q = (if lc v p = Some q then nx v p else nx v q)"
      "\<And>q. q \<noteq> p \<Longrightarrow> fc v' q = fc v q" "\<And>q. q \<noteq> p \<Longrightarrow> lc v' q = lc v q"
  shows "worklist v' (kids(p := [])) (kids p @ ps)"
proof -
  note D = worklistD [OF w]
  have p: "live v p" "p \<notin> set ps" "nx v p = hd_opt ps" "distinct ps" using D(1-3) by auto
  have np: "p \<notin> set (kids q)" for q using D(4) by simp
  have l: "lc v p = hd_opt (rev (kids p))" and dk: "distinct (kids p)" using D(8,10) p(1) by simp_all
  have lk: "q \<in> set (kids p)" if "lc v p = Some q" for q
    using l that hd_opt_in [of "rev (kids p)" q] by simp
  have dis: "c \<notin> set ps" if "c \<in> set (kids q)" for c q using D(4) that by auto
  have nk: "nx v' c = next_in (kids p @ ps) c" if c: "c \<in> set (kids p)" for c
  proof -
    have "c \<noteq> p" using np c by auto
    then show ?thesis
      using v'(2) [of c] c D(6) [OF c] l p(3) hd_rev_next_in [OF dk c]
      by (auto simp: next_in_append split: option.splits)
  qed
  have ns: "nx v' c = next_in (kids p @ ps) c" if c: "c \<in> set ps" for c
  proof -
    have "c \<notin> set (kids p)" "c \<noteq> p" using dis c p(2) by auto
    then show ?thesis using v'(2) [of c] lk D(3) [of c] c by (auto simp: next_in_append)
  qed
  have no: "nx v' c = next_in (kids q) c" if c: "c \<in> set (kids q)" "q \<noteq> p" for c q
  proof -
    have "c \<notin> set (kids p)" "c \<noteq> p" using D(7) [OF c(1), of p] c(2) np [of q] c(1) by metis+
    then show ?thesis using v'(2) [of c] lk [of c] D(6) [OF c(1)] by auto
  qed
  show ?thesis
    unfolding worklist_def
  proof (intro conjI allI impI)
    show "distinct (kids p @ ps)" using dk p(4) dis by auto
  next
    fix r q assume r: "r \<in> set (kids p @ ps)"
    then have "r \<noteq> p" using np p(2) by auto
    then show "live v' r" using r D(2,5) v'(1) by auto
    show "nx v' r = next_in (kids p @ ps) r" using r nk ns by auto
    have "q = p" if "r \<in> set (kids q)" using r D(4) [of r q] D(7) [of r p q] that by auto
    then show "r \<notin> set ((kids(p := [])) q)" by auto
  next
    fix q c r assume c: "c \<in> set ((kids(p := [])) q)"
    then have c: "q \<noteq> p" "c \<in> set (kids q)" by (auto split: if_splits)
    then have "c \<noteq> p" using np by auto
    then show "live v' c" using D(5) [OF c(2)] v'(1) by simp
    show "nx v' c = next_in ((kids(p := [])) q) c" using no [OF c(2,1)] c(1) by simp
    assume "c \<in> set ((kids(p := [])) r)"
    then show "r = q" using D(7) [OF c(2), of r] by (simp split: if_splits)
  next
    fix q assume "live v' q"
    then have "q \<noteq> p" "live v q" using v'(1) by (auto split: if_splits)
    then show "distinct ((kids(p := [])) q)" "fc v' q = hd_opt ((kids(p := [])) q)"
      "lc v' q = hd_opt (rev ((kids(p := [])) q))"
      using D(8-10) v'(3,4) by simp_all
  qed
qed

section \<open>The loop\<close>

lemma free_nodes:
  assumes "worklist (view h) kids ps" "\<And>q n. q \<in> reach kids ps \<Longrightarrow> cell h q = Some n \<Longrightarrow> freeable env n"
  shows "\<exists>h'. S_free_nodes env h (hd_opt ps) = Inr h' \<and> length h' = length h \<and>
    (\<forall>q. cell h' q = (if q \<in> reach kids ps then None else cell h q))"
  using assms
proof (induction "live_count h" arbitrary: h kids ps rule: less_induct)
  case less
  note w = less.prems(1)
  show ?case
  proof (cases ps)
    case Nil
    then show ?thesis by (simp add: reach_def)
  next
    case (Cons p qs)
    note w = w [unfolded Cons]
    note D = worklistD [OF w]
    have p: "live (view h) p" using D(2) by simp
    note n = node_live(7) [OF p] and sel = node_live(2-6) [OF p]
    let ?n = "the_node h p"
    have np: "p \<notin> set (kids q)" for q using D(4) by simp
    have lc: "n_last ?n = hd_opt (rev (kids p))" using D(10) p sel by simp
    have fr: "freeable env ?n" using less.prems(2) [OF _ n] Cons by (auto simp: reach_def)
    have ll: "live (view h) l \<and> l \<noteq> p" if "n_last ?n = Some l" for l
    proof -
      have "l \<in> set (kids p)" using lc that hd_opt_in [of "rev (kids p)" l] by simp
      then show ?thesis using D(5) np by metis
    qed
    from free_step_cells [OF n fr ll] obtain h1 where
      h1: "free_step env h p = Inr (h1, if n_last ?n = None then n_next ?n else n_first ?n)"
      "length h1 = length h"
      "\<And>q. cell h1 q = (if q = p then None
         else if n_last ?n = Some q then map_option (n_next_update (\<lambda>_. n_next ?n)) (cell h q) else cell h q)"
      by blast
    have v1: "live (view h1) = (live (view h))(p := False)"
      "\<And>q. q \<noteq> p \<Longrightarrow> nx (view h1) q = (if lc (view h) p = Some q then nx (view h) p else nx (view h) q)"
      "\<And>q. q \<noteq> p \<Longrightarrow> fc (view h1) q = fc (view h) q" "\<And>q. q \<noteq> p \<Longrightarrow> lc (view h1) q = lc (view h) q"
      using ll sel by (auto simp: view_def h1(3) fun_eq_iff map_option_case split: option.splits)
    let ?k = "kids(p := [])" and ?ps = "kids p @ qs"
    have w1: "worklist (view h1) ?k ?ps" by (rule worklist_step [OF w v1])
    note r = reach_step [OF w]
    have "{q. live (view h1) q} \<subset> {q. live (view h) q}" using v1(1) p by auto
    then have dec: "live_count h1 < live_count h" by (simp add: live_count_def psubset_card_mono)
    have free1: "freeable env m" if q: "q \<in> reach ?k ?ps" and m: "cell h1 q = Some m" for q m
    proof -
      have qp: "q \<noteq> p" using r(2) q by auto
      then obtain m0 where m0: "cell h q = Some m0"
        "m = m0 \<or> m = m0\<lparr>n_next := n_next ?n\<rparr>"
        using m h1(3) [of q] by (auto split: if_splits)
      have "freeable env m0" using less.prems(2) [OF _ m0(1)] q r(1) Cons by simp
      then show ?thesis by (rule freeable_same) (use m0(2) in \<open>auto simp: no_links_def\<close>)
    qed
    obtain h2 where h2: "S_free_nodes env h1 (hd_opt ?ps) = Inr h2" "length h2 = length h1"
      "\<And>q. cell h2 q = (if q \<in> reach ?k ?ps then None else cell h1 q)"
      using less.hyps [OF dec w1] free1 by blast
    have start: "(if n_last ?n = None then n_next ?n else n_first ?n) = hd_opt ?ps"
      using lc sel D(3) [of p] D(9) [of p] p by auto
    have "S_free_nodes env h (hd_opt ps) = Inr h2" using h1(1) h2(1) start Cons by simp
    moreover have "cell h2 q = (if q \<in> reach kids ps then None else cell h q)" for q
    proof -
      have "q \<in> reach ?k ?ps" if "n_last ?n = Some q"
        using that lc hd_opt_in [of "rev (kids p)" q] by (auto simp: reach_def)
      then show ?thesis using h2(3) [of q] h1(3) [of q] r Cons by auto
    qed
    ultimately show ?thesis using h1(2) h2(2) by auto
  qed
qed

section \<open>Freeing a node of a well-linked heap\<close>

lemma worklist_single:
  assumes "links_but {p} v kids" "live v p" "nx v p = None"
  shows "worklist v kids [p]"
proof -
  note D = links_butD [OF assms(1)]
  have np: "p \<notin> set (kids q)" for q using D(5) [of p q] by blast
  have "r = q" if "c \<in> set (kids q)" "c \<in> set (kids r)" for c q r
    using D(6) [OF that(1)] D(6) [OF that(2)] by simp
  note uniq = this
  show ?thesis
    unfolding worklist_def
  proof (intro conjI allI impI)
    fix q c r assume c: "c \<in> set (kids q)"
    show "live v c" "nx v c = next_in (kids q) c" using D(4,7) [OF c] .
    assume "c \<in> set (kids r)"
    with c show "r = q" by (rule uniq)
  next
    fix q assume "live v q"
    then show "distinct (kids q)" "fc v q = hd_opt (kids q)" "lc v q = hd_opt (rev (kids q))" using D(1-3) by simp_all
  qed (use np assms(2,3) in simp_all)
qed

text \<open>What is below a node is the same before and after the node has been unlinked.\<close>

lemma reach_without:
  assumes "links h kids" "acyclic (parent_rel (view h))" "live (view h) p"
  shows "reach (without p kids) [p] = {q. p \<in> ancestors (view h) q}"
proof -
  have lb: "links_but {} (view h) kids" using assms(1) by (simp add: links_def)
  note D = links_butD [OF lb]
  have rel: "kid_rel kids = (parent_rel (view h))\<inverse>"
  proof -
    have "(a, b) \<in> kid_rel kids \<longleftrightarrow> (b, a) \<in> parent_rel (view h)" for a b
      using D(4) [of b a] D(6) [of b a] D(11) [of b a] by (auto simp: kid_rel_def parent_rel_def)
    then show ?thesis by (simp add: set_eq_iff split_paired_all)
  qed
  have sub: "kid_rel (without p kids) \<subseteq> kid_rel kids" by (auto simp: kid_rel_def without_def)
  have "(p, y) \<in> (kid_rel (without p kids))\<^sup>*" if "(p, y) \<in> (kid_rel kids)\<^sup>*" for y
    using that
  proof (induction rule: rtrancl_induct)
    case (step y z)
    have "z \<noteq> p"
    proof
      assume "z = p"
      with step.hyps have "(p, p) \<in> (kid_rel kids)\<^sup>+" by simp
      then show False using assms(2) by (simp add: rel acyclic_def trancl_converse)
    qed
    with step show ?case by (auto simp: kid_rel_def without_def intro: rtrancl_into_rtrancl)
  qed simp
  then have "reach (without p kids) [p] = {q. (p, q) \<in> (kid_rel kids)\<^sup>*}"
    using rtrancl_mono [OF sub] by (auto simp: reach_def)
  then show ?thesis by (auto simp: rel ancestors_def rtrancl_converse)
qed

lemma node_free_ok:
  assumes f: "forest h kids" and p: "live (view h) p"
    and ok: "\<And>q n. p \<in> ancestors (view h) q \<Longrightarrow> cell h q = Some n \<Longrightarrow> freeable env n"
  shows "\<exists>h'. cmark_node_free env h (Some p) = Inr h' \<and>
    links h' (\<lambda>q. if p \<in> ancestors (view h) q then [] else removeAll p (kids q)) \<and>
    (\<forall>q. map_option no_links (cell h' q) =
       (if p \<in> ancestors (view h) q then None else map_option no_links (cell h q)))"
proof -
  have l: "links h kids" "acyclic (parent_rel (view h))" using f by (simp_all add: forest_def)
  obtain h1 where h1: "S_node_unlink h (Some p) = Inr h1" "live (view h1) = live (view h)"
    "pa (view h1) = pa (view h)" "links_but {p} (view h1) (without p kids)" "same_data h h1"
    by (rule unlink_first [OF l(1) p])
  obtain h2 where h2: "update h1 p (n_next_update (\<lambda>_. None)) = Inr h2"
    "view h2 = (view h1)\<lparr>nx := (nx (view h1))(p := None)\<rparr>" "same_data h1 h2"
  proof -
    have "runs (update h1 p (n_next_update (\<lambda>_. None)))
      (\<lambda>h'. view h' = (view h1)\<lparr>nx := (nx (view h1))(p := None)\<rparr> \<and> same_data h1 h')"
      by (rule runs_set(1)) (use p h1(2) in auto)
    then show thesis using that by (auto simp: runs_def)
  qed
  note D1 = links_butD [OF h1(4)]
  have np: "c \<noteq> p" if "c \<in> set (without p kids q)" for c q using that by (simp add: without_def)
  have l2: "links_but {p} (view h2) (without p kids)"
    unfolding links_but_def
  proof (intro conjI allI impI)
    fix q c assume "c \<in> set (without p kids q)"
    note c = np [OF this] D1(4,6-8) [OF this]
    show "live (view h2) c" "c \<notin> {p}" "pa (view h2) c = Some q" "nx (view h2) c = next_in (without p kids q) c"
      "pv (view h2) c = prev_in (without p kids q) c"
      using c by (simp_all add: h2(2))
  next
    fix c q assume "live (view h2) c \<and> c \<notin> {p} \<and> pa (view h2) c = Some q"
    then show "live (view h2) q" "c \<in> set (without p kids q)"
      using D1(10,11) [of c q] by (simp_all add: h2(2))
  qed (use D1(1-3,12-14) in \<open>simp_all add: h2(2)\<close>)
  have w: "worklist (view h2) (without p kids) [p]"
    by (rule worklist_single [OF l2]) (use p h1(2) in \<open>simp_all add: h2(2)\<close>)
  let ?S = "{q. p \<in> ancestors (view h) q}"
  have R: "reach (without p kids) [p] = ?S" by (rule reach_without [OF l p])
  have sd: "map_option no_links (cell h2 q) = map_option no_links (cell h q)" for q
    using same_data_trans [OF h1(5) h2(3)] by (simp add: same_data_def)
  have fr: "freeable env n" if q: "q \<in> reach (without p kids) [p]" and n: "cell h2 q = Some n" for q n
  proof -
    obtain m where m: "cell h q = Some m" "no_links m = no_links n" using sd [of q] n by (cases "cell h q") auto
    have "freeable env m" using ok [OF _ m(1)] q R by simp
    then show ?thesis by (rule freeable_same) (simp add: m(2))
  qed
  obtain h3 where h3: "S_free_nodes env h2 (Some p) = Inr h3" "length h3 = length h2"
    "\<And>q. cell h3 q = (if q \<in> ?S then None else cell h2 q)"
    using free_nodes [OF w, of env] fr unfolding R by (auto simp del: S_free_nodes.simps)
  have "cmark_node_free env h (Some p) = Inr h3" using h1(1) h2(1) h3(1) by (simp add: cmark_node_free_def)
  moreover have "links h3 (\<lambda>q. if q \<in> ?S then [] else removeAll p (kids q))"
  proof -
    let ?K = "\<lambda>q. if q \<in> ?S then [] else removeAll p (kids q)"
    have K: "?K q = without p kids q" if "q \<notin> ?S" for q using that by (simp add: without_def)
    have v3: "live (view h3) q \<longleftrightarrow> live (view h2) q \<and> q \<notin> ?S" for q using h3(3) [of q] by (simp add: view_def)
    have s3: "nx (view h3) q = nx (view h2) q" "pv (view h3) q = pv (view h2) q"
      "pa (view h3) q = pa (view h2) q" "fc (view h3) q = fc (view h2) q" "lc (view h3) q = lc (view h2) q"
      if "q \<notin> ?S" for q
      using h3(3) [of q] that by (simp_all add: view_def)
    note D2 = links_butD [OF l2]
    have pS: "p \<in> ?S" by (simp add: ancestors_def)
    have anc: "c \<in> ?S \<longleftrightarrow> q \<in> ?S" if "live (view h2) c" "pa (view h2) c = Some q" "c \<noteq> p" for c q
    proof -
      have "live (view h) c" "pa (view h) c = Some q" using that h1 by (simp_all add: h2(2))
      from ancestors_step(1) [OF this l(2)] that(3) show ?thesis by auto
    qed
    show ?thesis
      unfolding links_def links_but_def
    proof (intro conjI allI impI)
      fix q assume q: "live (view h3) q"
      then have q: "q \<notin> ?S" "live (view h2) q" using v3 by auto
      show "distinct (?K q)" "fc (view h3) q = hd_opt (?K q)" "lc (view h3) q = hd_opt (rev (?K q))"
        unfolding K [OF q(1)] s3 [OF q(1)] using D2(1-3) q(2) by simp_all
    next
      fix q assume "\<not> live (view h3) q"
      then show "?K q = []" using D2(14) [of q] v3 [of q] K [of q] by (cases "q \<in> ?S") simp_all
    next
      fix q c assume "c \<in> set (?K q)"
      then have q: "q \<notin> ?S" and c: "c \<in> set (without p kids q)" by (auto simp: without_def split: if_splits)
      note c' = D2(4,6-8) [OF c]
      have cS: "c \<notin> ?S" using anc [OF c'(1,2) np [OF c]] q by simp
      show "live (view h3) c" "c \<notin> {}" "pa (view h3) c = Some q" "nx (view h3) c = next_in (?K q) c"
        "pv (view h3) c = prev_in (?K q) c"
        unfolding K [OF q] s3 [OF cS] v3 using c' cS by simp_all
    next
      fix c q assume "live (view h3) c \<and> c \<notin> {} \<and> pa (view h3) c = Some q"
      then have c: "c \<notin> ?S" "live (view h2) c" "pa (view h2) c = Some q" using v3 s3 by auto
      then have cp: "c \<noteq> p" using pS by auto
      have q: "q \<notin> ?S" using anc [OF c(2,3) cp] c(1) by simp
      show "live (view h3) q" "c \<in> set (?K q)"
        unfolding K [OF q] v3 using D2(10,11) [of c q] c cp q by simp_all
    next
      fix c assume "live (view h3) c \<and> c \<notin> {} \<and> pa (view h3) c = None"
      then have c: "c \<notin> ?S" "live (view h2) c" "pa (view h2) c = None" using v3 s3 by auto
      then have "c \<noteq> p" using pS by auto
      then show "nx (view h3) c = None" "pv (view h3) c = None"
        unfolding s3 [OF c(1)] using D2(12,13) [of c] c by simp_all
    qed
  qed
  moreover have "map_option no_links (cell h3 q) = (if q \<in> ?S then None else map_option no_links (cell h q))" for q
    using h3(3) [of q] sd [of q] by simp
  ultimately show ?thesis by auto
qed

lemma freeable_plain:
  assumes "extension n = None" "payload_ok (n_type n) (n_as n)"
  shows "freeable env n"
proof -
  have "extension m = None" if "no_links m = no_links n" for m
    using arg_cong [OF that, of extension] assms(1) by (simp add: no_links_def)
  with assms(2) show ?thesis by (simp add: freeable_def opaque_free_def)
qed

section \<open>Properties\<close>

text \<open>
  C7: Freeing a node of a forest whose payloads are well-typed frees exactly the nodes of its
  subtree, each once, without touching freed memory; all other nodes stay, with their data, in a
  well-linked heap in which the node has left the children of its parent.
\<close>

theorem node_free_subtree:
  assumes "forest h kids" "live (view h) p"
    "\<forall>q n. p \<in> ancestors (view h) q \<longrightarrow> cell h q = Some n \<longrightarrow> freeable env n"
  shows "\<exists>h'. cmark_node_free env h (Some p) = Inr h' \<and>
    links h' (\<lambda>q. if p \<in> ancestors (view h) q then [] else removeAll p (kids q)) \<and>
    (\<forall>q. map_option no_links (cell h' q) =
       (if p \<in> ancestors (view h) q then None else map_option no_links (cell h q)))"
  using node_free_ok [OF assms(1,2), of env] assms(3) by blast

theorem node_free_subtree_witness:
  "\<exists>h'. cmark_node_free sample_env sample_tree (Some 0) = Inr h' \<and> cell h' 0 = None"
proof -
  have "freeable sample_env n" if "cell sample_tree q = Some n" for q n
  proof -
    have "q = 0 \<or> q = 1 \<or> q = 2 \<or> q = 3 \<or> 3 < q" by linarith
    with that have "extension n = None" "n_as n = As_zero"
      "n_type n \<in> {CMARK_NODE_DOCUMENT, CMARK_NODE_PARAGRAPH}"
      by (auto simp: sample_cell sample_node_def node_zero_def)
    then show ?thesis
      by (intro freeable_plain) (auto simp: payload_ok_def chunk_members_def)
  qed
  then obtain h' where h': "cmark_node_free sample_env sample_tree (Some 0) = Inr h'"
    "\<forall>q. map_option no_links (cell h' q) =
       (if 0 \<in> ancestors (view sample_tree) q then None else map_option no_links (cell sample_tree q))"
    using node_free_subtree [OF sample_forest, of 0 sample_env] by (auto simp: sample_live)
  have "0 \<in> ancestors (view sample_tree) 0" by (simp add: ancestors_def)
  with h'(2) have "map_option no_links (cell h' 0) = None" by metis
  with h'(1) show ?thesis by auto
qed

definition list_in_document :: heap where
  "list_in_document =
     [Some ((sample_node CMARK_NODE_DOCUMENT As_zero)\<lparr>n_first := Some 1, n_last := Some 1\<rparr>),
      Some ((sample_node CMARK_NODE_LIST (As_list (list_zero\<lparr>list_type := CMARK_ORDERED_LIST,
        list_start := 1\<rparr>)))\<lparr>n_parent := Some 0\<rparr>)]"

lemma list_get_chunk: "get_chunk m (As_list l) = Inl Type_pun"
  by (cases m) simp_all

text \<open>
  C33: Changing the type of a list, where its parent can contain the new type, succeeds but leaves the data of the list in
  the union.  Whenever the new type has strings (a code block, for instance), freeing what the node owns reads
  the list data as such a string, and so do its getters: a read of the wrong member of the union.
\<close>

theorem set_type_confusion:
  assumes "cell h p = Some n" "n_type n = CMARK_NODE_LIST" "n_as n = As_list l"
    and "cmark_node_set_type env h p t = Inr (True, h')" "chunk_members t \<noteq> []"
  shows "cell h' p = Some (n\<lparr>n_type := t\<rparr>) \<and> free_node_as h' p = Inl Type_pun \<and>
    (t = CMARK_NODE_CODE_BLOCK \<longrightarrow>
      cmark_node_get_fence_info h' (Some p) = Inl Type_pun \<and> cmark_node_get_literal h' (Some p) = Inl Type_pun)"
proof -
  have len: "p < length h" using assms(1) by (rule cell_length)
  have ne: "t \<noteq> n_type n" using assms(2,5) by (auto simp: chunk_members_def)
  have "h' = h[p := Some (n\<lparr>n_type := t\<rparr>)]"
    using assms(1,2,4) ne len
    by (auto simp: cmark_node_set_type_def heap deref_heap update_def free_node_as_def Let_def cell_update split: if_splits)
  then have c: "cell h' p = Some (n\<lparr>n_type := t\<rparr>)" using len by (simp add: heap)
  have pun: "on_chunk h' p m f = Inl Type_pun" for m and f :: "cmark_chunk \<Rightarrow> ('a \<times> cmark_chunk) res"
    using c assms(3) by (simp add: on_chunk_def deref_heap list_get_chunk)
  have "free_node_as h' p = Inl Type_pun"
    using c assms(5) by (auto simp: free_node_as_def deref_heap chunk_free_at_def pun chunk_members_def split: if_splits)
  moreover have "cmark_node_get_fence_info h' (Some p) = Inl Type_pun \<and> cmark_node_get_literal h' (Some p) = Inl Type_pun"
    if "t = CMARK_NODE_CODE_BLOCK"
    using c that by (simp add: cmark_node_get_fence_info_def cmark_node_get_literal_def get_string_def on_node_def deref_heap
        chunk_to_cstr_at_def pun)
  ultimately show ?thesis using c by blast
qed

theorem set_type_confusion_witness:
  "\<exists>h'. cmark_node_set_type sample_env list_in_document 1 CMARK_NODE_CODE_BLOCK = Inr (True, h') \<and>
     cmark_node_get_fence_info h' (Some 1) = Inl Type_pun \<and> cmark_node_free sample_env h' (Some 1) = Inl Type_pun"
proof -
  let ?r = "cmark_node_set_type sample_env list_in_document 1 CMARK_NODE_CODE_BLOCK" and ?n = "the_node list_in_document 1"
  have "case ?r of
      Inr (ok, h) \<Rightarrow> ok \<and> (case cmark_node_free sample_env h (Some 1) of Inl e \<Rightarrow> e = Type_pun | Inr _ \<Rightarrow> False)
    | Inl _ \<Rightarrow> False" by code_simp
  then obtain ok h' where r: "?r = Inr (ok, h')" "ok"
    "case cmark_node_free sample_env h' (Some 1) of Inl e \<Rightarrow> e = Type_pun | Inr _ \<Rightarrow> False"
    by (cases ?r) auto
  have h': "?r = Inr (True, h')" "cmark_node_free sample_env h' (Some 1) = Inl Type_pun"
    using r by (auto split: sum.splits)
  have "cell list_in_document 1 = Some ?n" "n_type ?n = CMARK_NODE_LIST"
    "n_as ?n = As_list (list_zero\<lparr>list_type := CMARK_ORDERED_LIST, list_start := 1\<rparr>)"
    by (simp_all add: the_node_def cell_def list_in_document_def sample_node_def node_zero_def)
  from set_type_confusion [OF this h'(1)] h' show ?thesis by (simp add: chunk_members_def)
qed

end
