(* ===== verification/Node_Tree.thy ===== *)
theory Node_Tree
  imports Node_Links
begin

text \<open>
  The trees that a forest consists of.  \<open>tree_at kids t\<close> says that \<open>t\<close> is the tree of nodes below its
  root; in a forest every live node has one, and no node occurs twice in it.
\<close>

section \<open>Trees of nodes\<close>

datatype ntree = NTree (ntree_root: nptr) (subtrees: "ntree list")

fun tree_at :: "(nptr \<Rightarrow> nptr list) \<Rightarrow> ntree \<Rightarrow> bool" where
  "tree_at kids (NTree p ts) \<longleftrightarrow> map ntree_root ts = kids p \<and> list_all (tree_at kids) ts"

fun preorder :: "ntree \<Rightarrow> nptr list" where
  "preorder (NTree p ts) = p # concat (map preorder ts)"

lemma root_in_preorder [simp]: "ntree_root t \<in> set (preorder t)"
  by (cases t) simp

lemma tree_at_live:
  assumes "links h kids"
  shows "tree_at kids t \<Longrightarrow> live (view h) (ntree_root t) \<Longrightarrow> q \<in> set (preorder t) \<Longrightarrow> live (view h) q"
proof (induction t)
  case (NTree p ts)
  have lb: "links_but {} (view h) kids" using assms by (simp add: links_def)
  have "live (view h) (ntree_root t)" if "t \<in> set ts" for t
  proof -
    have "ntree_root t \<in> set (kids p)" using NTree.prems(1) that by (metis image_eqI list.set_map tree_at.simps)
    then show ?thesis using links_butD(4) [OF lb] by blast
  qed
  with NTree show ?case by (auto simp: list_all_iff)
qed

lemma tree_at_ancestor:
  assumes "links h kids"
  shows "tree_at kids t \<Longrightarrow> q \<in> set (preorder t) \<Longrightarrow> ntree_root t \<in> ancestors (view h) q"
proof (induction t)
  case (NTree p ts)
  have lb: "links_but {} (view h) kids" using assms by (simp add: links_def)
  show ?case
  proof (cases "q = p")
    case False
    with NTree.prems obtain t where t: "t \<in> set ts" "q \<in> set (preorder t)" by auto
    then have "ntree_root t \<in> ancestors (view h) q" using NTree by (auto simp: list_all_iff)
    moreover have "ntree_root t \<in> set (kids p)"
      using NTree.prems(1) t(1) by (metis image_eqI list.set_map tree_at.simps)
    then have "(ntree_root t, p) \<in> parent_rel (view h)"
      using links_butD(4,6) [OF lb] by (simp add: parent_rel_def)
    ultimately show ?thesis by (auto simp: ancestors_def intro: rtrancl_into_rtrancl)
  qed (simp add: ancestors_def)
qed

lemma ancestors_chain:
  assumes "a \<in> ancestors v x" "b \<in> ancestors v x"
  shows "a \<in> ancestors v b \<or> b \<in> ancestors v a"
proof -
  have "single_valued (parent_rel v)" by (auto simp: single_valued_def parent_rel_def)
  then show ?thesis using single_valued_confluent assms by (fastforce simp: ancestors_def)
qed

lemma siblings_apart:
  assumes f: "forest h kids" and c: "c \<in> set (kids p)" "d \<in> set (kids p)" "c \<noteq> d"
  shows "c \<notin> ancestors (view h) d"
proof
  assume a: "c \<in> ancestors (view h) d"
  have lb: "links_but {} (view h) kids" and ac: "acyclic (parent_rel (view h))"
    using f by (simp_all add: forest_def links_def)
  note D = links_butD [OF lb]
  have "ancestors (view h) d = insert d (ancestors (view h) p)"
    using ancestors_step(1) [OF D(4) [OF c(2)] D(6) [OF c(2)] ac] .
  with a c(3) have "c \<in> ancestors (view h) p" by simp
  moreover have "c \<notin> ancestors (view h) p"
    using ancestors_step(2) [OF D(4) [OF c(1)] D(6) [OF c(1)] ac] .
  ultimately show False by blast
qed

lemma preorder_distinct:
  assumes f: "forest h kids"
  shows "tree_at kids t \<Longrightarrow> distinct (preorder t)"
proof (induction t)
  case (NTree p ts)
  have l: "links h kids" and lb: "links_but {} (view h) kids" and ac: "acyclic (parent_rel (view h))"
    using f by (simp_all add: forest_def links_def)
  note D = links_butD [OF lb]
  have roots: "map ntree_root ts = kids p" and sub: "\<And>t. t \<in> set ts \<Longrightarrow> tree_at kids t"
    using NTree.prems by (auto simp: list_all_iff)
  have kid: "ntree_root t \<in> set (kids p)" if "t \<in> set ts" for t
    using roots that by (metis image_eqI list.set_map)
  have up: "ntree_root t \<in> ancestors (view h) q" if "t \<in> set ts" "q \<in> set (preorder t)" for t q
    using tree_at_ancestor [OF l sub [OF that(1)] that(2)] .
  have "p \<notin> set (preorder t)" if "t \<in> set ts" for t
    using up [OF that] ancestors_step(2) [OF D(4) [OF kid [OF that]] D(6) [OF kid [OF that]] ac] by blast
  moreover have "distinct (concat (map preorder ts))"
  proof (rule distinct_concat)
    have dr: "distinct (map ntree_root ts)" using D(3) roots by simp
    have "inj_on preorder (set ts)"
    proof (rule inj_onI)
      fix t u assume tu: "t \<in> set ts" "u \<in> set ts" "preorder t = preorder u"
      then have "hd (preorder t) = hd (preorder u)" by simp
      then have "ntree_root t = ntree_root u" by (cases t; cases u) simp
      then show "t = u" using dr tu(1,2) by (simp add: distinct_map inj_on_def)
    qed
    then show "distinct (map preorder ts)" using dr by (simp add: distinct_map)
  next
    fix ys assume "ys \<in> set (map preorder ts)"
    then show "distinct ys" using NTree.IH sub by auto
  next
    fix ys zs assume yz: "ys \<in> set (map preorder ts)" "zs \<in> set (map preorder ts)" "ys \<noteq> zs"
    then obtain t u where tu: "t \<in> set ts" "u \<in> set ts" "ys = preorder t" "zs = preorder u" by auto
    have "distinct (map ntree_root ts)" using D(3) roots by simp
    then have ne: "ntree_root t \<noteq> ntree_root u" using tu yz(3) by (auto simp: distinct_map inj_on_def)
    show "set ys \<inter> set zs = {}"
    proof (rule ccontr)
      assume "set ys \<inter> set zs \<noteq> {}"
      then obtain x where "x \<in> set (preorder t)" "x \<in> set (preorder u)" using tu by auto
      then have "ntree_root t \<in> ancestors (view h) (ntree_root u) \<or> ntree_root u \<in> ancestors (view h) (ntree_root t)"
        using up tu ancestors_chain by blast
      then show False using siblings_apart [OF f kid [OF tu(1)] kid [OF tu(2)] ne]
          siblings_apart [OF f kid [OF tu(2)] kid [OF tu(1)] ne [symmetric]] by blast
    qed
  qed
  ultimately show ?case by auto
qed

lemma preorder_length:
  assumes "forest h kids" "tree_at kids t" "live (view h) (ntree_root t)"
  shows "length (preorder t) \<le> length h"
proof -
  have "set (preorder t) \<subseteq> {..<length h}"
    using tree_at_live [OF _ assms(2,3)] assms(1) live_length by (fastforce simp: forest_def)
  then have "card (set (preorder t)) \<le> length h" using card_mono [of "{..<length h}"] by fastforce
  then show ?thesis using distinct_card [OF preorder_distinct [OF assms(1,2)]] by simp
qed

text \<open>Every live node has a tree: the children relation of a forest is well-founded.\<close>

lemma tree_exists:
  assumes f: "forest h kids"
  shows "\<exists>t. tree_at kids t \<and> ntree_root t = p"
proof -
  have lb: "links_but {} (view h) kids" and ac: "acyclic (parent_rel (view h))"
    using f by (simp_all add: forest_def links_def)
  note D = links_butD [OF lb]
  have "finite (parent_rel (view h))"
  proof (rule finite_subset)
    show "parent_rel (view h) \<subseteq> {q. live (view h) q} \<times> {q. live (view h) q}"
      using D(10) by (auto simp: parent_rel_def)
    show "finite ({q. live (view h) q} \<times> {q. live (view h) q})"
      by (intro finite_cartesian_product) (rule finite_subset [of _ "{..<length h}"]; auto dest: live_length)+
  qed
  then have "wf (parent_rel (view h))" using ac by (rule finite_acyclic_wf)
  then show ?thesis
  proof (induction p rule: wf_induct_rule)
    case (less p)
    have "\<exists>t. tree_at kids t \<and> ntree_root t = c" if "c \<in> set (kids p)" for c
      using less [of c] D(4,6) [OF that] by (simp add: parent_rel_def)
    then obtain T where T: "\<And>c. c \<in> set (kids p) \<Longrightarrow> tree_at kids (T c) \<and> ntree_root (T c) = c" by metis
    have "tree_at kids (NTree p (map T (kids p)))"
      using T by (auto simp: list_all_iff intro: map_idI)
    then show ?case by (metis ntree.sel(1))
  qed
qed

end
