(* ===== verification/Iterator.thy ===== *)
theory Iterator
  imports Node_Free Node_Tree
begin

text \<open>
  The tree iterator, src/src/iterator.c and src/src/include/iterator.h, and the consistency check
  \<open>cmark_node_check\<close> of src/src/node.c, the two loops that walk over a tree by its pointers.

  The locale \<open>pointer_tree\<close> states what a walk relies on: the first-child, next-sibling and parent
  pointers represent the children lists.  In it the walk of \<open>cmark_iter_next\<close> is shown to visit the
  nodes of a tree in the order of \<open>events\<close>: entered before their children, left after them, the
  leaves only entered.  It is interpreted on well-linked heaps.
\<close>

section \<open>The code\<close>

datatype cmark_event_type = CMARK_EVENT_NONE | CMARK_EVENT_DONE | CMARK_EVENT_ENTER | CMARK_EVENT_EXIT

record cmark_iter_state =
  ev_type :: cmark_event_type
  st_node :: "nptr option"

record cmark_iter =
  it_mem :: cmark_mem
  it_root :: "nptr option"
  it_cur :: cmark_iter_state
  it_next :: cmark_iter_state

definition cmark_iter_new :: "heap \<Rightarrow> nptr option \<Rightarrow> cmark_iter option res" where
  "cmark_iter_new h root =
     (case root of None \<Rightarrow> Inr None
      | Some p \<Rightarrow> bindr (deref h p) (\<lambda>n.
          Inr (Some \<lparr>it_mem = mem (n_content n), it_root = root,
            it_cur = \<lparr>ev_type = CMARK_EVENT_NONE, st_node = None\<rparr>,
            it_next = \<lparr>ev_type = CMARK_EVENT_ENTER, st_node = root\<rparr>\<rparr>)))"

definition leaf_type :: "node_type \<Rightarrow> bool" where
  "leaf_type t \<longleftrightarrow> t \<in> {CMARK_NODE_HTML_BLOCK, CMARK_NODE_THEMATIC_BREAK, CMARK_NODE_CODE_BLOCK,
     CMARK_NODE_TEXT, CMARK_NODE_SOFTBREAK, CMARK_NODE_LINEBREAK, CMARK_NODE_CODE,
     CMARK_NODE_HTML_INLINE}"

definition S_is_leaf :: "heap \<Rightarrow> nptr option \<Rightarrow> bool res" where
  "S_is_leaf h node = bindr (deref_opt h node) (\<lambda>n. Inr (leaf_type (n_type n)))"

definition cmark_iter_next :: "heap \<Rightarrow> cmark_iter \<Rightarrow> (cmark_event_type \<times> cmark_iter) res" where
  "cmark_iter_next h iter =
     (let ev = ev_type (it_next iter); node = st_node (it_next iter);
          iter = iter\<lparr>it_cur := \<lparr>ev_type = ev, st_node = node\<rparr>\<rparr>
      in if ev = CMARK_EVENT_DONE then Inr (ev, iter)
         else
           bindr (if ev = CMARK_EVENT_ENTER then S_is_leaf h node else Inr True) (\<lambda>leaf.
           bindr (deref_opt h node) (\<lambda>n.
           let goto = (\<lambda>e q. Inr (ev, iter\<lparr>it_next := \<lparr>ev_type = e, st_node = q\<rparr>\<rparr>)) in
           if ev = CMARK_EVENT_ENTER \<and> \<not> leaf then
             (if n_first n = None then goto CMARK_EVENT_EXIT node
              else goto CMARK_EVENT_ENTER (n_first n))
           else if node = it_root iter then goto CMARK_EVENT_DONE None
           else if n_next n \<noteq> None then goto CMARK_EVENT_ENTER (n_next n)
           else if n_parent n \<noteq> None then goto CMARK_EVENT_EXIT (n_parent n)
           else Inl Assert_failed)))"

definition cmark_iter_reset ::
  "heap \<Rightarrow> cmark_iter \<Rightarrow> nptr option \<Rightarrow> cmark_event_type \<Rightarrow> cmark_iter res" where
  "cmark_iter_reset h iter current event_type =
     bindr (cmark_iter_next h (iter\<lparr>it_next := \<lparr>ev_type = event_type, st_node = current\<rparr>\<rparr>))
       (\<lambda>(_, iter). Inr iter)"

definition cmark_iter_get_node :: "cmark_iter \<Rightarrow> nptr option" where
  "cmark_iter_get_node iter = st_node (it_cur iter)"

definition cmark_iter_get_event_type :: "cmark_iter \<Rightarrow> cmark_event_type" where
  "cmark_iter_get_event_type iter = ev_type (it_cur iter)"

definition cmark_iter_get_root :: "cmark_iter \<Rightarrow> nptr option" where
  "cmark_iter_get_root iter = it_root iter"

text \<open>
  The loop \<open>while ((ev_type = cmark_iter_next(iter)) != CMARK_EVENT_DONE)\<close>, with the events it sees.
\<close>

fun iter_events :: "nat \<Rightarrow> heap \<Rightarrow> cmark_iter \<Rightarrow> (cmark_event_type \<times> nptr option) list res" where
  "iter_events 0 h iter = Inl Out_of_fuel"
| "iter_events (Suc fuel) h iter =
     bindr (cmark_iter_next h iter) (\<lambda>(ev, iter).
     if ev = CMARK_EVENT_DONE then Inr []
     else bindr (iter_events fuel h iter) (\<lambda>es. Inr ((ev, cmark_iter_get_node iter) # es)))"

section \<open>Walking over a tree of pointers\<close>

text \<open>One step of a walk inside the tree below \<open>root\<close>; \<open>None\<close> is the end.\<close>

definition finish :: "('n \<Rightarrow> 'n option) \<Rightarrow> ('n \<Rightarrow> 'n option) \<Rightarrow> 'n \<Rightarrow> 'n \<Rightarrow> (bool \<times> 'n) option" where
  "finish sibling parent root p =
     (if p = root then None
      else case sibling p of Some q \<Rightarrow> Some (True, q) | None \<Rightarrow> map_option (Pair False) (parent p))"

definition advance ::
  "('n \<Rightarrow> bool) \<Rightarrow> ('n \<Rightarrow> 'n option) \<Rightarrow> ('n \<Rightarrow> 'n option) \<Rightarrow> ('n \<Rightarrow> 'n option) \<Rightarrow> 'n \<Rightarrow> bool \<times> 'n \<Rightarrow>
     (bool \<times> 'n) option" where
  "advance leaf first sibling parent root s =
     (case s of (enter, p) \<Rightarrow>
        if enter \<and> \<not> leaf p
        then (case first p of None \<Rightarrow> Some (False, p) | Some q \<Rightarrow> Some (True, q))
        else finish sibling parent root p)"

fun visits :: "(nptr \<Rightarrow> bool) \<Rightarrow> ntree \<Rightarrow> (bool \<times> nptr) list" where
  "visits leaf (NTree p ts) =
     (True, p) # (if leaf p then [] else concat (map (visits leaf) ts) @ [(False, p)])"

text \<open>\<open>walk f s es s'\<close>: the states from \<open>s\<close> on are \<open>es\<close>, and then comes \<open>s'\<close>.\<close>

fun walk :: "('s \<Rightarrow> 's option) \<Rightarrow> 's option \<Rightarrow> 's list \<Rightarrow> 's option \<Rightarrow> bool" where
  "walk f s [] s' \<longleftrightarrow> s = s'"
| "walk f s (e # es) s' \<longleftrightarrow> s = Some e \<and> walk f (f e) es s'"

lemma walk_append: "walk f s (es @ fs) s' \<longleftrightarrow> (\<exists>r. walk f s es r \<and> walk f r fs s')"
  by (induction f s es s' rule: walk.induct) auto

locale pointer_tree =
  fixes ok :: "'s \<Rightarrow> (nptr \<Rightarrow> nptr list) \<Rightarrow> bool"
    and first :: "'s \<Rightarrow> nptr \<Rightarrow> nptr option"
    and sibling :: "'s \<Rightarrow> nptr \<Rightarrow> nptr option"
    and parent :: "'s \<Rightarrow> nptr \<Rightarrow> nptr option"
    and alive :: "'s \<Rightarrow> nptr \<Rightarrow> bool"
  assumes first: "ok s kids \<Longrightarrow> alive s p \<Longrightarrow> first s p = hd_opt (kids p)"
    and sibling: "ok s kids \<Longrightarrow> c \<in> set (kids p) \<Longrightarrow> sibling s c = next_in (kids p) c"
    and parent: "ok s kids \<Longrightarrow> c \<in> set (kids p) \<Longrightarrow> parent s c = Some p"
    and alive_kid: "ok s kids \<Longrightarrow> c \<in> set (kids p) \<Longrightarrow> alive s c"
    and distinct_kids: "ok s kids \<Longrightarrow> distinct (kids p)"
begin

lemma walk_tree:
  fixes leaf :: "nptr \<Rightarrow> bool" and root :: nptr
  assumes ok: "ok s kids"
  defines "adv \<equiv> advance leaf (first s) (sibling s) (parent s) root"
  shows "tree_at kids t \<Longrightarrow> alive s (ntree_root t) \<Longrightarrow> root \<notin> set (concat (map preorder (subtrees t))) \<Longrightarrow>
    walk adv (Some (True, ntree_root t)) (visits leaf t) (finish (sibling s) (parent s) root (ntree_root t))"
proof (induction t)
  case (NTree p ts)
  have roots: "kids p = map ntree_root ts" using NTree.prems(1) by simp
  show ?case
  proof (cases "leaf p")
    case True
    then show ?thesis by (simp add: adv_def advance_def)
  next
    case False
    have f: "first s p = hd_opt (kids p)" using first [OF ok] NTree.prems(2) by simp
    have step: "walk adv (map_option (Pair True) (hd_opt (map ntree_root us))) (concat (map (visits leaf) us))
        (Some (False, p))"
      if "ts = ds @ us" "us \<noteq> []" for ds us
      using that
    proof (induction us arbitrary: ds)
      case (Cons u us)
      have u: "u \<in> set ts" using Cons.prems by simp
      have kid: "ntree_root u \<in> set (kids p)" using u roots by simp
      have nr: "root \<notin> set (preorder u)" using NTree.prems(3) u by auto
      then have "root \<noteq> ntree_root u" "root \<notin> set (concat (map preorder (subtrees u)))"
        by (cases u; simp)+
      then have w: "walk adv (Some (True, ntree_root u)) (visits leaf u)
          (finish (sibling s) (parent s) root (ntree_root u))"
        using NTree.IH [OF u] NTree.prems(1) u alive_kid [OF ok kid] by (auto simp: list_all_iff)
      have "kids p = map ntree_root ds @ ntree_root u # map ntree_root us"
        using roots Cons.prems by simp
      moreover have "ntree_root u \<notin> set (map ntree_root ds)"
        using distinct_kids [OF ok, of p] calculation by auto
      ultimately have "next_in (kids p) (ntree_root u) = hd_opt (map ntree_root us)"
        using next_in_split by metis
      then have fin: "finish (sibling s) (parent s) root (ntree_root u) =
          (case hd_opt (map ntree_root us) of None \<Rightarrow> Some (False, p) | Some q \<Rightarrow> Some (True, q))"
        using \<open>root \<noteq> ntree_root u\<close> sibling [OF ok kid] parent [OF ok kid]
        by (simp add: finish_def split: option.split)
      show ?case
      proof (cases us)
        case Nil
        then show ?thesis using w fin by simp
      next
        case (Cons v vs)
        have "walk adv (map_option (Pair True) (hd_opt (map ntree_root us))) (concat (map (visits leaf) us))
            (Some (False, p))"
          using Cons.IH [of "ds @ [u]"] Cons.prems Cons by simp
        then show ?thesis using w fin Cons by (auto simp: walk_append)
      qed
    qed simp
    have last: "adv (False, p) = finish (sibling s) (parent s) root p"
      by (simp add: adv_def advance_def)
    show ?thesis
    proof (cases ts)
      case Nil
      then show ?thesis using False f roots last by (simp add: adv_def advance_def)
    next
      case (Cons u us)
      have "walk adv (Some (True, ntree_root u)) (concat (map (visits leaf) ts)) (Some (False, p))"
        using step [of "[]" ts] Cons by simp
      moreover have "adv (True, p) = Some (True, ntree_root u)"
        using False f roots Cons by (simp add: adv_def advance_def)
      ultimately show ?thesis using False last by (auto simp: walk_append)
    qed
  qed
qed

end

interpretation heap_tree: pointer_tree links "\<lambda>h. fc (view h)" "\<lambda>h. nx (view h)" "\<lambda>h. pa (view h)"
  "\<lambda>h. live (view h)"
  by unfold_locales (auto simp: links_def dest: links_butD)

section \<open>The iterator\<close>

definition node_leaf :: "heap \<Rightarrow> nptr \<Rightarrow> bool" where
  "node_leaf h p \<longleftrightarrow> leaf_type (n_type (the_node h p))"

definition event_of :: "bool \<times> nptr \<Rightarrow> cmark_event_type \<times> nptr option" where
  "event_of s = (if fst s then CMARK_EVENT_ENTER else CMARK_EVENT_EXIT, Some (snd s))"

definition state_of :: "(bool \<times> nptr) option \<Rightarrow> cmark_iter_state" where
  "state_of s = (case s of None \<Rightarrow> \<lparr>ev_type = CMARK_EVENT_DONE, st_node = None\<rparr>
     | Some x \<Rightarrow> \<lparr>ev_type = fst (event_of x), st_node = snd (event_of x)\<rparr>)"

abbreviation heap_advance :: "heap \<Rightarrow> nptr \<Rightarrow> bool \<times> nptr \<Rightarrow> (bool \<times> nptr) option" where
  "heap_advance h \<equiv> advance (node_leaf h) (fc (view h)) (nx (view h)) (pa (view h))"

lemma iter_next_advance:
  assumes "live (view h) p" "it_root iter = Some r" "it_next iter = state_of (Some (b, p))"
    "p = r \<or> pa (view h) p \<noteq> None"
  shows "cmark_iter_next h iter = Inr (fst (event_of (b, p)),
    iter\<lparr>it_cur := state_of (Some (b, p)), it_next := state_of (heap_advance h r (b, p))\<rparr>)"
  using assms
  by (cases b; cases "fc (view h) p"; cases "nx (view h) p"; cases "pa (view h) p")
    (auto simp: cmark_iter_next_def Let_def state_of_def event_of_def S_is_leaf_def deref_opt_def node_live
      advance_def finish_def node_leaf_def)

lemma iter_events_walk:
  assumes "walk (heap_advance h r) s es None" "it_root iter = Some r" "it_next iter = state_of s"
    "\<And>b p. (b, p) \<in> set es \<Longrightarrow> live (view h) p \<and> (p = r \<or> pa (view h) p \<noteq> None)" "length es < fuel"
  shows "iter_events fuel h iter = Inr (map event_of es)"
  using assms
proof (induction es arbitrary: s iter fuel)
  case Nil
  then obtain f where "fuel = Suc f" by (cases fuel) auto
  with Nil show ?case by (simp add: cmark_iter_next_def state_of_def)
next
  case (Cons e es)
  obtain b p where e: "e = (b, p)" by (cases e)
  obtain f where f: "fuel = Suc f" "length es < f" using Cons.prems(5) by (cases fuel) auto
  have p: "live (view h) p" "p = r \<or> pa (view h) p \<noteq> None" using Cons.prems(4) [of b p] e by auto
  have s: "s = Some (b, p)" "walk (heap_advance h r) (heap_advance h r (b, p)) es None"
    using Cons.prems(1) e by simp_all
  let ?i = "iter\<lparr>it_cur := state_of (Some (b, p)), it_next := state_of (heap_advance h r (b, p))\<rparr>"
  have "cmark_iter_next h iter = Inr (fst (event_of (b, p)), ?i)"
    using iter_next_advance [OF p(1) Cons.prems(2) _ p(2)] Cons.prems(3) s(1) by simp
  moreover have "iter_events f h ?i = Inr (map event_of es)"
    by (rule Cons.IH [OF s(2)]) (use Cons.prems f in auto)
  moreover have "fst (event_of (b, p)) \<noteq> CMARK_EVENT_DONE" by (simp add: event_of_def)
  moreover have "(fst (event_of (b, p)), cmark_iter_get_node ?i) = event_of (b, p)"
    by (simp add: cmark_iter_get_node_def state_of_def event_of_def)
  ultimately show ?case unfolding e f(1) by simp
qed

lemma visits_preorder: "(b, p) \<in> set (visits leaf t) \<Longrightarrow> p \<in> set (preorder t)"
  by (induction t) (auto split: if_splits)

lemma length_visits: "length (visits leaf t) \<le> 2 * length (preorder t)"
proof (induction t)
  case (NTree p ts)
  then have "length (concat (map (visits leaf) ts)) \<le> 2 * length (concat (map preorder ts))"
    by (induction ts) (auto simp: add_mono)
  then show ?case by simp
qed

lemma preorder_parent:
  assumes "links h kids"
  shows "tree_at kids t \<Longrightarrow> q \<in> set (preorder t) \<Longrightarrow> q \<noteq> ntree_root t \<Longrightarrow> pa (view h) q \<noteq> None"
proof (induction t)
  case (NTree p ts)
  then obtain t where t: "t \<in> set ts" "q \<in> set (preorder t)" by auto
  have lb: "links_but {} (view h) kids" using assms by (simp add: links_def)
  show ?case
  proof (cases "q = ntree_root t")
    case True
    then have "q \<in> set (kids p)" using NTree.prems(1) t(1) by (metis image_eqI list.set_map tree_at.simps)
    then show ?thesis using links_butD(6) [OF lb] by fastforce
  next
    case False
    then show ?thesis using NTree t by (auto simp: list_all_iff)
  qed
qed

lemma iterator_visits:
  assumes f: "forest h kids" and t: "tree_at kids t" "ntree_root t = p" and p: "live (view h) p"
  shows "\<exists>iter. cmark_iter_new h (Some p) = Inr (Some iter) \<and>
    (\<forall>fuel > 2 * length h. iter_events fuel h iter = Inr (map event_of (visits (node_leaf h) t)))"
proof -
  have l: "links h kids" using f by (simp add: forest_def)
  have d: "distinct (preorder t)" using preorder_distinct [OF f t(1)] .
  then have "p \<notin> set (concat (map preorder (subtrees t)))" using t(2) by (cases t) auto
  then have w: "walk (heap_advance h p) (Some (True, p)) (visits (node_leaf h) t)
      (finish (nx (view h)) (pa (view h)) p p)"
    using heap_tree.walk_tree [OF l t(1), of p "node_leaf h"] t(2) p by simp
  let ?i = "\<lparr>it_mem = mem (n_content (the_node h p)), it_root = Some p,
      it_cur = \<lparr>ev_type = CMARK_EVENT_NONE, st_node = None\<rparr>,
      it_next = \<lparr>ev_type = CMARK_EVENT_ENTER, st_node = Some p\<rparr>\<rparr>"
  have "iter_events fuel h ?i = Inr (map event_of (visits (node_leaf h) t))" if "fuel > 2 * length h" for fuel
  proof (rule iter_events_walk)
    show "walk (heap_advance h p) (Some (True, p)) (visits (node_leaf h) t) None"
      using w by (simp add: finish_def)
    show "length (visits (node_leaf h) t) < fuel"
      using that length_visits [of "node_leaf h" t] preorder_length [OF f t(1)] t(2) p by simp
    show "live (view h) q \<and> (q = p \<or> pa (view h) q \<noteq> None)" if "(b, q) \<in> set (visits (node_leaf h) t)" for b q
      using visits_preorder [OF that] tree_at_live [OF l t(1)] preorder_parent [OF l t(1)] t(2) p by auto
  qed (simp_all add: state_of_def event_of_def)
  then show ?thesis using p by (simp add: cmark_iter_new_def node_live)
qed

section \<open>Merging text nodes and owning strings\<close>

definition put_chunk :: "cmark_strbuf \<Rightarrow> cmark_chunk \<Rightarrow> cmark_strbuf res" where
  "put_chunk buf c = cmark_strbuf_put buf (case ch_data c of None \<Rightarrow> [] | Some d \<Rightarrow> d) (ch_len c)"

fun merge_texts ::
  "nat \<Rightarrow> node_env \<Rightarrow> nptr \<Rightarrow> nptr option \<Rightarrow> heap \<times> cmark_iter \<times> cmark_strbuf \<Rightarrow>
     (heap \<times> cmark_iter \<times> cmark_strbuf) res" where
  "merge_texts 0 env cur tmp s = Inl Out_of_fuel"
| "merge_texts (Suc fuel) env cur tmp (h, iter, buf) =
     (case tmp of None \<Rightarrow> Inr (h, iter, buf)
      | Some t \<Rightarrow>
          bindr (deref h t) (\<lambda>n.
          if n_type n \<noteq> CMARK_NODE_TEXT then Inr (h, iter, buf)
          else
            bindr (cmark_iter_next h iter) (\<lambda>(_, iter).
            bindr (get_chunk M_literal (n_as n)) (\<lambda>c.
            bindr (put_chunk buf c) (\<lambda>buf.
            bindr (update h cur (end_column_update (\<lambda>_. end_column n))) (\<lambda>h.
            bindr (deref h t) (\<lambda>n.
            bindr (cmark_node_free env h (Some t)) (\<lambda>h.
            merge_texts fuel env cur (n_next n) (h, iter, buf)))))))))"

text \<open>The type of \<open>cur->next\<close>, where there is one.\<close>

definition next_is_text :: "heap \<Rightarrow> cmark_node \<Rightarrow> bool res" where
  "next_is_text h n =
     (case n_next n of None \<Rightarrow> Inr False
      | Some x \<Rightarrow> bindr (deref h x) (\<lambda>m. Inr (n_type m = CMARK_NODE_TEXT)))"

fun consolidate_loop ::
  "nat \<Rightarrow> node_env \<Rightarrow> heap \<times> cmark_iter \<times> cmark_strbuf \<Rightarrow> (heap \<times> cmark_iter \<times> cmark_strbuf) res" where
  "consolidate_loop 0 env s = Inl Out_of_fuel"
| "consolidate_loop (Suc fuel) env (h, iter, buf) =
     bindr (cmark_iter_next h iter) (\<lambda>(ev, iter).
     if ev = CMARK_EVENT_DONE then Inr (h, iter, buf)
     else if ev \<noteq> CMARK_EVENT_ENTER then consolidate_loop fuel env (h, iter, buf)
     else
       (case cmark_iter_get_node iter of
          None \<Rightarrow> Inl Null_deref
        | Some cur \<Rightarrow>
            bindr (deref h cur) (\<lambda>n.
            bindr (if n_type n = CMARK_NODE_TEXT then next_is_text h n else Inr False) (\<lambda>merge.
            if \<not> merge then consolidate_loop fuel env (h, iter, buf)
            else
              bindr (cmark_strbuf_clear buf) (\<lambda>buf.
              bindr (get_chunk M_literal (n_as n)) (\<lambda>c.
              bindr (put_chunk buf c) (\<lambda>buf.
              bindr (merge_texts fuel env cur (n_next n) (h, iter, buf)) (\<lambda>(h, iter, buf).
              bindr (chunk_free_at h cur M_literal) (\<lambda>h.
              bindr (cmark_chunk_buf_detach buf) (\<lambda>(lit, buf).
              bindr (update h cur (n_as_update (set_chunk M_literal lit))) (\<lambda>h.
              consolidate_loop fuel env (h, iter, buf))))))))))))"

definition cmark_consolidate_text_nodes :: "nat \<Rightarrow> node_env \<Rightarrow> heap \<Rightarrow> nptr option \<Rightarrow> heap res" where
  "cmark_consolidate_text_nodes fuel env h root =
     bindr (cmark_iter_new h root) (\<lambda>it.
     case it of None \<Rightarrow> Inr h
     | Some iter \<Rightarrow>
         bindr (consolidate_loop fuel env (h, iter, strbuf_empty (it_mem iter))) (\<lambda>(h, _, buf).
         bindr (cmark_strbuf_free buf) (\<lambda>_. Inr h)))"

definition own_members :: "node_type \<Rightarrow> chunk_member list" where
  "own_members t =
     (if t \<in> {CMARK_NODE_TEXT, CMARK_NODE_HTML_INLINE, CMARK_NODE_CODE, CMARK_NODE_HTML_BLOCK}
      then [M_literal]
      else if t = CMARK_NODE_LINK then [M_link_url, M_link_title]
      else if t = CMARK_NODE_CUSTOM_INLINE then [M_on_enter, M_on_exit]
      else [])"

fun own_chunks :: "heap \<Rightarrow> nptr \<Rightarrow> chunk_member list \<Rightarrow> heap res" where
  "own_chunks h p [] = Inr h"
| "own_chunks h p (m # ms) = bindr (chunk_to_cstr_at h p m) (\<lambda>(_, h). own_chunks h p ms)"

fun own_loop :: "nat \<Rightarrow> heap \<Rightarrow> cmark_iter \<Rightarrow> heap res" where
  "own_loop 0 h iter = Inl Out_of_fuel"
| "own_loop (Suc fuel) h iter =
     bindr (cmark_iter_next h iter) (\<lambda>(ev, iter).
     if ev = CMARK_EVENT_DONE then Inr h
     else if ev \<noteq> CMARK_EVENT_ENTER then own_loop fuel h iter
     else
       (case cmark_iter_get_node iter of
          None \<Rightarrow> Inl Null_deref
        | Some cur \<Rightarrow>
            bindr (deref h cur) (\<lambda>n.
            bindr (own_chunks h cur (own_members (n_type n))) (\<lambda>h. own_loop fuel h iter))))"

definition cmark_node_own :: "nat \<Rightarrow> heap \<Rightarrow> nptr option \<Rightarrow> heap res" where
  "cmark_node_own fuel h root =
     bindr (cmark_iter_new h root) (\<lambda>it.
     case it of None \<Rightarrow> Inr h | Some iter \<Rightarrow> own_loop fuel h iter)"

section \<open>Properties\<close>

text \<open>
  C6: Iterating from any node of a forest visits its tree in document order: every node is entered
  before and left after its children, leaves are only entered, and the walk ends, after at most
  twice as many steps as there are nodes, without leaving the tree.
\<close>

theorem iterator_document_order:
  assumes "forest h kids" "live (view h) p"
  shows "\<exists>t iter. tree_at kids t \<and> ntree_root t = p \<and> distinct (preorder t) \<and>
    cmark_iter_new h (Some p) = Inr (Some iter) \<and>
    (\<forall>fuel > 2 * length h. iter_events fuel h iter = Inr (map event_of (visits (node_leaf h) t)))"
proof -
  obtain t where t: "tree_at kids t" "ntree_root t = p" using tree_exists [OF assms(1)] by blast
  with iterator_visits [OF assms(1) t assms(2)] preorder_distinct [OF assms(1) t(1)] show ?thesis by blast
qed

theorem iterator_document_order_witness:
  "\<exists>iter. cmark_iter_new sample_tree (Some 0) = Inr (Some iter) \<and>
     iter_events 9 sample_tree iter = Inr
       [(CMARK_EVENT_ENTER, Some 0), (CMARK_EVENT_ENTER, Some 1), (CMARK_EVENT_EXIT, Some 1),
        (CMARK_EVENT_ENTER, Some 2), (CMARK_EVENT_EXIT, Some 2), (CMARK_EVENT_EXIT, Some 0)]"
proof -
  obtain t iter where t: "tree_at sample_kids t" "ntree_root t = 0"
    "cmark_iter_new sample_tree (Some 0) = Inr (Some iter)"
    "\<forall>fuel > 2 * length sample_tree.
       iter_events fuel sample_tree iter = Inr (map event_of (visits (node_leaf sample_tree) t))"
    using iterator_document_order [OF sample_forest, of 0] by (auto simp: sample_live)
  from t(1,2) have "t = NTree 0 [NTree 1 [], NTree 2 []]"
    by (cases t) (auto simp: sample_kids_def map_eq_Cons_conv, (case_tac z; case_tac za; simp)+)
  moreover have "\<not> node_leaf sample_tree 0" "\<not> node_leaf sample_tree 1" "\<not> node_leaf sample_tree 2"
    by code_simp+
  moreover have "2 * length sample_tree < 9" by (simp add: sample_tree_def)
  ultimately show ?thesis using t(3,4) by (auto simp: event_of_def)
qed

end
