(* ===== verification/Node_Check.thy ===== *)
theory Node_Check
  imports Iterator
begin

text \<open>
  The consistency check, \<open>cmark_node_check\<close> of src/src/node.c.  It follows the first-child and next pointers and sets
  the prev, parent and last-child pointers right that do not fit them.  \<open>derived t\<close> lists the right values of
  these for a tree \<open>t\<close>, in the order in which the code tests them; \<open>check_walk\<close> shows that the code makes exactly these
  tests, and \<open>check_links_eq\<close> what they amount to.
\<close>

section \<open>The code\<close>

text \<open>\<open>repair\<close>: a wrong pointer is set right and counted.\<close>

definition repair :: "bool \<Rightarrow> nptr \<Rightarrow> (cmark_node \<Rightarrow> cmark_node) \<Rightarrow> heap \<times> int \<Rightarrow> (heap \<times> int) res" where
  "repair wrong p f s =
     (case s of (h, errors) \<Rightarrow>
        if wrong then bindr (update h p f) (\<lambda>h. Inr (h, errors + 1)) else Inr (h, errors))"

text \<open>
  One round of the loop of \<open>cmark_node_check\<close>.  The state \<open>(True, cur)\<close> is the top of the loop,
  \<open>(False, cur)\<close> the label \<open>next_sibling\<close>; \<open>None\<close> is the \<open>break\<close>.
\<close>

definition check_step ::
  "nptr \<Rightarrow> bool \<times> nptr \<Rightarrow> heap \<times> int \<Rightarrow> ((bool \<times> nptr) option \<times> heap \<times> int) res" where
  "check_step root st s =
     (case st of (down, cur) \<Rightarrow>
        bindr (deref (fst s) cur) (\<lambda>n.
        case (if down then n_first n else None) of
          Some f \<Rightarrow>
            bindr (deref (fst s) f) (\<lambda>c.
            bindr (repair (n_prev c \<noteq> None) f (n_prev_update (\<lambda>_. None)) s) (\<lambda>s.
            bindr (deref (fst s) f) (\<lambda>c.
            bindr (repair (n_parent c \<noteq> Some cur) f (n_parent_update (\<lambda>_. Some cur)) s) (\<lambda>s.
            Inr (Some (True, f), s)))))
        | None \<Rightarrow>
            if down then Inr (Some (False, cur), s)
            else if cur = root then Inr (None, s)
            else
              (case n_next n of
                 Some x \<Rightarrow>
                   bindr (deref (fst s) x) (\<lambda>c.
                   bindr (repair (n_prev c \<noteq> Some cur) x (n_prev_update (\<lambda>_. Some cur)) s) (\<lambda>s.
                   bindr (deref (fst s) x) (\<lambda>c.
                   bindr (deref (fst s) cur) (\<lambda>n.
                   bindr (repair (n_parent c \<noteq> n_parent n) x (n_parent_update (\<lambda>_. n_parent n)) s) (\<lambda>s.
                   Inr (Some (True, x), s))))))
               | None \<Rightarrow>
                   (case n_parent n of
                      None \<Rightarrow> Inl Null_deref
                    | Some q \<Rightarrow>
                        bindr (deref (fst s) q) (\<lambda>r.
                        bindr (repair (n_last r \<noteq> Some cur) q (n_last_update (\<lambda>_. Some cur)) s) (\<lambda>s.
                        Inr (Some (False, q), s)))))))"

fun check_loop :: "nat \<Rightarrow> nptr \<Rightarrow> (bool \<times> nptr) option \<Rightarrow> heap \<times> int \<Rightarrow> (heap \<times> int) res" where
  "check_loop fuel root None s = Inr s"
| "check_loop 0 root (Some st) s = Inl Out_of_fuel"
| "check_loop (Suc fuel) root (Some st) s =
     bindr (check_step root st s) (\<lambda>(st, s). check_loop fuel root st s)"

text \<open>The number of errors and the repaired heap; the messages on \<open>out\<close> are not modelled.\<close>

definition cmark_node_check :: "nat \<Rightarrow> heap \<Rightarrow> nptr option \<Rightarrow> (int \<times> heap) res" where
  "cmark_node_check fuel h node =
     (case node of None \<Rightarrow> Inr (0, h)
      | Some p \<Rightarrow> bindr (check_loop fuel p (Some (True, p)) (h, 0)) (\<lambda>(h, errors). Inr (errors, h)))"

section \<open>No false errors\<close>

text \<open>In a well-linked heap every test succeeds, and the walk is that of the iterator without leaves.\<close>

abbreviation check_advance :: "heap \<Rightarrow> nptr \<Rightarrow> bool \<times> nptr \<Rightarrow> (bool \<times> nptr) option" where
  "check_advance h \<equiv> advance (\<lambda>_. False) (fc (view h)) (nx (view h)) (pa (view h))"

lemma check_step_links:
  assumes l: "links h kids" and p: "live (view h) p" "p = r \<or> pa (view h) p \<noteq> None"
  shows "check_step r (b, p) (h, e) = Inr (check_advance h r (b, p), h, e)"
proof -
  have lb: "links_but {} (view h) kids" using l by (simp add: links_def)
  note D = links_butD [OF lb] and nb = neighbours [OF lb p(1)] and n = node_live [OF p(1)]
  note defs = check_step_def advance_def finish_def repair_def
  show ?thesis
  proof (cases "b \<and> fc (view h) p \<noteq> None")
    case True
    then obtain f where f: "b" "fc (view h) p = Some f" by auto
    then have hf: "hd_opt (kids p) = Some f" using D(1) [OF p(1)] by simp
    then have fk: "f \<in> set (kids p)" by (rule hd_opt_in)
    have "prev_in (kids p) f = None" using hd_opt_prev_in [OF D(3) fk] hf by simp
    then have "live (view h) f" "pa (view h) f = Some p" "pv (view h) f = None"
      using D(4,6,8) [OF fk] by simp_all
    then show ?thesis using f n by (simp add: defs node_live)
  next
    case False
    show ?thesis
    proof (cases b)
      case True
      then show ?thesis using False n by (simp add: defs)
    next
      case nb': False
      show ?thesis
      proof (cases "p = r")
        case True
        then show ?thesis using nb' n by (simp add: defs)
      next
        case pr: False
        then obtain q where q: "pa (view h) p = Some q" using p(2) by auto
        have pk: "p \<in> set (kids q)" and ql: "live (view h) q" using D(10,11) [OF p(1) _ q] by auto
        show ?thesis
        proof (cases "nx (view h) p")
          case (Some x)
          have "live (view h) x" "pa (view h) x = Some q" "pv (view h) x = Some p"
            using nb(1) [OF _ Some] q by auto
          then show ?thesis using nb' pr n Some q by (simp add: defs node_live)
        next
          case None
          then have "next_in (kids q) p = None" using D(7) [OF pk] by simp
          then have "lc (view h) q = Some p" using hd_rev_next_in [OF D(3) pk] D(2) [OF ql] by simp
          then show ?thesis using nb' pr n None q ql by (simp add: defs node_live)
        qed
      qed
    qed
  qed
qed

lemma check_loop_walk:
  assumes "walk (check_advance h r) s es None" "links h kids"
    "\<And>b p. (b, p) \<in> set es \<Longrightarrow> live (view h) p \<and> (p = r \<or> pa (view h) p \<noteq> None)" "length es \<le> fuel"
  shows "check_loop fuel r s (h, e) = Inr (h, e)"
  using assms
proof (induction es arbitrary: s fuel)
  case (Cons x es)
  obtain b p where x: "x = (b, p)" by (cases x)
  obtain f where f: "fuel = Suc f" "length es \<le> f" using Cons.prems(4) by (cases fuel) auto
  have "live (view h) p" "p = r \<or> pa (view h) p \<noteq> None" using Cons.prems(3) [of b p] x by auto
  note st = check_step_links [OF Cons.prems(2) this, of b e]
  have "check_loop f r (check_advance h r (b, p)) (h, e) = Inr (h, e)"
    by (rule Cons.IH) (use Cons.prems x f in auto)
  with st Cons.prems(1) f x show ?case by auto
qed simp

lemma node_check_links:
  assumes f: "forest h kids" and p: "live (view h) p" and fuel: "2 * length h \<le> fuel"
  shows "cmark_node_check fuel h (Some p) = Inr (0, h)"
proof -
  have l: "links h kids" using f by (simp add: forest_def)
  obtain t where t: "tree_at kids t" "ntree_root t = p" using tree_exists [OF f] by blast
  have d: "distinct (preorder t)" using preorder_distinct [OF f t(1)] .
  then have "p \<notin> set (concat (map preorder (subtrees t)))" using t(2) by (cases t) auto
  then have w: "walk (check_advance h p) (Some (True, p)) (visits (\<lambda>_. False) t)
      (finish (nx (view h)) (pa (view h)) p p)"
    using heap_tree.walk_tree [OF l t(1), of p "\<lambda>_. False"] t(2) p by simp
  have "check_loop fuel p (Some (True, p)) (h, 0) = Inr (h, 0)"
  proof (rule check_loop_walk [OF _ l])
    show "walk (check_advance h p) (Some (True, p)) (visits (\<lambda>_. False) t) None"
      using w by (simp add: finish_def)
    show "length (visits (\<lambda>_. False) t) \<le> fuel"
      using fuel length_visits [of "\<lambda>_. False" t] preorder_length [OF f t(1)] t(2) p by simp
    show "live (view h) q \<and> (q = p \<or> pa (view h) q \<noteq> None)"
      if "(b, q) \<in> set (visits (\<lambda>_. False) t)" for b q
      using visits_preorder [OF that] tree_at_live [OF l t(1)] preorder_parent [OF l t(1)] t(2) p by auto
  qed
  then show ?thesis by (simp add: cmark_node_check_def)
qed

section \<open>What the check repairs\<close>

text \<open>
  The links that follow from the first-child and next pointers of a tree: \<open>(f, x, v)\<close> says that the
  link \<open>f\<close> of the node \<open>x\<close> is \<open>v\<close>.
\<close>

datatype link_field = F_prev | F_parent | F_last

type_synonym link = "link_field \<times> nptr \<times> nptr option"

fun get_link :: "link_field \<Rightarrow> cmark_node \<Rightarrow> nptr option" where
  "get_link F_prev n = n_prev n"
| "get_link F_parent n = n_parent n"
| "get_link F_last n = n_last n"

fun put_link :: "link_field \<Rightarrow> nptr option \<Rightarrow> cmark_node \<Rightarrow> cmark_node" where
  "put_link F_prev v n = n_prev_update (\<lambda>_. v) n"
| "put_link F_parent v n = n_parent_update (\<lambda>_. v) n"
| "put_link F_last v n = n_last_update (\<lambda>_. v) n"

fun derived :: "ntree \<Rightarrow> link list"
  and derived_from :: "nptr \<Rightarrow> nptr option \<Rightarrow> ntree list \<Rightarrow> link list" where
  "derived (NTree p ts) = derived_from p None ts"
| "derived_from p prev [] = (case prev of None \<Rightarrow> [] | Some q \<Rightarrow> [(F_last, p, Some q)])"
| "derived_from p prev (t # ts) =
     (F_prev, ntree_root t, prev) # (F_parent, ntree_root t, Some p) # derived t @ derived_from p (Some (ntree_root t)) ts"

definition wrong :: "heap \<Rightarrow> link \<Rightarrow> bool" where
  "wrong h w = (case w of (f, x, v) \<Rightarrow> (case cell h x of None \<Rightarrow> False | Some n \<Rightarrow> get_link f n \<noteq> v))"

definition set_right :: "link \<Rightarrow> heap \<Rightarrow> heap" where
  "set_right w h = (case w of (f, x, v) \<Rightarrow> (case cell h x of None \<Rightarrow> h | Some n \<Rightarrow> h[x := Some (put_link f v n)]))"

text \<open>The first-child and next pointers are those of the tree.\<close>

definition has :: "(cmark_node \<Rightarrow> 'a) \<Rightarrow> heap \<Rightarrow> nptr \<Rightarrow> 'a \<Rightarrow> bool" where
  "has f h x v \<longleftrightarrow> map_option f (cell h x) = Some v"

fun chain :: "heap \<Rightarrow> nptr list \<Rightarrow> bool" where
  "chain h [] \<longleftrightarrow> True"
| "chain h (x # xs) \<longleftrightarrow> has n_next h x (hd_opt xs) \<and> chain h xs"

fun down_links :: "heap \<Rightarrow> ntree \<Rightarrow> bool" where
  "down_links h (NTree p ts) \<longleftrightarrow>
     has n_first h p (hd_opt (map ntree_root ts)) \<and> chain h (map ntree_root ts) \<and>
     list_all (down_links h) ts"

lemma put_link_simps [simp]:
  "get_link f (put_link g v n) = (if f = g then v else get_link f n)"
  "n_first (put_link g v n) = n_first n" "n_next (put_link g v n) = n_next n"
  by ((cases f; cases g; simp)+; cases g; simp)+

lemma cell_set_right:
  "cell (set_right (f, x, v) h) y = (if y = x then map_option (put_link f v) (cell h x) else cell h y)"
  using cell_length by (auto simp: set_right_def heap split: option.splits)

lemma has_set_right:
  "has n_first (set_right w h) x v = has n_first h x v" "has n_next (set_right w h) x v = has n_next h x v"
  "has (\<lambda>_. ()) (set_right w h) x u = has (\<lambda>_. ()) h x u"
  by (cases w; auto simp: has_def cell_set_right)+

lemma chain_set_right [simp]: "chain (set_right w h) xs = chain h xs"
proof -
  obtain f x v where "w = (f, x, v)" by (cases w)
  then show ?thesis by (induction xs) (auto simp: has_set_right)
qed

lemma down_set_right [simp]: "down_links (set_right w h) t = down_links h t"
proof -
  obtain f x v where w: "w = (f, x, v)" by (cases w)
  show ?thesis
  proof (induction t)
    case (NTree p ts)
    then show ?case by (auto simp: list_all_iff has_set_right)
  qed
qed

lemma list_all_down: "list_all (down_links (set_right w h)) ts = list_all (down_links h) ts"
  by (simp add: list_all_iff)

text \<open>One test of the loop, and a sequence of them.\<close>

fun check_link :: "link \<Rightarrow> heap \<times> int \<Rightarrow> heap \<times> int" where
  "check_link w (h, e) = (if wrong h w then (set_right w h, e + 1) else (h, e))"

abbreviation check_links :: "link list \<Rightarrow> heap \<times> int \<Rightarrow> heap \<times> int" where
  "check_links ws s \<equiv> fold check_link ws s"

abbreviation same_key :: "link \<Rightarrow> link \<Rightarrow> bool" where
  "same_key w w' \<equiv> fst w = fst w' \<and> fst (snd w) = fst (snd w')"

lemma wrong_set_right:
  "wrong (set_right w h) w' = (if same_key w w' then cell h (fst (snd w)) \<noteq> None \<and> snd (snd w) \<noteq> snd (snd w') else wrong h w')"
  by (cases w; cases w') (auto simp: wrong_def cell_set_right split: option.splits)

definition keys :: "link list \<Rightarrow> (link_field \<times> nptr) list" where
  "keys ws = map (\<lambda>w. (fst w, fst (snd w))) ws"

lemma fold_set_right_wrong:
  "(fst w, fst (snd w)) \<notin> set (keys ws) \<Longrightarrow> wrong (fold set_right ws h) w = wrong h w"
  by (induction ws arbitrary: h) (auto simp: keys_def wrong_set_right)

lemma check_links_eq:
  "distinct (keys ws) \<Longrightarrow>
     check_links ws (h, e) = (fold set_right (filter (wrong h) ws) h, e + int (length (filter (wrong h) ws)))"
proof (induction ws arbitrary: h e)
  case (Cons w ws)
  have "filter (wrong (set_right w h)) ws = filter (wrong h) ws"
    using Cons.prems by (intro filter_cong) (auto simp: keys_def wrong_set_right)
  then show ?case using Cons by (simp add: keys_def)
qed simp

lemma check_links_right:
  assumes "distinct (keys ws)" "w \<in> set ws"
  shows "\<not> wrong (fst (check_links ws (h, e))) w"
  using assms
proof (induction ws arbitrary: h e)
  case (Cons x ws)
  let ?s = "check_link x (h, e)"
  have d: "distinct (keys ws)" using Cons.prems(1) by (simp add: keys_def)
  show ?case
  proof (cases "w = x")
    case True
    have "\<not> wrong (fst ?s) x" by (auto simp: wrong_set_right)
    moreover have "wrong (fst (check_links ws ?s)) x = wrong (fst ?s) x"
    proof -
      have "(fst x, fst (snd x)) \<notin> set (keys (filter (wrong (fst ?s)) ws))"
        using Cons.prems(1) by (auto simp: keys_def)
      then show ?thesis
        using check_links_eq [OF d, of "fst ?s" "snd ?s"] fold_set_right_wrong by (metis fst_conv prod.collapse)
    qed
    ultimately show ?thesis using True by simp
  next
    case False
    then have "w \<in> set ws" using Cons.prems(2) by simp
    then show ?thesis using Cons.IH [OF d, of "fst ?s" "snd ?s"] by simp
  qed
qed simp

text \<open>The keys of a tree: two for every node below the root, one for every inner node.\<close>

abbreviation below :: "ntree list \<Rightarrow> nptr list" where
  "below ts \<equiv> concat (map preorder ts)"

lemma keys_in:
  "(f, x) \<in> set (keys (derived t)) \<Longrightarrow> (f, x) = (F_last, ntree_root t) \<or> x \<in> set (below (subtrees t))"
  "(f, x) \<in> set (keys (derived_from p prev ts)) \<Longrightarrow> (f, x) = (F_last, p) \<or> x \<in> set (below ts)"
proof (induction t and p prev ts arbitrary: f x and f x rule: derived_derived_from.induct)
  case (3 p prev t ts)
  then show ?case by (cases t) (fastforce simp: keys_def)
qed (auto simp: keys_def split: option.splits)

lemma keys_distinct:
  "distinct (preorder t) \<Longrightarrow> distinct (keys (derived t))"
  "distinct (p # below ts) \<Longrightarrow> distinct (keys (derived_from p prev ts))"
proof (induction t and p prev ts rule: derived_derived_from.induct)
  case (3 p prev t ts)
  let ?q = "ntree_root t"
  have d: "distinct (preorder t)" "distinct (p # below ts)" "p \<notin> set (preorder t)" "set (preorder t) \<inter> set (below ts) = {}"
    using 3(3) by auto
  have q: "?q \<notin> set (below (subtrees t))" "set (below (subtrees t)) \<subseteq> set (preorder t)" "p \<noteq> ?q"
    using d(1,3) by (cases t; auto)+
  have k: "(f, ?q) \<notin> set (keys (derived t)) \<and> (f, ?q) \<notin> set (keys (derived_from p (Some ?q) ts))" if "f \<noteq> F_last" for f
    using keys_in(1) [of f ?q t] keys_in(2) [of f ?q p "Some ?q" ts] that q d(4) root_in_preorder [of t] by blast
  have "set (keys (derived t)) \<inter> set (keys (derived_from p (Some ?q) ts)) = {}"
  proof -
    have False if "(f, x) \<in> set (keys (derived t))" "(f, x) \<in> set (keys (derived_from p (Some ?q) ts))" for f x
    proof -
      have "x \<in> set (preorder t)" using keys_in(1) [OF that(1)] q(2) by auto
      moreover have "x = p \<or> x \<in> set (below ts)" using keys_in(2) [OF that(2)] by auto
      ultimately show False using d(3,4) by auto
    qed
    then show ?thesis by auto
  qed
  then show ?case using 3(1) [OF d(1)] 3(2) [OF d(2)] k by (simp add: keys_def)
qed (auto simp: keys_def split: option.splits)

text \<open>What a sequence of tests does not change.\<close>

lemma has_link_set_right:
  "(f, x) \<noteq> (fst w, fst (snd w)) \<Longrightarrow> has (get_link f) (set_right w h) x v = has (get_link f) h x v"
  by (cases w) (auto simp: has_def cell_set_right)

lemma check_links_inv:
  assumes "\<And>w h. P (set_right w h) = P h"
  shows "P (fst (check_links ws s)) = P (fst s)"
proof (induction ws arbitrary: s)
  case (Cons w ws)
  then show ?case using assms by (cases s) simp
qed simp

lemmas check_links_keep =
  check_links_inv [where P = "\<lambda>h. has n_first h x v" for x v, OF has_set_right(1)]
  check_links_inv [where P = "\<lambda>h. has n_next h x v" for x v, OF has_set_right(2)]
  check_links_inv [where P = "\<lambda>h. has (\<lambda>_. ()) h x u" for x u, OF has_set_right(3)]
  check_links_inv [where P = "\<lambda>h. down_links h t" for t, OF down_set_right]

lemma has_link_check_links:
  "(f, x) \<notin> set (keys ws) \<Longrightarrow> has (get_link f) (fst (check_links ws s)) x v = has (get_link f) (fst s) x v"
proof (induction ws arbitrary: s)
  case (Cons w ws)
  then show ?case using has_link_set_right [of f x w] by (cases s) (simp add: keys_def)
qed simp

lemma has_checked: "has (\<lambda>_. ()) h x () \<Longrightarrow> has (get_link f) (fst (check_link (f, x, v) (h, e))) x v"
  by (auto simp: has_def wrong_def cell_set_right)

section \<open>The walk of the check\<close>

lemma put_link_eta:
  "n_prev_update (\<lambda>_. v) = put_link F_prev v" "n_parent_update (\<lambda>_. v) = put_link F_parent v"
  "n_last_update (\<lambda>_. v) = put_link F_last v"
  by (auto simp: fun_eq_iff)

lemma repair_link:
  "cell h x = Some n \<Longrightarrow> repair (get_link f n \<noteq> v) x (put_link f v) (h, e) = Inr (check_link (f, x, v) (h, e))"
  by (simp add: repair_def wrong_def set_right_def heap)

definition walk_start :: "nptr \<Rightarrow> nptr option \<Rightarrow> bool \<times> nptr" where
  "walk_start p prev = (case prev of None \<Rightarrow> (True, p) | Some q \<Rightarrow> (False, q))"

text \<open>Where the walk stands between two children of \<open>p\<close>, the next of which is \<open>f\<close>.\<close>

definition between :: "nptr \<Rightarrow> heap \<Rightarrow> nptr \<Rightarrow> nptr option \<Rightarrow> nptr option \<Rightarrow> bool" where
  "between r h p prev f \<longleftrightarrow> has (\<lambda>_. ()) h p () \<and>
     (case prev of
        None \<Rightarrow> has n_first h p f
      | Some q \<Rightarrow> has n_next h q f \<and> has (get_link F_parent) h q (Some p) \<and> q \<noteq> r)"

lemma step_to_child:
  assumes b: "between r h p prev (Some f)" and f: "has (\<lambda>_. ()) h f ()" "f \<noteq> p" "prev \<noteq> Some f"
  shows "check_step r (walk_start p prev) (h, e) =
    Inr (Some (True, f), check_links [(F_prev, f, prev), (F_parent, f, Some p)] (h, e))"
proof -
  obtain nf where nf: "cell h f = Some nf" using f(1) by (auto simp: has_def)
  let ?s = "check_link (F_prev, f, prev) (h, e)"
  obtain h1 e1 where s: "?s = (h1, e1)" by (cases ?s)
  have rp: "repair (n_prev nf \<noteq> prev) f (n_prev_update (\<lambda>_. prev)) (h, e) = Inr (h1, e1)"
    using repair_link [OF nf, of F_prev prev e] s by (simp add: put_link_eta)
  have "has (\<lambda>_. ()) h1 f ()" using check_links_keep(3) [of "[(F_prev, f, prev)]" "(h, e)" f "()"] s f(1) by simp
  then obtain n1 where n1: "cell h1 f = Some n1" by (auto simp: has_def)
  have rq: "repair (n_parent n1 \<noteq> Some p) f (n_parent_update (\<lambda>_. Some p)) (h1, e1) =
      Inr (check_link (F_parent, f, Some p) (h1, e1))"
    using repair_link [OF n1, of F_parent "Some p" e1] by (simp add: put_link_eta)
  show ?thesis
  proof (cases prev)
    case None
    then obtain n where n: "cell h p = Some n" "n_first n = Some f" using b by (auto simp: between_def has_def)
    then show ?thesis
      using None nf n1 rp rq s by (simp add: check_step_def walk_start_def deref_heap del: check_link.simps)
  next
    case (Some q)
    then obtain n where n: "cell h q = Some n" "n_next n = Some f" "q \<noteq> r" "n_parent n = Some p"
      using b by (auto simp: between_def has_def)
    have "has (get_link F_parent) h1 q (Some p)"
      using has_link_check_links [of F_parent q "[(F_prev, f, prev)]" "(h, e)" "Some p"] s n by (simp add: keys_def has_def)
    then obtain m where m: "cell h1 q = Some m" "n_parent m = Some p" by (auto simp: has_def)
    show ?thesis
      using Some n nf n1 m rp rq s by (simp add: check_step_def walk_start_def deref_heap del: check_link.simps)
  qed
qed

lemma step_to_end:
  assumes b: "between r h p prev None"
  shows "check_step r (walk_start p prev) (h, e) = Inr (Some (False, p), check_links (derived_from p prev []) (h, e))"
proof (cases prev)
  case None
  then obtain n where "cell h p = Some n" "n_first n = None" using b by (auto simp: between_def has_def)
  then show ?thesis using None by (simp add: check_step_def walk_start_def deref_heap)
next
  case (Some q)
  then obtain n m where n: "cell h q = Some n" "n_next n = None" "q \<noteq> r" "n_parent n = Some p" "cell h p = Some m"
    using b by (auto simp: between_def has_def)
  have "repair (n_last m \<noteq> Some q) p (n_last_update (\<lambda>_. Some q)) (h, e) = Inr (check_link (F_last, p, Some q) (h, e))"
    using repair_link [OF n(5), of F_last "Some q" e] by (simp add: put_link_eta)
  then show ?thesis
    using Some n by (simp add: check_step_def walk_start_def deref_heap del: check_link.simps)
qed

lemma check_walk:
  "down_links h t \<Longrightarrow> distinct (preorder t) \<Longrightarrow> r \<notin> set (below (subtrees t)) \<Longrightarrow>
    check_loop (Suc (2 * length (below (subtrees t)) + fuel)) r (Some (True, ntree_root t)) (h, e) =
    check_loop fuel r (Some (False, ntree_root t)) (check_links (derived t) (h, e))"
  "between r h p prev (hd_opt (map ntree_root ts)) \<Longrightarrow> chain h (map ntree_root ts) \<Longrightarrow> list_all (down_links h) ts \<Longrightarrow>
    distinct (p # below ts) \<Longrightarrow> r \<notin> set (below ts) \<Longrightarrow> (\<And>q. prev = Some q \<Longrightarrow> q \<notin> set (below ts)) \<Longrightarrow>
    check_loop (Suc (2 * length (below ts) + fuel)) r (Some (walk_start p prev)) (h, e) =
    check_loop fuel r (Some (False, p)) (check_links (derived_from p prev ts) (h, e))"
proof (induction t and p prev ts arbitrary: h e fuel and h e fuel rule: derived_derived_from.induct)
  case (1 p ts)
  have "between r h p None (hd_opt (map ntree_root ts))" using 1(2) by (auto simp: between_def has_def)
  then show ?case using 1(1) [of h fuel e] 1(2-4) by (simp add: walk_start_def)
next
  case (2 p prev)
  then show ?case using step_to_end [of r h p prev e] by (simp add: hd_opt_def split: prod.splits)
next
  case (3 p prev t ts)
  let ?q = "ntree_root t" and ?F = "2 * length (below ts)"
  let ?ws = "[(F_prev, ?q, prev), (F_parent, ?q, Some p)]"
  let ?s1 = "check_links ?ws (h, e)"
  let ?s2 = "check_links (derived t) ?s1"
  obtain h1 e1 where s1: "?s1 = (h1, e1)" by (cases ?s1)
  obtain h2 e2 where s2: "?s2 = (h2, e2)" by (cases ?s2)
  have d: "distinct (preorder t)" "distinct (p # below ts)" "p \<notin> set (preorder t)" "set (preorder t) \<inter> set (below ts) = {}"
    using 3(6) by auto
  have t: "set (preorder t) = insert ?q (set (below (subtrees t)))" "length (preorder t) = Suc (length (below (subtrees t)))"
    by (cases t; simp)+
  have q: "has (\<lambda>_. ()) h ?q ()" "has n_next h ?q (hd_opt (map ntree_root ts))" "?q \<noteq> p" "prev \<noteq> Some ?q" "?q \<noteq> r"
    using 3(4,7,8) d(3) root_in_preorder [of t] by (auto simp: has_def)
  have b: "between r h p prev (Some ?q)" using 3(3) by (simp add: hd_opt_def)
  have st: "check_step r (walk_start p prev) (h, e) = Inr (Some (True, ?q), h1, e1)"
    using step_to_child [OF b q(1,3,4)] s1 by simp
  have dn: "down_links h1 t" using check_links_keep(4) [of ?ws "(h, e)" t] s1 3(5) by simp
  have "check_loop (Suc (2 * length (below (subtrees t)) + (Suc (?F + fuel)))) r (Some (True, ?q)) (h1, e1) =
      check_loop (Suc (?F + fuel)) r (Some (False, ?q)) (h2, e2)"
    using 3(1) [OF dn d(1), of "Suc (?F + fuel)" e1] 3(7) t(1) s1 s2 by simp
  then have w: "check_loop (Suc (2 * length (below (t # ts)) + fuel)) r (Some (walk_start p prev)) (h, e) =
      check_loop (Suc (?F + fuel)) r (Some (walk_start p (Some ?q))) (h2, e2)"
    using st t(2) by (simp add: walk_start_def algebra_simps)
  have keep: "P h2 = P h" if "\<And>w h. P (set_right w h) = P h" for P
    using check_links_inv [of P, OF that, of "derived t" ?s1] check_links_inv [of P, OF that, of ?ws "(h, e)"] s1 s2
    by simp
  have "has (get_link F_parent) h2 ?q (Some p)"
  proof -
    let ?s0 = "check_link (F_prev, ?q, prev) (h, e)"
    have "has (\<lambda>_. ()) (fst ?s0) ?q ()" using check_links_keep(3) [of "[(F_prev, ?q, prev)]" "(h, e)"] q(1) by simp
    from has_checked [OF this, of F_parent "Some p" "snd ?s0"] s1
    have "has (get_link F_parent) h1 ?q (Some p)" by (simp del: check_link.simps)
    moreover have "(F_parent, ?q) \<notin> set (keys (derived t))"
      using keys_in(1) [of F_parent ?q t] d(1) by (cases t) auto
    ultimately show ?thesis using has_link_check_links [of F_parent ?q "derived t" ?s1] s1 s2 by simp
  qed
  moreover have "has (\<lambda>_. ()) h2 p ()" using keep [of "\<lambda>h. has (\<lambda>_. ()) h p ()", OF has_set_right(3)] b by (simp add: between_def)
  moreover have "has n_next h2 ?q (hd_opt (map ntree_root ts))" using keep [of "\<lambda>h. has n_next h ?q (hd_opt (map ntree_root ts))", OF has_set_right(2)] q(2) by simp
  ultimately have "between r h2 p (Some ?q) (hd_opt (map ntree_root ts))" using q(5) by (simp add: between_def)
  moreover have "chain h2 (map ntree_root ts)" using keep [of "\<lambda>h. chain h (map ntree_root ts)", OF chain_set_right] 3(4) by simp
  moreover have "list_all (down_links h2) ts" using keep [of "\<lambda>h. list_all (down_links h) ts", OF list_all_down] 3(5) by simp
  moreover have "?q \<notin> set (below ts)" using d(4) root_in_preorder [of t] by blast
  ultimately have "check_loop (Suc (?F + fuel)) r (Some (walk_start p (Some ?q))) (h2, e2) =
      check_loop fuel r (Some (False, p)) (check_links (derived_from p (Some ?q) ts) (h2, e2))"
    using 3(2) [of h2 fuel e2] d(2) 3(7) by simp
  then show ?case unfolding w using s1 s2 by simp
qed

lemma links_down:
  assumes l: "links h kids"
  shows "tree_at kids t \<Longrightarrow> live (view h) (ntree_root t) \<Longrightarrow> down_links h t"
proof (induction t)
  case (NTree p ts)
  have lb: "links_but {} (view h) kids" using l by (simp add: links_def)
  note D = links_butD [OF lb]
  have k: "map ntree_root ts = kids p" and sub: "\<And>t. t \<in> set ts \<Longrightarrow> tree_at kids t"
    using NTree.prems(1) by (auto simp: list_all_iff)
  have p: "live (view h) p" using NTree.prems(2) by simp
  have kid: "x \<in> set (kids p) \<Longrightarrow> live (view h) x \<and> nx (view h) x = next_in (kids p) x" for x
    using D(4,7) by blast
  have ch: "chain h ys" if "kids p = xs @ ys" for xs ys
    using that
  proof (induction ys arbitrary: xs)
    case (Cons y ys)
    have "distinct (xs @ y # ys)" using D(3) [of p] Cons.prems by metis
    then have "next_in (kids p) y = hd_opt ys" unfolding Cons.prems by (simp add: next_in_split)
    then have "has n_next h y (hd_opt ys)"
      using kid [of y] Cons.prems by (auto simp: view_def has_def)
    moreover have "chain h ys" using Cons.IH [of "xs @ [y]"] Cons.prems by simp
    ultimately show ?case by simp
  qed simp
  have "down_links h t" if "t \<in> set ts" for t
    using NTree.IH [OF that sub [OF that]] kid [of "ntree_root t"] k that by (metis image_eqI list.set_map)
  moreover have "has n_first h p (hd_opt (kids p))" using D(1) [OF p] p by (auto simp: view_def has_def)
  ultimately show ?case using k ch [of "[]"] by (simp add: list_all_iff)
qed

section \<open>Property\<close>


text \<open>The sample tree with a wrong parent, a wrong prev and a wrong last-child pointer.\<close>

definition broken_tree :: heap where
  "broken_tree = fold set_right [(F_parent, 1, None), (F_prev, 2, Some 0), (F_last, 0, Some 1)] sample_tree"


end
