(* ===== verification/Houdini.thy ===== *)
theory Houdini
  imports Utf8 Entities
begin

text \<open>
  Escaping and unescaping of HTML and URLs: src/src/houdini_html_e.c, src/src/houdini_href_e.c and
  src/src/houdini_html_u.c with its table in \<open>Entities\<close>.
\<close>

section \<open>Runs of bytes\<close>

text \<open>\<open>while (i < size && P(src[i])) i++\<close>.\<close>

function scan_while :: "(byte \<Rightarrow> bool) \<Rightarrow> byte list \<Rightarrow> int \<Rightarrow> int \<Rightarrow> int res" where
  "scan_while P src i sz =
     (if i < sz
      then bindr (peek src i) (\<lambda>c. if P c then scan_while P src (i + 1) sz else Inr i)
      else Inr i)"
  by pat_completeness auto
termination
  by (relation "measure (\<lambda>(P, src, i, sz). nat (sz - i))") auto

declare scan_while.simps [simp del]

lemma scan_while_mono: "scan_while P src i sz = Inr j \<Longrightarrow> i \<le> j"
proof (induction P src i sz rule: scan_while.induct)
  case (1 P src i sz)
  from "1.prems" show ?case
    by (auto simp: scan_while.simps [of P src i sz] split: if_splits dest!: "1.IH")
qed

section \<open>Escaping of HTML\<close>

definition HTML_ESCAPE_TABLE :: "nat list" where
  "HTML_ESCAPE_TABLE =
    [0, 0, 0, 0, 0, 0, 0, 0, 0, 0, 0, 0, 0, 0, 0, 0, 0, 0, 0, 0, 0, 0, 0, 0,
     0, 0, 0, 0, 0, 0, 0, 0, 0, 0, 1, 0, 0, 0, 2, 3, 0, 0, 0, 0, 0, 0, 0, 4,
     0, 0, 0, 0, 0, 0, 0, 0, 0, 0, 0, 0, 5, 0, 6, 0, 0, 0, 0, 0, 0, 0, 0, 0,
     0, 0, 0, 0, 0, 0, 0, 0, 0, 0, 0, 0, 0, 0, 0, 0, 0, 0, 0, 0, 0, 0, 0, 0,
     0, 0, 0, 0, 0, 0, 0, 0, 0, 0, 0, 0, 0, 0, 0, 0, 0, 0, 0, 0, 0, 0, 0, 0,
     0, 0, 0, 0, 0, 0, 0, 0, 0, 0, 0, 0, 0, 0, 0, 0, 0, 0, 0, 0, 0, 0, 0, 0,
     0, 0, 0, 0, 0, 0, 0, 0, 0, 0, 0, 0, 0, 0, 0, 0, 0, 0, 0, 0, 0, 0, 0, 0,
     0, 0, 0, 0, 0, 0, 0, 0, 0, 0, 0, 0, 0, 0, 0, 0, 0, 0, 0, 0, 0, 0, 0, 0,
     0, 0, 0, 0, 0, 0, 0, 0, 0, 0, 0, 0, 0, 0, 0, 0, 0, 0, 0, 0, 0, 0, 0, 0,
     0, 0, 0, 0, 0, 0, 0, 0, 0, 0, 0, 0, 0, 0, 0, 0, 0, 0, 0, 0, 0, 0, 0, 0,
     0, 0, 0, 0, 0, 0, 0, 0, 0, 0, 0, 0, 0, 0, 0, 0]"

definition HTML_ESCAPES :: "byte list list" where
  "HTML_ESCAPES = [[], str ''&quot;'', str ''&amp;'', str ''&#39;'', str ''&#47;'', str ''&lt;'', str ''&gt;'']"

definition html_esc :: "byte \<Rightarrow> nat" where
  "html_esc c = HTML_ESCAPE_TABLE ! unat c"

function escape_html_loop :: "cmark_strbuf \<Rightarrow> byte list \<Rightarrow> int \<Rightarrow> int \<Rightarrow> bool \<Rightarrow> cmark_strbuf res" where
  "escape_html_loop ob src i sz secure =
     (if i < sz
      then bindr (scan_while (\<lambda>c. html_esc c = 0) src i sz) (\<lambda>j.
           bindr (if j > i then cmark_strbuf_put ob (drop (nat i) src) (j - i) else Inr ob) (\<lambda>ob.
           if j \<ge> sz then Inr ob
           else
             bindr (peek src j) (\<lambda>c.
             bindr (if (c = SLASH \<or> c = SQUOTE) \<and> \<not> secure then cmark_strbuf_putc ob c
                    else cmark_strbuf_puts ob (HTML_ESCAPES ! html_esc c @ [NUL])) (\<lambda>ob.
             escape_html_loop ob src (j + 1) sz secure))))
      else Inr ob)"
  by pat_completeness auto
termination
  by (relation "measure (\<lambda>(ob, src, i, sz, secure). nat (sz - i))")
    (auto dest!: scan_while_mono)

declare escape_html_loop.simps [simp del]

definition houdini_escape_html0 :: "cmark_strbuf \<Rightarrow> byte list \<Rightarrow> int \<Rightarrow> bool \<Rightarrow> cmark_strbuf res" where
  "houdini_escape_html0 ob src sz secure = escape_html_loop ob src 0 sz secure"

definition houdini_escape_html :: "cmark_strbuf \<Rightarrow> byte list \<Rightarrow> int \<Rightarrow> cmark_strbuf res" where
  "houdini_escape_html ob src sz = houdini_escape_html0 ob src sz True"

section \<open>Escaping of URLs\<close>

definition HREF_SAFE :: "nat list" where
  "HREF_SAFE =
    [0, 0, 0, 0, 0, 0, 0, 0, 0, 0, 0, 0, 0, 0, 0, 0, 0, 0, 0, 0, 0, 0, 0, 0,
     0, 0, 0, 0, 0, 0, 0, 0, 0, 1, 0, 1, 1, 1, 0, 0, 1, 1, 1, 1, 1, 1, 1, 1,
     1, 1, 1, 1, 1, 1, 1, 1, 1, 1, 1, 1, 0, 1, 0, 1, 1, 1, 1, 1, 1, 1, 1, 1,
     1, 1, 1, 1, 1, 1, 1, 1, 1, 1, 1, 1, 1, 1, 1, 1, 1, 1, 1, 0, 0, 0, 0, 1,
     0, 1, 1, 1, 1, 1, 1, 1, 1, 1, 1, 1, 1, 1, 1, 1, 1, 1, 1, 1, 1, 1, 1, 1,
     1, 1, 1, 0, 0, 0, 1, 0, 0, 0, 0, 0, 0, 0, 0, 0, 0, 0, 0, 0, 0, 0, 0, 0,
     0, 0, 0, 0, 0, 0, 0, 0, 0, 0, 0, 0, 0, 0, 0, 0, 0, 0, 0, 0, 0, 0, 0, 0,
     0, 0, 0, 0, 0, 0, 0, 0, 0, 0, 0, 0, 0, 0, 0, 0, 0, 0, 0, 0, 0, 0, 0, 0,
     0, 0, 0, 0, 0, 0, 0, 0, 0, 0, 0, 0, 0, 0, 0, 0, 0, 0, 0, 0, 0, 0, 0, 0,
     0, 0, 0, 0, 0, 0, 0, 0, 0, 0, 0, 0, 0, 0, 0, 0, 0, 0, 0, 0, 0, 0, 0, 0,
     0, 0, 0, 0, 0, 0, 0, 0, 0, 0, 0, 0, 0, 0, 0, 0]"

definition hex_chars :: "byte list" where
  "hex_chars = str ''0123456789ABCDEF''"

definition href_safe :: "byte \<Rightarrow> bool" where
  "href_safe c \<longleftrightarrow> HREF_SAFE ! unat c \<noteq> 0"

definition hex_str :: "byte \<Rightarrow> byte list" where
  "hex_str c = [PERCENT, hex_chars ! unat (drop_bit 4 c AND 0xF), hex_chars ! unat (c AND 0xF)]"

function escape_href_loop :: "cmark_strbuf \<Rightarrow> byte list \<Rightarrow> int \<Rightarrow> int \<Rightarrow> cmark_strbuf res" where
  "escape_href_loop ob src i sz =
     (if i < sz
      then bindr (scan_while href_safe src i sz) (\<lambda>j.
           bindr (if j > i then cmark_strbuf_put ob (drop (nat i) src) (j - i) else Inr ob) (\<lambda>ob.
           if j \<ge> sz then Inr ob
           else
             bindr (peek src j) (\<lambda>c.
             bindr (if c = AMP then cmark_strbuf_puts ob (str ''&amp;'' @ [NUL])
                    else if c = SQUOTE then cmark_strbuf_puts ob (str ''&#x27;'' @ [NUL])
                    else cmark_strbuf_put ob (hex_str c) 3) (\<lambda>ob.
             escape_href_loop ob src (j + 1) sz))))
      else Inr ob)"
  by pat_completeness auto
termination
  by (relation "measure (\<lambda>(ob, src, i, sz). nat (sz - i))")
    (auto dest!: scan_while_mono)

declare escape_href_loop.simps [simp del]

definition houdini_escape_href :: "cmark_strbuf \<Rightarrow> byte list \<Rightarrow> int \<Rightarrow> cmark_strbuf res" where
  "houdini_escape_href ob src sz = escape_href_loop ob src 0 sz"

section \<open>Looking up an entity\<close>

text \<open>\<open>strncmp\<close> of a piece of memory with a C string, and the terminated entity of an entry.\<close>

fun strncmp :: "byte list \<Rightarrow> byte list \<Rightarrow> nat \<Rightarrow> int res" where
  "strncmp _ _ 0 = Inr 0"
| "strncmp (a # s) (b # t) (Suc n) =
     (if a < b then Inr (-1) else if b < a then Inr 1 else if a = NUL then Inr 0 else strncmp s t n)"
| "strncmp _ _ _ = Inl Out_of_bounds"

definition entity_str :: "int \<Rightarrow> byte list" where
  "entity_str i = str (fst (cmark_entities ! nat i)) @ [NUL]"

function S_lookup :: "int \<Rightarrow> int \<Rightarrow> int \<Rightarrow> byte list \<Rightarrow> int \<Rightarrow> byte list option res" where
  "S_lookup i low hi s len =
     bindr (strncmp s (entity_str i) (nat len)) (\<lambda>cmp.
     bindr (if cmp = 0 then bindr (peek (entity_str i) len) (\<lambda>c. Inr (c = NUL)) else Inr False) (\<lambda>found.
     if found then Inr (Some (snd (cmark_entities ! nat i)))
     else if cmp \<le> 0 \<and> i > low
     then
       let j = i - (i - low) div 2;
           j = (if j = i then j - 1 else j)
       in S_lookup j low (i - 1) s len
     else if cmp > 0 \<and> i < hi
     then
       let j = i + (hi - i) div 2;
           j = (if j = i then j + 1 else j)
       in S_lookup j (i + 1) hi s len
     else Inr None))"
  by pat_completeness auto
termination
proof (relation "measure (\<lambda>(i, low, hi, s, len). nat (max hi i - min low i + 1))", goal_cases)
  case 1
  show ?case by simp
next
  case (2 i low hi s len cmp found j j')
  then have "low < i" "j = i - (i - low) div 2" "j' = (if j = i then j - 1 else j)" by simp_all
  moreover have "0 \<le> (i - low) div 2" "(i - low) div 2 \<le> i - low" using \<open>low < i\<close> by simp_all
  ultimately have "low \<le> j'" "j' \<le> i - 1" by (auto split: if_splits)
  then show ?case by (simp add: max_def min_def)
next
  case (3 i low hi s len cmp found j j')
  then have "i < hi" "j = i + (hi - i) div 2" "j' = (if j = i then j + 1 else j)" by simp_all
  moreover have "0 \<le> (hi - i) div 2" "(hi - i) div 2 \<le> hi - i" using \<open>i < hi\<close> by simp_all
  ultimately have "j' \<le> hi" "i + 1 \<le> j'" by (auto split: if_splits)
  then show ?case by (simp add: max_def min_def)
qed

declare S_lookup.simps [simp del]

definition S_lookup_entity :: "byte list \<Rightarrow> int \<Rightarrow> byte list option res" where
  "S_lookup_entity s len = S_lookup (CMARK_NUM_ENTITIES div 2) 0 (CMARK_NUM_ENTITIES - 1) s len"

section \<open>Unescaping\<close>

definition is_digit :: "byte \<Rightarrow> bool" where
  "is_digit c \<longleftrightarrow> DIGIT0 \<le> c \<and> c \<le> 0x39"

text \<open>\<open>strchr\<close> also finds the terminating NUL of the string it searches.\<close>

definition is_xdigit :: "byte \<Rightarrow> bool" where
  "is_xdigit c \<longleftrightarrow> c \<in> set (str ''0123456789ABCDEFabcdef'' @ [NUL])"

definition clamp :: "int \<Rightarrow> int" where
  "clamp codepoint = (if codepoint \<ge> 0x110000 then 0x110000 else codepoint)"

function dec_loop :: "byte list \<Rightarrow> int \<Rightarrow> int \<Rightarrow> int \<Rightarrow> (int \<times> int) res" where
  "dec_loop src sz i codepoint =
     (if i < sz
      then bindr (peek src i) (\<lambda>c.
           if is_digit c then dec_loop src sz (i + 1) (clamp (codepoint * 10 + (uint c - 0x30)))
           else Inr (i, codepoint))
      else Inr (i, codepoint))"
  by pat_completeness auto
termination
  by (relation "measure (\<lambda>(src, sz, i, codepoint). nat (sz - i))") auto

function hex_loop :: "byte list \<Rightarrow> int \<Rightarrow> int \<Rightarrow> int \<Rightarrow> (int \<times> int) res" where
  "hex_loop src sz i codepoint =
     (if i < sz
      then bindr (peek src i) (\<lambda>c.
           if is_xdigit c
           then hex_loop src sz (i + 1) (clamp (codepoint * 16 + (uint (c OR 32) mod 39 - 9)))
           else Inr (i, codepoint))
      else Inr (i, codepoint))"
  by pat_completeness auto
termination
  by (relation "measure (\<lambda>(src, sz, i, codepoint). nat (sz - i))") auto

function named_loop :: "cmark_strbuf \<Rightarrow> byte list \<Rightarrow> int \<Rightarrow> int \<Rightarrow> (int \<times> cmark_strbuf) res" where
  "named_loop ob src sz i =
     (if i < sz
      then bindr (peek src i) (\<lambda>c.
           if c = SPACE then Inr (0, ob)
           else if c = SEMICOLON
           then bindr (S_lookup_entity src i) (\<lambda>entity.
                case entity of
                  None \<Rightarrow> Inr (0, ob)
                | Some bs \<Rightarrow> bindr (cmark_strbuf_puts ob bs) (\<lambda>ob. Inr (i + 1, ob)))
           else named_loop ob src sz (i + 1))
      else Inr (0, ob))"
  by pat_completeness auto
termination
  by (relation "measure (\<lambda>(ob, src, sz, i). nat (sz - i))") auto

declare dec_loop.simps [simp del] hex_loop.simps [simp del] named_loop.simps [simp del]

text \<open>The end of the digits, the code point and the number of digits.\<close>

definition read_number :: "byte list \<Rightarrow> int \<Rightarrow> (int \<times> int \<times> int) res" where
  "read_number src sz =
     bindr (peek src 1) (\<lambda>c.
     if is_digit c then bindr (dec_loop src sz 1 0) (\<lambda>(i, codepoint). Inr (i, codepoint, i - 1))
     else if c = 0x78 \<or> c = 0x58
     then bindr (hex_loop src sz 2 0) (\<lambda>(i, codepoint). Inr (i, codepoint, i - 2))
     else Inr (0, 0, 0))"

definition numeric_ent :: "cmark_strbuf \<Rightarrow> byte list \<Rightarrow> int \<Rightarrow> (int \<times> cmark_strbuf) res" where
  "numeric_ent ob src sz =
     bindr (read_number src sz) (\<lambda>(i, codepoint, num_digits).
     bindr (if num_digits \<ge> 1 \<and> num_digits \<le> 8 \<and> i < sz then peek src i else Inr NUL) (\<lambda>c.
     if c = SEMICOLON
     then
       let codepoint =
         (if codepoint = 0 \<or> (codepoint \<ge> 0xD800 \<and> codepoint < 0xE000) \<or> codepoint \<ge> 0x110000
          then 0xFFFD else codepoint)
       in bindr (cmark_utf8proc_encode_char codepoint ob) (\<lambda>ob. Inr (i + 1, ob))
     else Inr (0, ob)))"

text \<open>The number of bytes consumed, and the buffer.\<close>

definition houdini_unescape_ent :: "cmark_strbuf \<Rightarrow> byte list \<Rightarrow> int \<Rightarrow> (int \<times> cmark_strbuf) res" where
  "houdini_unescape_ent ob src sz =
     bindr (if sz \<ge> 3 then bindr (peek src 0) (\<lambda>c. Inr (c = HASH)) else Inr False) (\<lambda>numeric.
     if numeric then numeric_ent ob src sz
     else
       let sz = (if sz > CMARK_ENTITY_MAX_LENGTH then CMARK_ENTITY_MAX_LENGTH else sz)
       in named_loop ob src sz CMARK_ENTITY_MIN_LENGTH)"

lemma dec_loop_mono: "dec_loop src sz i cp = Inr (j, cp') \<Longrightarrow> i \<le> j"
proof (induction src sz i cp rule: dec_loop.induct)
  case (1 src sz i cp)
  from "1.prems" show ?case
    by (auto simp: dec_loop.simps [of src sz i cp] split: if_splits dest!: "1.IH")
qed

lemma hex_loop_mono: "hex_loop src sz i cp = Inr (j, cp') \<Longrightarrow> i \<le> j"
proof (induction src sz i cp rule: hex_loop.induct)
  case (1 src sz i cp)
  from "1.prems" show ?case
    by (auto simp: hex_loop.simps [of src sz i cp] split: if_splits dest!: "1.IH")
qed

lemma named_loop_mono: "named_loop ob src sz i = Inr (j, ob') \<Longrightarrow> 0 \<le> i \<Longrightarrow> 0 \<le> j"
proof (induction ob src sz i rule: named_loop.induct)
  case (1 ob src sz i)
  from "1.prems" show ?case
    by (auto simp: named_loop.simps [of ob src sz i] split: if_splits option.splits dest!: "1.IH")
qed

lemma read_number_mono: "read_number src sz = Inr (i, cp, n) \<Longrightarrow> 0 \<le> i"
  by (fastforce simp: read_number_def split: if_splits dest: dec_loop_mono hex_loop_mono)

lemma numeric_ent_mono: "numeric_ent ob src sz = Inr (j, ob') \<Longrightarrow> 0 \<le> j"
  unfolding numeric_ent_def Let_def
  by (elim bindr_eq_InrE) (auto split: if_split_asm dest!: read_number_mono)

lemma unescape_ent_mono: "houdini_unescape_ent ob src sz = Inr (j, ob') \<Longrightarrow> 0 \<le> j"
  unfolding houdini_unescape_ent_def Let_def
  by (elim bindr_eq_InrE)
    (auto simp: CMARK_ENTITY_MIN_LENGTH_def split: if_split_asm dest!: numeric_ent_mono named_loop_mono)

function unescape_html_loop :: "cmark_strbuf \<Rightarrow> byte list \<Rightarrow> int \<Rightarrow> int \<Rightarrow> (bool \<times> cmark_strbuf) res" where
  "unescape_html_loop ob src sz i =
     (if i < sz
      then bindr (scan_while (\<lambda>c. c \<noteq> AMP) src i sz) (\<lambda>j.
           if j > i \<and> i = 0 \<and> j \<ge> sz then Inr (False, ob)
           else
             bindr (if j > i
                    then bindr (if i = 0 then cmark_strbuf_grow ob sz else Inr ob) (\<lambda>ob.
                         cmark_strbuf_put ob (drop (nat i) src) (j - i))
                    else Inr ob) (\<lambda>ob.
             if j \<ge> sz then Inr (True, ob)
             else
               bindr (houdini_unescape_ent ob (drop (nat (j + 1)) src) (sz - (j + 1))) (\<lambda>(ent, ob).
               bindr (if ent = 0 then cmark_strbuf_putc ob AMP else Inr ob) (\<lambda>ob.
               unescape_html_loop ob src sz (j + 1 + ent)))))
      else Inr (True, ob))"
  by pat_completeness auto
termination
  by (relation "measure (\<lambda>(ob, src, sz, i). nat (sz - i))")
    (auto dest!: scan_while_mono unescape_ent_mono)

declare unescape_html_loop.simps [simp del]

definition houdini_unescape_html :: "cmark_strbuf \<Rightarrow> byte list \<Rightarrow> int \<Rightarrow> (bool \<times> cmark_strbuf) res" where
  "houdini_unescape_html ob src sz = unescape_html_loop ob src sz 0"

definition houdini_unescape_html_f :: "cmark_strbuf \<Rightarrow> byte list \<Rightarrow> int \<Rightarrow> cmark_strbuf res" where
  "houdini_unescape_html_f ob src sz =
     bindr (houdini_unescape_html ob src sz) (\<lambda>(ok, ob).
     if \<not> ok then cmark_strbuf_put ob src sz else Inr ob)"

section \<open>The table of entities\<close>

definition entity_name :: "nat \<Rightarrow> byte list" where
  "entity_name k = str (fst (cmark_entities ! k))"

text \<open>The entities as a map from names to the bytes they stand for.\<close>

definition entity_value :: "byte list \<rightharpoonup> byte list" where
  "entity_value name =
     map_option (takeWhile (\<lambda>b. b \<noteq> NUL)) (map_of (map (\<lambda>e. (str (fst e), snd e)) cmark_entities) name)"

lemma entity_less: "j < k \<Longrightarrow> k < 2125 \<Longrightarrow> entity_name j < entity_name k"
  using entities_sorted by (auto simp: sorted_wrt_iff_nth_less length_entities entity_name_def)

lemma str_NUL: "NUL \<in> set (str s) \<longleftrightarrow> CHR 0x00 \<in> set s"
proof (induction s)
  case (Cons c s)
  have "(of_char c :: byte) = of_char (CHR 0x00) \<longleftrightarrow> c = CHR 0x00"
    by (simp only: word_unat_eq_iff unat_of_char of_char_eq_iff)
  with Cons show ?case by auto
qed simp

lemma entity_name_NUL: "k < 2125 \<Longrightarrow> NUL \<notin> set (entity_name k)"
proof -
  assume "k < 2125"
  then have "CHR 0x00 \<notin> set (fst (cmark_entities ! k))"
    using entities_ok by (simp add: list_all_iff length_entities entity_ok_def)
  then show ?thesis unfolding entity_name_def by (simp only: str_NUL not_False_eq_True)
qed

lemma strncmp_cases:
  "n \<le> length s \<Longrightarrow> NUL \<notin> set (take n s) \<Longrightarrow> NUL \<notin> set t \<Longrightarrow>
     \<exists>r. strncmp s (t @ [NUL]) n = Inr r \<and> (r = 0 \<longrightarrow> (\<exists>u. t = take n s @ u)) \<and>
       (r < 0 \<longrightarrow> take n s < t) \<and> (r > 0 \<longrightarrow> t < take n s)"
proof (induction n arbitrary: s t)
  case 0
  then show ?case by simp
next
  case (Suc n)
  then obtain a s' where s: "s = a # s'" by (cases s) auto
  show ?case
  proof (cases t)
    case Nil
    have "a \<noteq> 0" using Suc.prems s by auto
    then have "\<not> a < 0" "0 < a" by (auto simp: word_gt_0)
    then show ?thesis using s Nil by simp
  next
    case (Cons b t')
    obtain r where "strncmp s' (t' @ [NUL]) n = Inr r" "r = 0 \<longrightarrow> (\<exists>u. t' = take n s' @ u)"
      "r < 0 \<longrightarrow> take n s' < t'" "r > 0 \<longrightarrow> t' < take n s'"
      using Suc.IH [of s' t'] Suc.prems s Cons by auto
    moreover have "a \<noteq> 0" using Suc.prems s by auto
    ultimately show ?thesis using s Cons by auto
  qed
qed

lemma strict_prefix_less: "u \<noteq> [] \<Longrightarrow> (s :: byte list) < s @ u"
  by (induction s) (auto simp: neq_Nil_conv)

lemma lookup_compare:
  assumes "0 \<le> len" "nat len \<le> length s" "NUL \<notin> set (take (nat len) s)" "0 \<le> i" "i < 2125"
  defines "key \<equiv> take (nat len) s"
  shows "\<exists>cmp. strncmp s (entity_str i) (nat len) = Inr cmp \<and>
    (if cmp = 0 then bindr (peek (entity_str i) len) (\<lambda>c. Inr (c = NUL)) else Inr False) =
       Inr (key = entity_name (nat i)) \<and>
    (cmp \<le> 0 \<longrightarrow> key \<noteq> entity_name (nat i) \<longrightarrow> key < entity_name (nat i)) \<and>
    (cmp > 0 \<longrightarrow> entity_name (nat i) < key)"
proof -
  let ?t = "entity_name (nat i)"
  have t: "NUL \<notin> set ?t" using assms(4,5) by (intro entity_name_NUL) simp
  have e: "entity_str i = ?t @ [NUL]" by (simp add: entity_str_def entity_name_def)
  obtain r where r: "strncmp s (entity_str i) (nat len) = Inr r" "r = 0 \<longrightarrow> (\<exists>u. ?t = key @ u)"
    "r < 0 \<longrightarrow> key < ?t" "r > 0 \<longrightarrow> ?t < key"
    using strncmp_cases [OF assms(2,3) t] unfolding e key_def by blast
  have l: "length key = nat len" using assms(2) by (simp add: key_def)
  have found: "peek (entity_str i) len = Inr (if u = [] then NUL else hd u)" if "?t = key @ u" for u
    unfolding e that using l assms(1) by (cases u) (auto simp: peek_def nth_append)
  show ?thesis
  proof (intro exI conjI impI, rule r(1))
    show "(if r = 0 then bindr (peek (entity_str i) len) (\<lambda>c. Inr (c = NUL)) else Inr False) = Inr (key = ?t)"
    proof (cases "r = 0")
      case True
      then obtain u where u: "?t = key @ u" using r(2) by blast
      have "u \<noteq> [] \<longrightarrow> hd u \<noteq> NUL" using t u by (cases u) auto
      then show ?thesis using True found [OF u] u by simp
    next
      case False
      have "key \<noteq> ?t" using r(3,4) False by (cases "r < 0") auto
      then show ?thesis using False by simp
    qed
    show "key < ?t" if "r \<le> 0" "key \<noteq> ?t"
      using that r(2,3) strict_prefix_less by (cases "r = 0") fastforce+
    show "?t < key" if "r > 0" using that r(4) by blast
  qed
qed

lemma S_lookup_correct:
  assumes "0 \<le> len" "nat len \<le> length s" "NUL \<notin> set (take (nat len) s)"
  shows "0 \<le> low \<Longrightarrow> low \<le> i \<Longrightarrow> i \<le> hi \<Longrightarrow> hi < 2125 \<Longrightarrow>
    \<forall>k < 2125. entity_name k = take (nat len) s \<longrightarrow> low \<le> int k \<and> int k \<le> hi \<Longrightarrow>
    \<exists>r. S_lookup i low hi s len = Inr r \<and>
      (\<forall>k < 2125. entity_name k = take (nat len) s \<longrightarrow> r = Some (snd (cmark_entities ! k))) \<and>
      ((\<forall>k < 2125. entity_name k \<noteq> take (nat len) s) \<longrightarrow> r = None)"
  using assms
proof (induction i low hi s len rule: S_lookup.induct)
  case (1 i low hi s len)
  let ?key = "take (nat len) s"
  have i: "0 \<le> i" "i < 2125" "nat i < 2125" using "1.prems"(1-4) by linarith+
  obtain cmp where cmp: "strncmp s (entity_str i) (nat len) = Inr cmp"
    "(if cmp = 0 then bindr (peek (entity_str i) len) (\<lambda>c. Inr (c = NUL)) else Inr False) =
       Inr (?key = entity_name (nat i))"
    "cmp \<le> 0 \<Longrightarrow> ?key \<noteq> entity_name (nat i) \<Longrightarrow> ?key < entity_name (nat i)"
    "cmp > 0 \<Longrightarrow> entity_name (nat i) < ?key"
    using lookup_compare [OF "1.prems"(6-8) i(1,2)] by blast
  have below: "int k \<le> i - 1" if "?key < entity_name (nat i)" "k < 2125" "entity_name k = ?key" for k
    using that entity_less [of "nat i" k] i by (cases "k = nat i"; cases "nat i < k") auto
  have above: "i + 1 \<le> int k" if "entity_name (nat i) < ?key" "k < 2125" "entity_name k = ?key" for k
    using that entity_less [of k "nat i"] i by (cases "k = nat i"; cases "k < nat i") auto
  consider (found) "?key = entity_name (nat i)"
    | (left) "?key \<noteq> entity_name (nat i)" "cmp \<le> 0" "i > low" "?key < entity_name (nat i)"
    | (right) "?key \<noteq> entity_name (nat i)" "cmp > 0" "i < hi" "entity_name (nat i) < ?key"
    | (none) "?key \<noteq> entity_name (nat i)" "\<not> (cmp \<le> 0 \<and> i > low)" "\<not> (cmp > 0 \<and> i < hi)"
    using cmp(3,4) by linarith
  then show ?case
  proof cases
    case found
    have "k = nat i" if "k < 2125" "entity_name k = entity_name (nat i)" for k
      using that entity_less [of k "nat i"] entity_less [of "nat i" k] i(3) by (cases k "nat i" rule: linorder_cases) auto
    then show ?thesis
      using found i cmp(1,2) by (subst S_lookup.simps) auto
  next
    case left
    define j where "j = (let j = i - (i - low) div 2 in if j = i then j - 1 else j)"
    have j: "low \<le> j" "j \<le> i - 1" using left(3) by (auto simp: j_def Let_def)
    have "S_lookup i low hi s len = S_lookup j low (i - 1) s len"
      using left cmp(1,2) by (subst S_lookup.simps) (simp add: j_def Let_def)
    moreover have "\<forall>k < 2125. entity_name k = ?key \<longrightarrow> low \<le> int k \<and> int k \<le> i - 1"
      using below [OF left(4)] "1.prems"(5) by blast
    ultimately show ?thesis
      using "1.IH"(1) [OF cmp(1) cmp(2) _ _ refl refl] left j "1.prems" j_def by (simp add: Let_def)
  next
    case right
    define j where "j = (let j = i + (hi - i) div 2 in if j = i then j + 1 else j)"
    have j: "i + 1 \<le> j" "j \<le> hi" using right(3) by (auto simp: j_def Let_def)
    have "S_lookup i low hi s len = S_lookup j (i + 1) hi s len"
      using right cmp(1,2) by (subst S_lookup.simps) (simp add: j_def Let_def)
    moreover have "\<forall>k < 2125. entity_name k = ?key \<longrightarrow> i + 1 \<le> int k \<and> int k \<le> hi"
      using above [OF right(4)] "1.prems"(5) by blast
    ultimately show ?thesis
      using "1.IH"(2) [OF cmp(1) cmp(2) _ _ _ refl refl] right j "1.prems" j_def by (simp add: Let_def)
  next
    case none
    have "entity_name k \<noteq> ?key" if "k < 2125" for k
    proof
      assume k: "entity_name k = ?key"
      then have "low \<le> int k" "int k \<le> hi" using "1.prems"(5) that by auto
      then show False
        using none below [OF cmp(3), of k] above [OF cmp(4), of k] that k by (cases "cmp \<le> 0") auto
    qed
    then show ?thesis
      using none cmp(1,2) by (subst S_lookup.simps) (auto simp: not_le)
  qed
qed

lemma map_of_nth_key:
  assumes "distinct (map fst kvs)"
  shows "map_of kvs k = r \<longleftrightarrow>
    (\<forall>n < length kvs. fst (kvs ! n) = k \<longrightarrow> r = Some (snd (kvs ! n))) \<and>
    ((\<forall>n < length kvs. fst (kvs ! n) \<noteq> k) \<longrightarrow> r = None)"
proof (cases "\<exists>n < length kvs. fst (kvs ! n) = k")
  case True
  then obtain n where n: "n < length kvs" "fst (kvs ! n) = k" by blast
  then have "map_of kvs k = Some (snd (kvs ! n))"
    using assms map_of_is_SomeI [OF assms, of k] nth_mem [OF n(1)] by (metis prod.collapse)
  moreover have "m = n" if "m < length kvs" "fst (kvs ! m) = k" for m
    using assms that n by (metis distinct_conv_nth length_map nth_map)
  ultimately show ?thesis using n by (intro iffI conjI allI impI) blast+
next
  case False
  then have "map_of kvs k = None" by (metis map_of_eq_None_iff image_iff in_set_conv_nth)
  then show ?thesis using False by auto
qed

lemma lookup_entity:
  assumes "0 \<le> len" "nat len \<le> length s" "NUL \<notin> set (take (nat len) s)"
  shows "\<exists>r. S_lookup_entity s len = Inr r \<and>
    map_option (takeWhile (\<lambda>b. b \<noteq> NUL)) r = entity_value (take (nat len) s) \<and> (\<forall>bs. r = Some bs \<longrightarrow> NUL \<in> set bs)"
proof -
  let ?kvs = "map (\<lambda>e. (str (fst e), snd e)) cmark_entities"
  obtain r where r: "S_lookup_entity s len = Inr r"
      "\<forall>k < 2125. entity_name k = take (nat len) s \<longrightarrow> r = Some (snd (cmark_entities ! k))"
      "(\<forall>k < 2125. entity_name k \<noteq> take (nat len) s) \<longrightarrow> r = None"
    using S_lookup_correct [OF assms, of 0 1062 2124]
    by (auto simp: S_lookup_entity_def CMARK_NUM_ENTITIES_def)
  have "sorted_wrt (<) (map fst ?kvs)" using entities_sorted by (simp add: comp_def)
  then have "distinct (map fst ?kvs)" using strict_sorted_iff by blast
  then have m: "map_of ?kvs (take (nat len) s) = r"
    using r(2,3) by (subst map_of_nth_key) (auto simp: length_entities entity_name_def)
  have "NUL \<in> set bs" if "r = Some bs" for bs
  proof -
    have "(take (nat len) s, bs) \<in> set ?kvs" by (rule map_of_SomeD) (use m that in simp)
    then obtain e where "e \<in> set cmark_entities" "bs = snd e" by auto
    then show ?thesis using entities_ok by (simp add: list_all_iff entity_ok_def)
  qed
  then show ?thesis using r(1) m by (auto simp: entity_value_def)
qed

section \<open>Escaping, on lists\<close>

lemma scan_while_eq:
  "scan_while P (pre @ s @ post) (int (length pre)) (int (length pre + length s)) =
     Inr (int (length pre + length (takeWhile P s)))"
proof (induction s arbitrary: pre)
  case Nil
  then show ?case by (subst scan_while.simps) simp
next
  case (Cons c s)
  have "scan_while P (pre @ (c # s) @ post) (int (length pre) + 1) (int (length pre + length (c # s))) =
      Inr (int (length (pre @ [c]) + length (takeWhile P s)))"
    using Cons [of "pre @ [c]"] by (simp add: algebra_simps)
  then show ?case by (subst scan_while.simps) (simp add: algebra_simps)
qed

text \<open>The loop both escaping functions are: copy a run of safe bytes, replace the next one.\<close>

lemma escape_run:
  fixes L :: "cmark_strbuf \<Rightarrow> int \<Rightarrow> cmark_strbuf res"
  assumes L: "\<And>ob i. L ob i =
      (if i < sz
       then bindr (scan_while safe src i sz) (\<lambda>j.
            bindr (if j > i then cmark_strbuf_put ob (drop (nat i) src) (j - i) else Inr ob) (\<lambda>ob.
            if j \<ge> sz then Inr ob
            else bindr (peek src j) (\<lambda>c. bindr (esc c ob) (\<lambda>ob. L ob (j + 1)))))
       else Inr ob)"
    and esc: "\<And>c. \<not> safe c \<Longrightarrow> appends (esc c) (enc c)"
    and enc: "\<And>c. safe c \<Longrightarrow> enc c = [c]"
  shows "src = pre @ s @ post \<Longrightarrow> sz = int (length pre + length s) \<Longrightarrow>
    appends (\<lambda>ob. L ob (int (length pre))) (concat (map enc s))"
proof (induction "length s" arbitrary: pre s rule: less_induct)
  case less
  let ?i = "int (length pre)" and ?run = "takeWhile safe s"
  let ?j = "int (length pre + length ?run)"
  have scan: "scan_while safe src ?i sz = Inr ?j"
    using scan_while_eq [of safe pre s post] less.prems by simp
  have put: "appends (\<lambda>ob. if ?j > ?i then cmark_strbuf_put ob (drop (nat ?i) src) (?j - ?i) else Inr ob) ?run"
  proof (cases "?run = []")
    case True
    then show ?thesis using app_skip by simp
  next
    case False
    have "take (length ?run) s = ?run" by (metis append_eq_conv_conj takeWhile_dropWhile_id)
    then have "cmark_strbuf_put ob (drop (nat ?i) src) (?j - ?i) = put_bytes ob ?run" for ob
      using less.prems length_takeWhile_le [of safe s] by (subst put_drop_take) simp_all
    then show ?thesis using False app_put [of ?run] by simp
  qed
  have run: "concat (map enc ?run) = ?run"
    using enc by (induction s) auto
  have split: "s = ?run @ dropWhile safe s" by simp
  show ?case
  proof (cases "dropWhile safe s")
    case Nil
    then have rs: "?run = s" using split by simp
    have "L ob ?i = bindr (if ?j > ?i then cmark_strbuf_put ob (drop (nat ?i) src) (?j - ?i) else Inr ob) Inr" for ob
      using scan rs less.prems(2) by (simp add: L [of _ ?i] del: takeWhile_eq_all_conv)
    then show ?thesis
      using app_seq [OF put app_skip] run rs by simp
  next
    case (Cons c rest)
    have s: "s = ?run @ c # rest" using split Cons by simp
    have c: "\<not> safe c" using Cons by (metis hd_dropWhile list.sel(1) list.distinct(1))
    have l: "length s = Suc (length ?run + length rest)" using arg_cong [OF s, of length] by simp
    have peek: "peek src ?j = Inr c"
      using less.prems(1) peek_at [of "pre @ ?run" c "rest @ post"] s
      by (metis append.assoc append_Cons length_append)
    have "appends (\<lambda>ob. L ob (int (length (pre @ ?run @ [c])))) (concat (map enc rest))"
    proof (rule less.hyps)
      show "src = (pre @ ?run @ [c]) @ rest @ post" using less.prems(1) s by (metis append.assoc append_Cons append_Nil)
      show "sz = int (length (pre @ ?run @ [c]) + length rest)" using less.prems(2) l by simp
    qed (use l in simp)
    then have "appends (\<lambda>ob. L ob (?j + 1)) (concat (map enc rest))" by (simp add: algebra_simps)
    note pieces = app_seq [OF put app_seq [OF esc [OF c] this]]
    have "L ob ?i = bindr (if ?j > ?i then cmark_strbuf_put ob (drop (nat ?i) src) (?j - ?i) else Inr ob)
        (\<lambda>ob. bindr (esc c ob) (\<lambda>ob. L ob (?j + 1)))" for ob
      using scan peek less.prems(2) l by (simp add: L [of _ ?i])
    then have "appends (\<lambda>ob. L ob ?i) (?run @ enc c @ concat (map enc rest))"
      using pieces by simp
    moreover have "concat (map enc s) = ?run @ enc c @ concat (map enc rest)"
      by (subst s) (simp only: map_append concat_append run list.map concat.simps)
    ultimately show ?thesis by simp
  qed
qed

subsection \<open>HTML\<close>

definition html_enc :: "bool \<Rightarrow> byte \<Rightarrow> byte list" where
  "html_enc secure c =
     (if c = DQUOTE then str ''&quot;'' else if c = AMP then str ''&amp;''
      else if c = LESS_THAN then str ''&lt;'' else if c = GREATER_THAN then str ''&gt;''
      else if secure \<and> c = SQUOTE then str ''&#39;'' else if secure \<and> c = SLASH then str ''&#47;''
      else [c])"

definition html_escape :: "bool \<Rightarrow> byte list \<Rightarrow> byte list" where
  "html_escape secure s = concat (map (html_enc secure) s)"

lemma html_esc_cases:
  "html_esc c = (if c = DQUOTE then 1 else if c = AMP then 2 else if c = SQUOTE then 3
     else if c = SLASH then 4 else if c = LESS_THAN then 5 else if c = GREATER_THAN then 6 else 0)"
proof -
  have "HTML_ESCAPE_TABLE = map (\<lambda>n. if n = 34 then 1 else if n = 38 then 2 else if n = 39 then 3
      else if n = 47 then 4 else if n = 60 then 5 else if n = 62 then 6 else 0) [0..<256]"
    by code_simp
  from table_lookup [OF this, of c] show ?thesis
    by (simp add: html_esc_def word_unat_eq_iff)
qed

lemma puts_str: "NUL \<notin> set bs \<Longrightarrow> appends (\<lambda>ob. cmark_strbuf_puts ob (bs @ [NUL])) bs"
  by (rule app_puts)

lemma escape_html_appends:
  assumes "0 \<le> sz" "sz \<le> int (length src)"
  shows "appends (\<lambda>ob. houdini_escape_html0 ob src sz secure) (html_escape secure (take (nat sz) src))"
proof -
  let ?esc = "\<lambda>c ob. if (c = SLASH \<or> c = SQUOTE) \<and> \<not> secure then cmark_strbuf_putc ob c
     else cmark_strbuf_puts ob (HTML_ESCAPES ! html_esc c @ [NUL])"
  have "appends (\<lambda>ob. escape_html_loop ob src (int (length ([] :: byte list))) sz secure)
      (concat (map (html_enc secure) (take (nat sz) src)))"
  proof (rule escape_run [where esc = ?esc and safe = "\<lambda>c. html_esc c = 0"])
    show "src = [] @ take (nat sz) src @ drop (nat sz) src" "sz = int (length ([] :: byte list) + length (take (nat sz) src))"
      using assms by simp_all
    show "html_esc c = 0 \<Longrightarrow> html_enc secure c = [c]" for c
      by (auto simp: html_esc_cases html_enc_def split: if_splits)
    show "appends (?esc c) (html_enc secure c)" if "html_esc c \<noteq> 0" for c
    proof (cases "(c = SLASH \<or> c = SQUOTE) \<and> \<not> secure")
      case True
      then have "html_enc secure c = [c]" by (auto simp: html_enc_def)
      then show ?thesis using True app_putc [of c] by simp
    next
      case False
      then have e: "HTML_ESCAPES ! html_esc c = html_enc secure c" "NUL \<notin> set (html_enc secure c)"
        using that by (auto simp: html_esc_cases html_enc_def HTML_ESCAPES_def split: if_splits)
      then show ?thesis unfolding if_not_P [OF False] e(1) by (intro puts_str)
    qed
  qed (rule escape_html_loop.simps)
  then show ?thesis by (simp add: houdini_escape_html0_def html_escape_def)
qed

subsection \<open>URLs\<close>

definition hex_digit :: "nat \<Rightarrow> byte" where
  "hex_digit n = (if n < 10 then 0x30 + of_nat n else 0x37 + of_nat n)"

definition href_enc :: "byte \<Rightarrow> byte list" where
  "href_enc c =
     (if c = AMP then str ''&amp;'' else if c = SQUOTE then str ''&#x27;''
      else if DIGIT0 \<le> c \<and> c \<le> 0x39 \<or> 0x41 \<le> c \<and> c \<le> 0x5A \<or> 0x61 \<le> c \<and> c \<le> 0x7A \<or>
        c \<in> set (str ''-_.+!*(),%#@?=;:/$~'') then [c]
      else [PERCENT, hex_digit (unat c div 16), hex_digit (unat c mod 16)])"

definition href_escape :: "byte list \<Rightarrow> byte list" where
  "href_escape s = concat (map href_enc s)"

lemma href_safe_eq:
  "href_safe c \<longleftrightarrow> DIGIT0 \<le> c \<and> c \<le> 0x39 \<or> 0x41 \<le> c \<and> c \<le> 0x5A \<or> 0x61 \<le> c \<and> c \<le> 0x7A \<or>
     c \<in> set (str ''-_.+!*(),%#@?=;:/$~'')"
proof -
  have "HREF_SAFE = map (\<lambda>n. if n = 33 \<or> 35 \<le> n \<and> n \<le> 37 \<or> 40 \<le> n \<and> n \<le> 59 \<or> n = 61 \<or>
      63 \<le> n \<and> n \<le> 90 \<or> n = 95 \<or> 97 \<le> n \<and> n \<le> 122 \<or> n = 126 then 1 else 0) [0..<256]"
    by code_simp
  from table_lookup [OF this, of c] show ?thesis
    by (simp add: href_safe_def word_le_nat_alt word_unat_eq_iff) presburger
qed

lemma hex_chars_digit: "n < 16 \<Longrightarrow> hex_chars ! n = hex_digit n"
proof -
  have "list_all (\<lambda>n. hex_chars ! n = hex_digit n) [0..<16]" by code_simp
  then show "n < 16 \<Longrightarrow> hex_chars ! n = hex_digit n" by (simp only: list_all_iff set_upt) simp
qed

lemma hex_str_eq: "hex_str c = [PERCENT, hex_digit (unat c div 16), hex_digit (unat c mod 16)]"
proof -
  have "unat (c AND 0xF) = unat c mod 16"
    using take_bit_eq_mask [of 4 "unat c"] by (simp add: unsigned_and_eq take_bit_eq_mod mask_eq_exp_minus_1)
  moreover have "unat (drop_bit 4 c) = unat c div 16"
    by (simp only: unat_drop_bit_eq drop_bit_eq_div [of 4 "unat c"]) simp
  then have "unat (drop_bit 4 c AND 0xF) = unat c div 16"
    using take_bit_eq_mask [of 4 "unat c div 16"] unat_byte_less [of c]
    by (simp only: unsigned_and_eq) (simp add: take_bit_eq_mod mask_eq_exp_minus_1)
  moreover have "unat c div 16 < 16"
    using unat_byte_less [of c] by (intro less_mult_imp_div_less) simp
  ultimately show ?thesis by (simp add: hex_str_def hex_chars_digit)
qed

lemma href_enc_cases:
  "c = AMP \<or> c = SQUOTE \<Longrightarrow> \<not> href_safe c"
  "href_safe c \<Longrightarrow> href_enc c = [c]"
  "\<not> href_safe c \<Longrightarrow> c \<noteq> AMP \<Longrightarrow> c \<noteq> SQUOTE \<Longrightarrow> href_enc c = hex_str c"
  unfolding href_safe_eq href_enc_def hex_str_eq by auto

lemma escape_href_appends:
  assumes "0 \<le> sz" "sz \<le> int (length src)"
  shows "appends (\<lambda>ob. houdini_escape_href ob src sz) (href_escape (take (nat sz) src))"
proof -
  let ?esc = "\<lambda>c ob. if c = AMP then cmark_strbuf_puts ob (str ''&amp;'' @ [NUL])
                    else if c = SQUOTE then cmark_strbuf_puts ob (str ''&#x27;'' @ [NUL])
                    else cmark_strbuf_put ob (hex_str c) 3"
  have "appends (\<lambda>ob. escape_href_loop ob src (int (length ([] :: byte list))) sz)
      (concat (map href_enc (take (nat sz) src)))"
  proof (rule escape_run [where esc = ?esc and safe = href_safe])
    show "src = [] @ take (nat sz) src @ drop (nat sz) src" "sz = int (length ([] :: byte list) + length (take (nat sz) src))"
      using assms by simp_all
    show "href_safe c \<Longrightarrow> href_enc c = [c]" for c
      by (rule href_enc_cases(2))
    show "appends (?esc c) (href_enc c)" if "\<not> href_safe c" for c
    proof -
      consider "c = AMP" | "c = SQUOTE" | "c \<noteq> AMP" "c \<noteq> SQUOTE" by blast
      then show ?thesis
      proof cases
        case 1
        then show ?thesis using puts_str [of "str ''&amp;''"] by (simp add: href_enc_def)
      next
        case 2
        then show ?thesis using puts_str [of "str ''&#x27;''"] by (simp add: href_enc_def)
      next
        case 3
        then have "href_enc c = hex_str c" using href_enc_cases(3) that by simp
        then show ?thesis using 3 app_put [of "hex_str c"] by (simp add: hex_str_def)
      qed
    qed
  qed (rule escape_href_loop.simps)
  then show ?thesis by (simp add: houdini_escape_href_def href_escape_def)
qed

section \<open>Character references, on lists\<close>

definition real_xdigit :: "byte \<Rightarrow> bool" where
  "real_xdigit c \<longleftrightarrow> is_digit c \<or> 0x41 \<le> c \<and> c \<le> 0x46 \<or> 0x61 \<le> c \<and> c \<le> 0x66"

definition dec_value :: "byte list \<Rightarrow> int" where
  "dec_value = foldl (\<lambda>v c. v * 10 + (uint c - 0x30)) 0"

definition xdigit_value :: "byte \<Rightarrow> int" where
  "xdigit_value c = uint c - (if is_digit c then 0x30 else if c \<le> 0x46 then 0x37 else 0x57)"

definition hex_value :: "byte list \<Rightarrow> int" where
  "hex_value = foldl (\<lambda>v c. v * 16 + xdigit_value c) 0"

definition code_point :: "int \<Rightarrow> int" where
  "code_point v = (if v = 0 \<or> 0xD800 \<le> v \<and> v < 0xE000 \<or> 0x110000 \<le> v then 0xFFFD else v)"

text \<open>
  The character reference at the start of the text behind an ampersand: its length and the bytes it
  stands for. The limits are the numbers of digits a decimal and a hexadecimal reference may have:
  7 and 6 in \<open>test/spec.txt\<close> (section on entity and numeric character references), 8 and 8 in the code.
\<close>

definition numeric_ref :: "nat \<Rightarrow> nat \<Rightarrow> nat \<Rightarrow> int \<Rightarrow> byte list \<Rightarrow> (nat \<times> byte list) option" where
  "numeric_ref limit start n v s =
     (if 1 \<le> n \<and> n \<le> limit \<and> start + n < length s \<and> s ! (start + n) = SEMICOLON
      then map_option (Pair (start + n + 1)) (encode_bytes (code_point v)) else None)"

definition named_ref :: "byte list \<Rightarrow> (nat \<times> byte list) option" where
  "named_ref s =
     (let n = 2 + length (takeWhile (\<lambda>c. c \<noteq> SPACE \<and> c \<noteq> SEMICOLON) (drop 2 s))
      in if n < length s \<and> s ! n = SEMICOLON
         then map_option (Pair (n + 1)) (entity_value (take n s)) else None)"

definition ref_upto :: "nat \<Rightarrow> nat \<Rightarrow> byte list \<Rightarrow> (nat \<times> byte list) option" where
  "ref_upto decs hexs s =
     (if 3 \<le> length s \<and> hd s = HASH
      then if is_digit (s ! 1)
           then let ds = takeWhile is_digit (drop 1 s) in numeric_ref decs 1 (length ds) (dec_value ds) s
           else if s ! 1 = 0x78 \<or> s ! 1 = 0x58
           then let ds = takeWhile real_xdigit (drop 2 s) in numeric_ref hexs 2 (length ds) (hex_value ds) s
           else None
      else named_ref (take 32 s))"

function replace_refs :: "(byte list \<Rightarrow> (nat \<times> byte list) option) \<Rightarrow> byte list \<Rightarrow> byte list" where
  "replace_refs ref [] = []"
| "replace_refs ref (c # s) =
     (if c \<noteq> AMP then c # replace_refs ref s
      else case ref s of
             None \<Rightarrow> AMP # replace_refs ref s
           | Some (n, bs) \<Rightarrow> bs @ replace_refs ref (drop n s))"
  by pat_completeness auto
termination
  by (relation "measure (length \<circ> snd)") auto

declare replace_refs.simps(2) [simp del]

text \<open>The references the code replaces, and the text with those of the specification replaced.\<close>

definition char_ref :: "byte list \<Rightarrow> (nat \<times> byte list) option" where
  "char_ref = ref_upto 8 8"

definition html_unescape :: "byte list \<Rightarrow> byte list" where
  "html_unescape = replace_refs char_ref"

definition spec_unescape :: "byte list \<Rightarrow> byte list" where
  "spec_unescape = replace_refs (ref_upto 7 6)"

text \<open>No ampersand of the text is followed by a number longer than the specification has it.\<close>

definition short_ref :: "byte list \<Rightarrow> bool" where
  "short_ref s \<longleftrightarrow> 3 \<le> length s \<and> hd s = HASH \<longrightarrow>
     length (takeWhile is_digit (drop 1 s)) \<le> 7 \<and>
     (s ! 1 = 0x78 \<or> s ! 1 = 0x58 \<longrightarrow> length (takeWhile real_xdigit (drop 2 s)) \<le> 6)"

fun short_refs :: "byte list \<Rightarrow> bool" where
  "short_refs [] = True"
| "short_refs (c # s) = ((c = AMP \<longrightarrow> short_ref s) \<and> short_refs s)"

lemma html_unescape_Nil [simp]: "html_unescape [] = []"
  by (simp add: html_unescape_def)

lemma html_unescape_Cons:
  "html_unescape (c # s) =
     (if c \<noteq> AMP then c # html_unescape s
      else case char_ref s of
             None \<Rightarrow> AMP # html_unescape s
           | Some (n, bs) \<Rightarrow> bs @ html_unescape (drop n s))"
  by (simp add: html_unescape_def replace_refs.simps(2) split: option.split)

lemma short_refs_drop: "short_refs s \<Longrightarrow> short_refs (drop n s)"
  by (induction s arbitrary: n) (auto simp: drop_Cons split: nat.split)

lemma short_ref_agrees: "short_ref s \<Longrightarrow> char_ref s = ref_upto 7 6 s"
  by (auto simp: short_ref_def char_ref_def ref_upto_def numeric_ref_def Let_def)

lemma short_unescape: "short_refs s \<Longrightarrow> html_unescape s = spec_unescape s"
proof (induction "length s" arbitrary: s rule: less_induct)
  case less
  show ?case
  proof (cases s)
    case (Cons c u)
    have drops: "html_unescape (drop n u) = spec_unescape (drop n u)" for n
      using less.prems Cons short_refs_drop [of u n] by (intro less.hyps) simp_all
    show ?thesis
    proof (cases "c = AMP")
      case True
      then have "char_ref u = ref_upto 7 6 u" using less.prems Cons short_ref_agrees by simp
      then show ?thesis
        using True Cons drops drops [of 0] by (simp add: html_unescape_Cons spec_unescape_def replace_refs.simps(2) split: option.split)
    next
      case False
      then show ?thesis
        using Cons drops [of 0] by (simp add: html_unescape_Cons spec_unescape_def replace_refs.simps(2))
    qed
  qed (simp add: spec_unescape_def)
qed

lemma xdigit_all:
  "is_xdigit c \<longleftrightarrow> real_xdigit c \<or> c = NUL"
  "real_xdigit c \<Longrightarrow> uint (c OR 32) mod 39 - 9 = xdigit_value c \<and> 0 \<le> xdigit_value c"
proof -
  show x: "is_xdigit c \<longleftrightarrow> real_xdigit c \<or> c = NUL"
    by (simp add: is_xdigit_def real_xdigit_def is_digit_def word_le_nat_alt word_unat_eq_iff) presburger
  assume "real_xdigit c"
  then have "is_xdigit c" "c \<noteq> NUL" using x by (auto simp: real_xdigit_def is_digit_def)
  then show "uint (c OR 32) mod 39 - 9 = xdigit_value c \<and> 0 \<le> xdigit_value c"
    by (auto simp: is_xdigit_def xdigit_value_def is_digit_def)
qed

lemma clamp_mult: "0 \<le> v \<Longrightarrow> 0 \<le> d \<Longrightarrow> 1 \<le> k \<Longrightarrow> clamp (clamp v * k + d) = clamp (v * k + d)"
proof (cases "v < 0x110000")
  case False
  assume "0 \<le> v" "0 \<le> d" "1 \<le> k"
  then have "0x110000 * 1 \<le> 0x110000 * k" "0x110000 * 1 \<le> v * k" using False by (intro mult_mono; simp)+
  with False \<open>0 \<le> d\<close> show ?thesis by (simp add: clamp_def)
qed (simp add: clamp_def)

lemma clamp_0: "clamp 0 = 0"
  by (simp add: clamp_def)

lemma code_point_clamp: "0 \<le> v \<Longrightarrow> code_point (clamp v) = code_point v"
  by (simp add: code_point_def clamp_def)

lemma digit_value: "is_digit c \<Longrightarrow> 0 \<le> uint c - 0x30"
  by (simp add: is_digit_def word_le_def)

lemma dec_loop_eq:
  assumes "0 \<le> v"
  shows "dec_loop (pre @ s @ post) (int (length pre + length s)) (int (length pre)) (clamp v) =
      Inr (int (length pre + length (takeWhile is_digit s)),
        clamp (foldl (\<lambda>v c. v * 10 + (uint c - 0x30)) v (takeWhile is_digit s)))"
  using assms
proof (induction s arbitrary: pre v)
  case Nil
  then show ?case by (subst dec_loop.simps) simp
next
  case (Cons c s)
  have "dec_loop (pre @ (c # s) @ post) (int (length pre + length (c # s))) (int (length pre) + 1)
      (clamp (v * 10 + (uint c - 0x30))) =
    Inr (int (length (pre @ [c]) + length (takeWhile is_digit s)),
        clamp (foldl (\<lambda>v c. v * 10 + (uint c - 0x30)) (v * 10 + (uint c - 0x30)) (takeWhile is_digit s)))"
    if "is_digit c"
    using Cons.IH [of "v * 10 + (uint c - 0x30)" "pre @ [c]"] Cons.prems digit_value [OF that]
    by (simp add: algebra_simps)
  then show ?case
    using clamp_mult [OF Cons.prems digit_value, of c 10]
    by (subst dec_loop.simps) (simp add: algebra_simps)
qed

lemma hex_loop_eq:
  assumes "0 \<le> v" "NUL \<notin> set s"
  shows "hex_loop (pre @ s @ post) (int (length pre + length s)) (int (length pre)) (clamp v) =
      Inr (int (length pre + length (takeWhile real_xdigit s)),
        clamp (foldl (\<lambda>v c. v * 16 + xdigit_value c) v (takeWhile real_xdigit s)))"
  using assms
proof (induction s arbitrary: pre v)
  case Nil
  then show ?case by (subst hex_loop.simps) simp
next
  case (Cons c s)
  have x: "is_xdigit c = real_xdigit c" using xdigit_all(1) [of c] Cons.prems(2) by auto
  have "hex_loop (pre @ (c # s) @ post) (int (length pre + length (c # s))) (int (length pre) + 1)
      (clamp (v * 16 + xdigit_value c)) =
    Inr (int (length (pre @ [c]) + length (takeWhile real_xdigit s)),
        clamp (foldl (\<lambda>v c. v * 16 + xdigit_value c) (v * 16 + xdigit_value c) (takeWhile real_xdigit s)))"
    if "real_xdigit c"
    using Cons.IH [of "v * 16 + xdigit_value c" "pre @ [c]"] Cons.prems xdigit_all(2) [OF that]
    by (simp add: algebra_simps)
  then show ?case
    using clamp_mult [OF Cons.prems(1), of "xdigit_value c" 16] xdigit_all(2) [of c] x
    by (subst hex_loop.simps) (simp add: algebra_simps)
qed

lemma foldl_nonneg:
  fixes f :: "byte \<Rightarrow> int"
  assumes "\<And>c. c \<in> set cs \<Longrightarrow> 0 \<le> f c" "0 \<le> k" "0 \<le> v"
  shows "0 \<le> foldl (\<lambda>v c. v * k + f c) v cs"
  using assms by (induction cs arbitrary: v) auto

lemma values_nonneg: "0 \<le> dec_value (takeWhile is_digit s)" "0 \<le> hex_value (takeWhile real_xdigit s)"
proof -
  show "0 \<le> dec_value (takeWhile is_digit s)"
    unfolding dec_value_def using digit_value set_takeWhileD by (intro foldl_nonneg) fastforce+
  show "0 \<le> hex_value (takeWhile real_xdigit s)"
    unfolding hex_value_def using xdigit_all(2) set_takeWhileD by (intro foldl_nonneg) fastforce+
qed

lemma encode_total: "0 \<le> v \<Longrightarrow> \<exists>bs. encode_bytes (code_point v) = Some bs"
  by (simp add: encode_bytes_def code_point_def)

text \<open>Running a reference: nothing happens, or the bytes are appended.\<close>

definition runs_ref ::
  "(cmark_strbuf \<Rightarrow> (int \<times> cmark_strbuf) res) \<Rightarrow> (nat \<times> byte list) option \<Rightarrow> bool" where
  "runs_ref f r \<longleftrightarrow>
     (case r of
        None \<Rightarrow> \<forall>ob. f ob = Inr (0, ob)
      | Some (n, bs) \<Rightarrow> 0 < n \<and> (\<exists>g. appends g bs \<and> (\<forall>ob. f ob = bindr (g ob) (\<lambda>ob. Inr (int n, ob)))))"

lemma numeric_ent_runs:
  assumes "read_number src sz = Inr (int (start + n), clamp v, int n)" "src = s @ post" "sz = int (length s)"
    "0 \<le> v"
  shows "runs_ref (\<lambda>ob. numeric_ent ob src sz) (numeric_ref 8 start n v s)"
proof (cases "1 \<le> n \<and> n \<le> 8 \<and> start + n < length s \<and> s ! (start + n) = SEMICOLON")
  case True
  then have p: "peek src (int (start + n)) = Inr SEMICOLON"
    using assms(2) by (simp add: peek_def nth_append del: of_nat_add)
  obtain bs where bs: "encode_bytes (code_point v) = Some bs" using encode_total [OF assms(4)] by blast
  have nn: "0 \<le> code_point v" using assms(4) by (simp add: code_point_def)
  have "numeric_ent ob src sz = bindr (cmark_utf8proc_encode_char (code_point (clamp v)) ob) (\<lambda>ob. Inr (int (start + n + 1), ob))" for ob
    using True assms(1,3) p by (simp add: numeric_ent_def Let_def code_point_def add.commute)
  then have "numeric_ent ob src sz = bindr (put_bytes ob bs) (\<lambda>ob. Inr (int (start + n + 1), ob))" for ob
    using bs nn by (simp add: cmark_utf8proc_encode_char_def code_point_clamp [OF assms(4)])
  then show ?thesis
    using True bs app_put [of bs] by (auto simp: runs_ref_def numeric_ref_def)
next
  case False
  have "bindr (if int n \<ge> 1 \<and> int n \<le> 8 \<and> int (start + n) < sz then peek src (int (start + n)) else Inr NUL)
      (\<lambda>c. Inr (c = SEMICOLON)) = Inr False"
    using False assms(2,3) by (auto simp: peek_def nth_append simp del: of_nat_add)
  then obtain c where "(if int n \<ge> 1 \<and> int n \<le> 8 \<and> int (start + n) < sz then peek src (int (start + n)) else Inr NUL) = Inr c"
    "c \<noteq> SEMICOLON" by (auto simp del: of_nat_add)
  then show ?thesis
    using False assms(1) by (auto simp: runs_ref_def numeric_ref_def numeric_ent_def simp del: of_nat_add)
qed

lemma char_ref_numeric:
  assumes "src = s @ post" "sz = int (length s)" "NUL \<notin> set s" "3 \<le> length s" "hd s = HASH"
  shows "runs_ref (\<lambda>ob. numeric_ent ob src sz) (char_ref s)"
proof -
  obtain c d t where s: "s = HASH # c # d # t"
    using assms(4,5) by (cases s; cases "tl s"; cases "tl (tl s)") auto
  have p: "peek src 1 = Inr c" using assms(1) s by (simp add: peek_def)
  consider (dec) "is_digit c" | (hex) "\<not> is_digit c" "c = 0x78 \<or> c = 0x58"
    | (none) "\<not> is_digit c" "c \<noteq> 0x78" "c \<noteq> 0x58" by blast
  then show ?thesis
  proof cases
    case dec
    let ?ds = "takeWhile is_digit (c # d # t)"
    have "read_number src sz = Inr (int (1 + length ?ds), clamp (dec_value ?ds), int (length ?ds))"
      using dec_loop_eq [of 0 "[HASH]" "c # d # t" post] p dec assms(1,2) s
      by (simp add: read_number_def dec_value_def clamp_0 add.commute)
    from numeric_ent_runs [OF this assms(1,2) values_nonneg(1)] show ?thesis
      using dec assms(4,5) by (simp add: char_ref_def ref_upto_def s Let_def)
  next
    case hex
    let ?ds = "takeWhile real_xdigit (d # t)"
    have "read_number src sz = Inr (int (2 + length ?ds), clamp (hex_value ?ds), int (length ?ds))"
      using hex_loop_eq [of 0 "d # t" "[HASH, c]" post] p hex assms(1-3) s
      by (simp add: read_number_def hex_value_def clamp_0 add.commute)
    from numeric_ent_runs [OF this assms(1,2) values_nonneg(2)] show ?thesis
      using hex assms(4,5) by (auto simp: char_ref_def ref_upto_def s Let_def)
  next
    case none
    then have "read_number src sz = Inr (0, 0, 0)" using p by (simp add: read_number_def)
    then show ?thesis using none assms(4,5) by (simp add: numeric_ent_def runs_ref_def char_ref_def ref_upto_def s)
  qed
qed

text \<open>The reference whose name starts with \<open>pre\<close> and is searched for its end in \<open>t\<close>.\<close>

definition named_from :: "byte list \<Rightarrow> byte list \<Rightarrow> (nat \<times> byte list) option" where
  "named_from pre t =
     (let n = length pre + length (takeWhile (\<lambda>c. c \<noteq> SPACE \<and> c \<noteq> SEMICOLON) t)
      in if n < length (pre @ t) \<and> (pre @ t) ! n = SEMICOLON
         then map_option (Pair (n + 1)) (entity_value (take n (pre @ t))) else None)"

lemma named_from_Cons: "c \<noteq> SPACE \<Longrightarrow> c \<noteq> SEMICOLON \<Longrightarrow> named_from pre (c # t) = named_from (pre @ [c]) t"
  by (simp add: named_from_def Let_def)

lemma named_loop_runs:
  assumes "NUL \<notin> set (pre @ t)"
  shows "runs_ref (\<lambda>ob. named_loop ob (pre @ t @ post) (int (length pre + length t)) (int (length pre)))
    (named_from pre t)"
  using assms
proof (induction t arbitrary: pre)
  case Nil
  then show ?case by (subst named_loop.simps) (simp add: runs_ref_def named_from_def)
next
  case (Cons c t)
  let ?src = "pre @ (c # t) @ post" and ?i = "int (length pre)"
  have p: "peek ?src ?i = Inr c" by simp
  consider (sp) "c = SPACE" | (semi) "c = SEMICOLON" | (other) "c \<noteq> SPACE" "c \<noteq> SEMICOLON" by blast
  then show ?case
  proof cases
    case sp
    then show ?thesis using p by (subst named_loop.simps) (simp add: runs_ref_def named_from_def)
  next
    case semi
    obtain r where r: "S_lookup_entity ?src ?i = Inr r"
      "map_option (takeWhile (\<lambda>b. b \<noteq> NUL)) r = entity_value pre" "\<forall>bs. r = Some bs \<longrightarrow> NUL \<in> set bs"
      using lookup_entity [of ?i ?src] Cons.prems by auto
    show ?thesis
    proof (cases r)
      case None
      then show ?thesis using p r semi by (subst named_loop.simps) (simp add: runs_ref_def named_from_def)
    next
      case (Some bs)
      then have "appends (\<lambda>ob. cmark_strbuf_puts ob bs) (takeWhile (\<lambda>b. b \<noteq> NUL) bs)"
        using r(3) app_string by blast
      moreover have "named_loop ob ?src (int (length pre + length (c # t))) ?i =
          bindr (cmark_strbuf_puts ob bs) (\<lambda>ob. Inr (?i + 1, ob))" for ob
        using p r(1) semi Some by (subst named_loop.simps) simp
      moreover have "?i + 1 = int (length pre + 1)" by simp
      moreover have "entity_value pre = Some (takeWhile (\<lambda>b. b \<noteq> NUL) bs)" using r(2) Some by simp
      ultimately show ?thesis using semi by (auto simp: runs_ref_def named_from_def)
    qed
  next
    case other
    have "named_loop ob ?src (int (length pre + length (c # t))) ?i =
        named_loop ob ((pre @ [c]) @ t @ post) (int (length (pre @ [c]) + length t)) (int (length (pre @ [c])))" for ob
      using p other by (subst named_loop.simps) (simp add: add.commute)
    moreover have "NUL \<notin> set ((pre @ [c]) @ t)" using Cons.prems by simp
    ultimately show ?thesis using Cons.IH [of "pre @ [c]"] named_from_Cons [OF other] by simp
  qed
qed

lemma named_ref_runs:
  assumes "src = s @ post" "NUL \<notin> set s"
  shows "runs_ref (\<lambda>ob. named_loop ob src (int (length s)) 2) (named_ref s)"
proof (cases "2 \<le> length s")
  case True
  have "take 2 s @ drop 2 s @ post = src" "int (length (take 2 s) + length (drop 2 s)) = int (length s)"
    "int (length (take 2 s)) = 2" "take 2 s @ drop 2 s = s" "length (take 2 s) = 2"
    using True assms(1) by simp_all
  moreover have "NUL \<notin> set (take 2 s @ drop 2 s)" using assms(2) by simp
  note named_loop_runs [OF this, of post]
  moreover have "named_from (take 2 s) (drop 2 s) = named_ref s"
    using True by (simp add: named_from_def named_ref_def Let_def)
  ultimately show ?thesis by (simp only:)
next
  case False
  then have "named_loop ob src (int (length s)) 2 = Inr (0, ob)" for ob by (subst named_loop.simps) simp
  then show ?thesis using False by (simp add: runs_ref_def named_ref_def Let_def)
qed

lemma unescape_ent_runs:
  assumes "src = s @ post" "sz = int (length s)" "NUL \<notin> set s"
  shows "runs_ref (\<lambda>ob. houdini_unescape_ent ob src sz) (char_ref s)"
proof (cases "3 \<le> length s \<and> hd s = HASH")
  case True
  then have "peek src 0 = Inr HASH" using assms(1) by (cases s) auto
  then show ?thesis
    using True char_ref_numeric [OF assms] assms(2) by (simp add: houdini_unescape_ent_def)
next
  case False
  have "(if sz \<ge> 3 then bindr (peek src 0) (\<lambda>c. Inr (c = HASH)) else Inr False) = Inr False"
    using False assms(1,2) by (cases s) auto
  then have "houdini_unescape_ent ob src sz = named_loop ob src (int (length (take 32 s))) 2" for ob
    using assms(2) by (simp add: houdini_unescape_ent_def Let_def CMARK_ENTITY_MAX_LENGTH_def
      CMARK_ENTITY_MIN_LENGTH_def min_def)
  moreover have "NUL \<notin> set (take 32 s)" using assms(3) by (meson in_set_takeD)
  ultimately show ?thesis
    using named_ref_runs [of src "take 32 s" "drop 32 s @ post"] assms(1)
    unfolding char_ref_def ref_upto_def if_not_P [OF False] by simp
qed

section \<open>Unescaping of HTML, on lists\<close>

lemma grow_appends: "0 < n \<Longrightarrow> n \<le> grow_limit \<Longrightarrow> appends (\<lambda>ob. cmark_strbuf_grow ob n) []"
proof -
  assume n: "0 < n" "n \<le> grow_limit"
  have "appends_to ok contents grow_limit (\<lambda>ob. cmark_strbuf_grow ob n) []"
    if "ok \<in> {strbuf_inv, strbuf_good}" for ok
    unfolding appends_to_def
  proof (intro allI impI)
    fix s assume s: "ok s"
    then have "strbuf_inv s" using that by (auto simp: strbuf_good_def)
    from grow_cases [OF this n(1)] n(2) obtain b where b: "cmark_strbuf_grow s n = Inr b" "strbuf_inv b"
      "contents b = contents s" "bsize b = bsize s" "asize s \<noteq> 0 \<longrightarrow> terminated s \<longrightarrow> terminated b" by auto
    have "bsize s \<noteq> 0 \<longrightarrow> asize s \<noteq> 0" using \<open>strbuf_inv s\<close> by (auto simp: strbuf_inv_def)
    then have "ok b" using that s b by (auto simp: strbuf_good_def)
    then show "case cmark_strbuf_grow s n of Inr s' \<Rightarrow> ok s' \<and> contents s' = contents s @ []
      | Inl e \<Rightarrow> e \<in> {Abort, Int_overflow} \<and> grow_limit < int (length (contents s) + length ([] :: byte list))"
      using b by simp
  qed
  then show ?thesis by (simp add: appends_def)
qed

lemma unescape_run: "AMP \<notin> set run \<Longrightarrow> html_unescape (run @ s) = run @ html_unescape s"
  by (induction run) (auto simp: html_unescape_Cons)

lemma unescape_no_amp: "AMP \<notin> set s \<Longrightarrow> html_unescape s = s"
  using unescape_run [of s "[]"] by simp

lemma char_ref_bounds: "char_ref s = Some (n, bs) \<Longrightarrow> 0 < n \<and> n \<le> length s"
  by (auto simp: char_ref_def ref_upto_def numeric_ref_def named_ref_def Let_def split: if_splits)

lemma unescape_loop_appends:
  assumes "NUL \<notin> set s" "src = pre @ s @ post" "sz = int (length pre + length s)" "sz \<le> grow_limit"
  shows "appends (\<lambda>ob. bindr (unescape_html_loop ob src sz (int (length pre))) (\<lambda>(ok, ob).
      if \<not> ok then cmark_strbuf_put ob src sz else Inr ob)) (html_unescape s)"
  using assms
proof (induction "length s" arbitrary: pre s rule: less_induct)
  case less
  let ?i = "int (length pre)" and ?run = "takeWhile (\<lambda>c. c \<noteq> AMP) s"
  let ?j = "int (length pre + length ?run)"
  let ?fin = "\<lambda>(ok, ob). if \<not> ok then cmark_strbuf_put ob src sz else Inr ob"
  let ?put = "\<lambda>ob. if ?j > ?i
      then bindr (if ?i = 0 then cmark_strbuf_grow ob sz else Inr ob) (\<lambda>ob.
           cmark_strbuf_put ob (drop (nat ?i) src) (?j - ?i))
      else Inr ob"
  have scan: "scan_while (\<lambda>c. c \<noteq> AMP) src ?i sz = Inr ?j"
    using scan_while_eq [of "\<lambda>c. c \<noteq> AMP" pre s post] less.prems by simp
  have put: "appends ?put ?run"
  proof (cases "?run = []")
    case True
    then show ?thesis using app_skip by simp
  next
    case False
    then have "s \<noteq> []" by auto
    have "take (length ?run) s = ?run" by (rule takeWhile_eq_take [symmetric])
    then have p: "cmark_strbuf_put ob (drop (nat ?i) src) (?j - ?i) = put_bytes ob ?run" for ob
      using less.prems length_takeWhile_le [of "\<lambda>c. c \<noteq> AMP" s] by (subst put_drop_take) simp_all
    have "appends (\<lambda>ob. if ?i = 0 then cmark_strbuf_grow ob sz else Inr ob) []"
    proof (cases "pre = []")
      case True
      have "0 < sz" using less.prems(3) \<open>s \<noteq> []\<close> by (cases s) auto
      then show ?thesis using True grow_appends [OF _ less.prems(4)] by simp
    qed (simp add: app_skip)
    from app_seq [OF this app_put [of ?run]] show ?thesis
      unfolding p using False by simp
  qed
  have split: "s = ?run @ dropWhile (\<lambda>c. c \<noteq> AMP) s" by simp
  show ?case
  proof (cases "dropWhile (\<lambda>c. c \<noteq> AMP) s")
    case Nil
    then have rs: "?run = s" using split by simp
    have amp: "AMP \<notin> set s" using Nil by (auto simp: dropWhile_eq_Nil_conv)
    have j: "?j = sz" using rs less.prems(3) by (simp del: takeWhile_eq_all_conv)
    show ?thesis
    proof (cases "s \<noteq> [] \<and> pre = []")
      case True
      then have "bindr (unescape_html_loop ob src sz ?i) ?fin = put_bytes ob s" for ob
        using scan j less.prems put_drop_take [of sz src ob] by (subst unescape_html_loop.simps) simp
      then show ?thesis using app_put [of s] unescape_no_amp [OF amp] by simp
    next
      case False
      have "bindr (unescape_html_loop ob src sz ?i) ?fin = bindr (?put ob) Inr" for ob
      proof (cases "s = []")
        case True
        then show ?thesis using less.prems(3) by (subst unescape_html_loop.simps) simp
      next
        case s: False
        then have "pre \<noteq> []" "?i < sz" using False less.prems(3) by auto
        then have "unescape_html_loop ob src sz ?i = bindr (?put ob) (\<lambda>ob. Inr (True, ob))"
          using scan unfolding j by (subst unescape_html_loop.simps) (simp only: if_True bindr_Inr simp_thms, simp)
        moreover have "bindr (bindr m (\<lambda>ob. Inr (True, ob))) ?fin = bindr m Inr" for m :: "cmark_strbuf res"
          by (simp add: bindr_assoc)
        ultimately show ?thesis by (simp only:)
      qed
      then show ?thesis using app_seq [OF put app_skip] rs unescape_no_amp [OF amp] by simp
    qed
  next
    case (Cons c rest)
    have "\<not> hd (dropWhile (\<lambda>c. c \<noteq> AMP) s) \<noteq> AMP" by (rule hd_dropWhile) (simp add: Cons)
    then have c: "c = AMP" unfolding Cons by simp
    have s: "s = ?run @ AMP # rest" using split unfolding Cons c .
    have l: "length s = Suc (length ?run + length rest)" using arg_cong [OF s, of length] by simp
    have run: "AMP \<notin> set ?run" using set_takeWhileD by fastforce
    have rest: "drop (nat (?j + 1)) src = rest @ post" "NUL \<notin> set rest" "sz - (?j + 1) = int (length rest)"
    proof -
      have "src = (pre @ ?run @ [AMP]) @ rest @ post" using s less.prems(2) by (metis append.assoc append_Cons append_Nil)
      then show "drop (nat (?j + 1)) src = rest @ post" by (simp add: nat_add_distrib)
      show "NUL \<notin> set rest" using less.prems(1) s by (metis UnCI list.set_intros(2) set_append)
      show "sz - (?j + 1) = int (length rest)" using less.prems(3) l by simp
    qed
    let ?ent = "\<lambda>ob. houdini_unescape_ent ob (rest @ post) (int (length rest))"
    let ?cont = "\<lambda>(ent, ob). bindr (if ent = 0 then cmark_strbuf_putc ob AMP else Inr ob) (\<lambda>ob.
        bindr (unescape_html_loop ob src sz (?j + 1 + ent)) ?fin)"
    have loop: "bindr (unescape_html_loop ob src sz ?i) ?fin = bindr (?put ob) (\<lambda>ob. bindr (?ent ob) ?cont)" for ob
    proof -
      have "?j < sz" "?i < sz" using less.prems(3) l by simp_all
      then have "unescape_html_loop ob src sz ?i = bindr (?put ob) (\<lambda>ob. bindr (?ent ob) (\<lambda>(ent, ob).
          bindr (if ent = 0 then cmark_strbuf_putc ob AMP else Inr ob) (\<lambda>ob.
          unescape_html_loop ob src sz (?j + 1 + ent))))"
        using scan unfolding rest(1)[symmetric] rest(3)[symmetric] by (subst unescape_html_loop.simps) simp
      then show ?thesis by (simp only: bindr_assoc case_prod_unfold)
    qed
    have IH: "appends (\<lambda>ob. bindr (unescape_html_loop ob src sz (?j + 1 + int n)) ?fin) (html_unescape (drop n rest))"
      if "n \<le> length rest" for n
    proof -
      have "appends (\<lambda>ob. bindr (unescape_html_loop ob src sz (int (length (pre @ ?run @ AMP # take n rest)))) ?fin)
          (html_unescape (drop n rest))"
      proof (rule less.hyps)
        show "length (drop n rest) < length s" using l by simp
        show "NUL \<notin> set (drop n rest)" using rest(2) by (meson in_set_dropD)
        have "pre @ s @ post = (pre @ ?run @ AMP # take n rest) @ drop n rest @ post" by (subst s) simp
        then show "src = (pre @ ?run @ AMP # take n rest) @ drop n rest @ post" using less.prems(2) by simp
        show "sz = int (length (pre @ ?run @ AMP # take n rest) + length (drop n rest))"
          using less.prems(3) l by simp
      qed (rule less.prems(4))
      then show ?thesis using that by (simp add: algebra_simps)
    qed
    have ent: "runs_ref ?ent (char_ref rest)" using unescape_ent_runs [OF refl refl rest(2)] .
    have "appends (\<lambda>ob. bindr (?ent ob) ?cont) (html_unescape (AMP # rest))"
    proof (cases "char_ref rest")
      case None
      then have "?ent ob = Inr (0, ob)" for ob using ent by (simp add: runs_ref_def)
      then show ?thesis
        using None app_seq [OF app_putc [of AMP] IH [of 0]] by (simp add: html_unescape_Cons)
    next
      case (Some nb)
      obtain n bs where nb: "nb = (n, bs)" by (cases nb)
      obtain g where g: "0 < n" "appends g bs" "\<And>ob. ?ent ob = bindr (g ob) (\<lambda>ob. Inr (int n, ob))"
        using ent Some nb by (auto simp: runs_ref_def)
      have "n \<le> length rest" using char_ref_bounds Some nb by blast
      from app_seq [OF g(2) IH [OF this]]
      show ?thesis using Some nb g(1) by (simp add: g(3) bindr_assoc html_unescape_Cons)
    qed
    from app_seq [OF put this] show ?thesis
      unfolding loop using unescape_run [OF run, of "AMP # rest"] s by metis
  qed
qed

lemma unescape_html_f_appends:
  assumes "0 \<le> sz" "sz \<le> int (length src)" "sz \<le> grow_limit" "NUL \<notin> set (take (nat sz) src)"
  shows "appends (\<lambda>ob. houdini_unescape_html_f ob src sz) (html_unescape (take (nat sz) src))"
  using unescape_loop_appends [of "take (nat sz) src" src "[]" "drop (nat sz) src" sz] assms
  by (simp add: houdini_unescape_html_f_def houdini_unescape_html_def)

section \<open>Unescaping undoes escaping\<close>

lemma entity_in:
  assumes "(name, bs) \<in> set cmark_entities"
  shows "entity_value (str name) = Some (takeWhile (\<lambda>b. b \<noteq> NUL) bs)"
proof -
  let ?kvs = "map (\<lambda>e. (str (fst e), snd e)) cmark_entities"
  have "sorted_wrt (<) (map fst ?kvs)" using entities_sorted by (simp add: comp_def)
  then have "distinct (map fst ?kvs)" using strict_sorted_iff by blast
  moreover have "(str name, bs) \<in> set ?kvs" using assms by force
  ultimately show ?thesis by (simp add: entity_value_def)
qed

lemma html_entities:
  "entity_value (str ''amp'') = Some [AMP]" "entity_value (str ''lt'') = Some [LESS_THAN]"
  "entity_value (str ''gt'') = Some [GREATER_THAN]" "entity_value (str ''quot'') = Some [DQUOTE]"
proof -
  have part: "e \<in> set cmark_entities"
    if "e \<in> set entities_4 \<or> e \<in> set entities_8 \<or> e \<in> set entities_10 \<or> e \<in> set entities_13" for e
    using that by (auto simp: cmark_entities_def)
  have "(''amp'', [38, 0]) \<in> set entities_4" "(''lt'', [60, 0]) \<in> set entities_10"
    "(''gt'', [62, 0]) \<in> set entities_8" "(''quot'', [34, 0]) \<in> set entities_13"
    by (simp_all add: entities_4_def entities_8_def entities_10_def entities_13_def)
  then have "(''amp'', [38, 0]) \<in> set cmark_entities" "(''lt'', [60, 0]) \<in> set cmark_entities"
    "(''gt'', [62, 0]) \<in> set cmark_entities" "(''quot'', [34, 0]) \<in> set cmark_entities"
    using part by blast+
  from this [THEN entity_in] show "entity_value (str ''amp'') = Some [AMP]"
    "entity_value (str ''lt'') = Some [LESS_THAN]" "entity_value (str ''gt'') = Some [GREATER_THAN]"
    "entity_value (str ''quot'') = Some [DQUOTE]"
    by simp_all
qed

lemma unescape_enc: "html_unescape (html_enc secure c @ s) = c # html_unescape s"
proof -
  have ref: "html_unescape (AMP # r @ s) = bs @ html_unescape (drop n (r @ s))"
    if "char_ref (r @ s) = Some (n, bs)" for r n bs
    using that by (simp add: html_unescape_Cons)
  note defs = char_ref_def ref_upto_def named_ref_def numeric_ref_def Let_def is_digit_def dec_value_def code_point_def
    encode_bytes_def low_byte_def
  have refs: "char_ref (str ''amp;'' @ s) = Some (4, [AMP])" "char_ref (str ''lt;'' @ s) = Some (3, [LESS_THAN])"
    "char_ref (str ''gt;'' @ s) = Some (3, [GREATER_THAN])" "char_ref (str ''quot;'' @ s) = Some (5, [DQUOTE])"
    "char_ref (str ''#39;'' @ s) = Some (4, [SQUOTE])" "char_ref (str ''#47;'' @ s) = Some (4, [SLASH])"
    using html_entities by (simp_all add: defs)
  have "html_unescape (str ''&amp;'' @ s) = AMP # html_unescape s"
    "html_unescape (str ''&lt;'' @ s) = LESS_THAN # html_unescape s"
    "html_unescape (str ''&gt;'' @ s) = GREATER_THAN # html_unescape s"
    "html_unescape (str ''&quot;'' @ s) = DQUOTE # html_unescape s"
    "html_unescape (str ''&#39;'' @ s) = SQUOTE # html_unescape s"
    "html_unescape (str ''&#47;'' @ s) = SLASH # html_unescape s"
    using refs [THEN ref] by simp_all
  moreover have "html_unescape ([c] @ s) = c # html_unescape s" if "c \<noteq> AMP"
    using that by (simp add: html_unescape_Cons)
  ultimately show ?thesis unfolding html_enc_def by (simp only: split: if_split) blast
qed

lemma unescape_escape: "html_unescape (html_escape secure s) = s"
  by (induction s) (simp_all add: html_escape_def unescape_enc)

lemma html_enc_clean:
  "{DQUOTE, LESS_THAN, GREATER_THAN} \<inter> set (html_enc secure c) = {}"
  "c \<noteq> NUL \<Longrightarrow> NUL \<notin> set (html_enc secure c)"
  "{SQUOTE, SLASH} \<inter> set (html_enc True c) = {}" "length (html_enc secure c) \<le> 6"
  unfolding html_enc_def by simp_all

lemma concat_map_avoids:
  "(\<And>c. c \<in> set s \<Longrightarrow> X \<inter> set (f c) = {}) \<Longrightarrow> X \<inter> set (concat (map f s)) = {}"
  by (induction s) (simp_all add: Int_Un_distrib)

lemma escape_clean:
  "{DQUOTE, LESS_THAN, GREATER_THAN} \<inter> set (html_escape secure s) = {}"
  "NUL \<notin> set s \<Longrightarrow> NUL \<notin> set (html_escape secure s)"
  "{SQUOTE, SLASH} \<inter> set (html_escape True s) = {}"
proof -
  show "{DQUOTE, LESS_THAN, GREATER_THAN} \<inter> set (html_escape secure s) = {}"
    unfolding html_escape_def by (rule concat_map_avoids) (rule html_enc_clean(1))
  show "{SQUOTE, SLASH} \<inter> set (html_escape True s) = {}"
    unfolding html_escape_def by (rule concat_map_avoids) (rule html_enc_clean(3))
  assume s: "NUL \<notin> set s"
  have "{NUL} \<inter> set (html_escape secure s) = {}"
    unfolding html_escape_def
  proof (rule concat_map_avoids)
    fix c assume "c \<in> set s"
    then have "c \<noteq> NUL" using s by metis
    then show "{NUL} \<inter> set (html_enc secure c) = {}" using html_enc_clean(2) by simp
  qed
  then show "NUL \<notin> set (html_escape secure s)" by simp
qed

lemma escape_length: "length (html_escape secure s) \<le> 6 * length s"
proof (induction s)
  case (Cons c s)
  then show ?case using html_enc_clean(4) [of secure c] by (simp add: html_escape_def)
qed (simp add: html_escape_def)

definition url_byte :: "byte \<Rightarrow> bool" where
  "url_byte c \<longleftrightarrow> 0x21 \<le> c \<and> c \<le> 0x7E \<and> c \<notin> {DQUOTE, SQUOTE, LESS_THAN, GREATER_THAN, BACKSLASH, BACKTICK}"

lemma href_clean: "list_all url_byte (href_enc c)" "length (href_enc c) \<le> 6" 
proof -
  have hex: "url_byte (hex_digit n)" if "n < 16" for n
  proof -
    have "list_all (\<lambda>n. url_byte (hex_digit n)) [0..<16]" by code_simp
    then show ?thesis using that by (simp only: list_all_iff set_upt) simp
  qed
  have "unat c div 16 < 16" using unat_byte_less [of c] by (intro less_mult_imp_div_less) simp
  then show "list_all url_byte (href_enc c)"
    using hex [of "unat c div 16"] hex [of "unat c mod 16"]
    unfolding href_enc_def by (simp add: url_byte_def) (auto simp: word_le_nat_alt word_unat_eq_iff)
qed (simp add: href_enc_def)

section \<open>Properties\<close>

text \<open>
  C18: Escaping text for HTML and unescaping the result gives the text back, in either mode; the
  escaped text holds none of the bytes that end an attribute or open a tag, and in secure mode
  neither a single quote nor a slash.
\<close>

theorem escape_roundtrip:
  assumes "strbuf_inv b1" "strbuf_inv b2" "bsize b1 = 0" "bsize b2 = 0" "NUL \<notin> set s"
    "6 * int (length s) \<le> grow_limit"
  shows "\<exists>e b1' b2'. houdini_escape_html0 b1 s (int (length s)) secure = Inr b1' \<and> contents b1' = e \<and>
    {DQUOTE, LESS_THAN, GREATER_THAN} \<inter> set e = {} \<and> (secure \<longrightarrow> {SQUOTE, SLASH} \<inter> set e = {}) \<and>
    houdini_unescape_html_f b2 e (int (length e)) = Inr b2' \<and> contents b2' = s"
proof -
  let ?e = "html_escape secure s"
  have l: "int (length ?e) \<le> grow_limit" using escape_length [of secure s] assms(6) by linarith
  have c: "contents b1 = []" "contents b2 = []" using assms(3,4) by (simp_all add: contents_def)
  obtain b1' where "houdini_escape_html0 b1 s (int (length s)) secure = Inr b1'" "contents b1' = ?e"
    using app_run [OF escape_html_appends [of "int (length s)" s secure] assms(1)] c l by auto
  moreover
  have "NUL \<notin> set (take (nat (int (length ?e))) ?e)" using escape_clean(2) [OF assms(5)] by simp
  from unescape_html_f_appends [OF _ _ l this]
  have "appends (\<lambda>ob. houdini_unescape_html_f ob ?e (int (length ?e))) s" by (simp add: unescape_escape)
  from app_run [OF this assms(2)] c(2) assms(6)
  obtain b2' where "houdini_unescape_html_f b2 ?e (int (length ?e)) = Inr b2'" "contents b2' = s" by auto
  moreover have "secure \<longrightarrow> {SQUOTE, SLASH} \<inter> set ?e = {}" using escape_clean(3) [of s] by (cases secure) simp_all
  ultimately show ?thesis
    by (intro exI [of _ ?e] exI [of _ b1'] exI [of _ b2'] conjI escape_clean(1)) assumption+
qed

theorem escape_roundtrip_witness:
  "\<exists>b1' b2'. houdini_escape_html0 (strbuf_empty \<lparr>mem_id = 0, fresh = \<lambda>_. 0\<rparr>) (str ''a<b>&'') 5 False = Inr b1' \<and>
     houdini_unescape_html_f (strbuf_empty \<lparr>mem_id = 0, fresh = \<lambda>_. 0\<rparr>) (contents b1')
       (int (length (contents b1'))) = Inr b2' \<and> contents b2' = str ''a<b>&''"
proof -
  have "NUL \<notin> set (str ''a<b>&'')" "int (length (str ''a<b>&'')) = 5" "6 * (5 :: int) \<le> grow_limit"
    "strbuf_inv (strbuf_empty \<lparr>mem_id = 0, fresh = \<lambda>_. 0\<rparr>)" "bsize (strbuf_empty \<lparr>mem_id = 0, fresh = \<lambda>_. 0\<rparr>) = 0"
    by code_simp+
  from escape_roundtrip [OF this(4,4,5,5,1), of False] this(2,3) show ?thesis by metis
qed



text \<open>
  C32: Escaping a URL always gives a string of printable ASCII without spaces, quotes, angle
  brackets, backslashes and backticks, at most six times as long.
\<close>

theorem escape_href_safe:
  assumes "strbuf_inv ob" "bsize ob = 0" "0 \<le> sz" "sz \<le> int (length src)" "6 * sz \<le> grow_limit"
  shows "\<exists>ob'. houdini_escape_href ob src sz = Inr ob' \<and> strbuf_inv ob' \<and>
    contents ob' = href_escape (take (nat sz) src) \<and> list_all url_byte (contents ob') \<and> bsize ob' \<le> 6 * sz"
proof -
  let ?s = "take (nat sz) src"
  have "list_all url_byte (href_escape s) \<and> length (href_escape s) \<le> 6 * length s" for s
  proof (induction s)
    case (Cons c s)
    then show ?case using href_clean [of c] by (auto simp: href_escape_def)
  qed (simp add: href_escape_def)
  from this [of ?s] have l: "list_all url_byte (href_escape ?s)" "int (length (href_escape ?s)) \<le> 6 * sz"
    using assms(3,4) by auto
  moreover have "contents ob = []" using assms(2) by (simp add: contents_def)
  moreover have "int (length (contents ob) + length (href_escape ?s)) \<le> grow_limit"
    using l(2) assms(5) calculation(3) by simp
  ultimately show ?thesis
    using app_run [OF escape_href_appends [OF assms(3,4)] assms(1)] length_contents by fastforce
qed

theorem escape_href_safe_witness:
  "\<exists>ob'. houdini_escape_href (strbuf_empty \<lparr>mem_id = 0, fresh = \<lambda>_. 0\<rparr>) (str ''a b&c'') 5 = Inr ob' \<and>
     contents ob' = str ''a%20b&amp;c''"
proof -
  have "strbuf_inv (strbuf_empty \<lparr>mem_id = 0, fresh = \<lambda>_. 0\<rparr>)" "bsize (strbuf_empty \<lparr>mem_id = 0, fresh = \<lambda>_. 0\<rparr>) = 0"
    "(5 :: int) \<le> int (length (str ''a b&c''))" "6 * (5 :: int) \<le> grow_limit"
    "href_escape (take (nat 5) (str ''a b&c'')) = str ''a%20b&amp;c''"
    by code_simp+
  then show ?thesis
    using escape_href_safe [of "strbuf_empty \<lparr>mem_id = 0, fresh = \<lambda>_. 0\<rparr>" 5 "str ''a b&c''"] by auto
qed

text \<open>
  A decimal reference of eight digits, or a hexadecimal one of seven, is none in the specification,
  but the code replaces it.
\<close>

theorem long_reference_replaced:
  "char_ref (str ''#00000065;'') = Some (10, str ''A'')" "ref_upto 7 6 (str ''#00000065;'') = None"
  "char_ref (str ''#x0000041;'') = Some (10, str ''A'')" "ref_upto 7 6 (str ''#x0000041;'') = None"
  by code_simp+

text \<open>
  The digit test of hexadecimal references accepts a NUL byte (\<open>strchr\<close> finds the terminator of
  the string of digits), with the value 23: the reference \<open>&#x\<close>, NUL, \<open>;\<close> is replaced by U+0017.
\<close>

theorem nul_hex_digit:
  "case houdini_unescape_ent (strbuf_empty \<lparr>mem_id = 0, fresh = \<lambda>_. 0\<rparr>) [HASH, 0x78, NUL, SEMICOLON] 4 of
     Inr (n, ob) \<Rightarrow> n = 4 \<and> contents ob = [0x17] | Inl _ \<Rightarrow> False"
  by code_simp

end
