(* ===== verification/Ref_Map.thy ===== *)
theory Ref_Map
  imports Chunk Case_Fold Houdini
begin

text \<open>
  The maps of link references and footnotes: src/src/map.c, src/src/references.c and the cleaning of
  their strings in src/src/inlines.c.

  A map collects its entries in a list, newest first; the first lookup sorts them by label and age
  and drops all but the oldest entry of every label, and from then on lookups are binary searches.
  Every lookup that succeeds is charged with the size of its entry, up to a limit.
  The abstraction is the association list of the entries, oldest first: the first definition of a
  label wins.

  The linked list \<open>map->refs\<close> is modelled as a list, the pointers in \<open>map->sorted\<close> as the entries
  they point to, and the function pointer \<open>map->free\<close> by the type of the entries.
\<close>

section \<open>The data\<close>

record cmark_map_entry =
  me_label :: "byte list"
  me_age :: "64 word"
  me_size :: "64 word"

record cmark_reference = cmark_map_entry +
  is_attributes_reference :: bool
  ref_url :: cmark_chunk
  ref_title :: cmark_chunk
  ref_attributes :: cmark_chunk

record 'e cmark_map =
  map_mem :: cmark_mem
  refs :: "'e list"
  sorted_refs :: "'e list option"
  map_size :: "64 word"
  ref_size :: "64 word"
  max_ref_size :: "64 word"

section \<open>Labels\<close>

definition MAX_LINK_LABEL_LENGTH :: int where
  "MAX_LINK_LABEL_LENGTH = 1000"

definition normalize_map_label :: "cmark_mem \<Rightarrow> cmark_chunk option \<Rightarrow> byte list option res" where
  "normalize_map_label m ref =
     (case ref of
        None \<Rightarrow> Inr None
      | Some c \<Rightarrow>
          if ch_len c = 0 then Inr None
          else
            bindr (chunk_block c) (\<lambda>d.
            bindr (cmark_utf8proc_case_fold (strbuf_empty m) d (ch_len c)) (\<lambda>normalized.
            bindr (cmark_strbuf_trim normalized) (\<lambda>normalized.
            bindr (cmark_strbuf_normalize_whitespace normalized) (\<lambda>normalized.
            bindr (cmark_strbuf_detach normalized) (\<lambda>(result, _).
            bindr (peek result 0) (\<lambda>b.
            Inr (if b = NUL then None else Some result))))))))"

text \<open>The string in a block, and \<open>strcmp\<close>.\<close>

definition cstr :: "byte list \<Rightarrow> byte list" where
  "cstr blk = takeWhile (\<lambda>b. b \<noteq> NUL) blk"

definition labelcmp :: "byte list \<Rightarrow> byte list \<Rightarrow> int" where
  "labelcmp a b = (if cstr a < cstr b then -1 else if cstr b < cstr a then 1 else 0)"

definition int_of_size :: "64 word \<Rightarrow> int" where
  "int_of_size w = sint (ucast w :: 32 word)"

definition refcmp :: "'a cmark_map_entry_scheme \<Rightarrow> 'a cmark_map_entry_scheme \<Rightarrow> int" where
  "refcmp r1 r2 =
     (let res = labelcmp (me_label r1) (me_label r2)
      in if res \<noteq> 0 then res else int_of_size (me_age r1) - int_of_size (me_age r2))"

definition refsearch :: "byte list \<Rightarrow> 'a cmark_map_entry_scheme \<Rightarrow> int" where
  "refsearch label ref = labelcmp label (me_label ref)"

section \<open>Sorting and searching\<close>

text \<open>The two functions of the C library; all that matters of \<open>qsort\<close> is that it sorts.\<close>

fun insert_by :: "('e \<Rightarrow> 'e \<Rightarrow> int) \<Rightarrow> 'e \<Rightarrow> 'e list \<Rightarrow> 'e list" where
  "insert_by cmp x [] = [x]"
| "insert_by cmp x (y # ys) = (if cmp x y \<le> 0 then x # y # ys else y # insert_by cmp x ys)"

definition qsort :: "('e \<Rightarrow> 'e \<Rightarrow> int) \<Rightarrow> 'e list \<Rightarrow> 'e list" where
  "qsort cmp xs = foldr (insert_by cmp) xs []"

function bsearch :: "('e \<Rightarrow> int) \<Rightarrow> 'e list \<Rightarrow> nat \<Rightarrow> nat \<Rightarrow> 'e option" where
  "bsearch compar base l u =
     (if l < u
      then
        let idx = (l + u) div 2; comparison = compar (base ! idx)
        in if comparison < 0 then bsearch compar base l idx
           else if comparison > 0 then bsearch compar base (idx + 1) u
           else Some (base ! idx)
      else None)"
  by pat_completeness auto
termination
  by (relation "measure (\<lambda>(compar, base, l, u). u - l)") auto

text \<open>The loop of \<open>sort_map\<close> that drops the duplicates, in place.\<close>

function unique_loop ::
  "'a cmark_map_entry_scheme list \<Rightarrow> nat \<Rightarrow> nat \<Rightarrow> nat \<Rightarrow> 'a cmark_map_entry_scheme list \<times> nat" where
  "unique_loop arr i lst n =
     (if i < n
      then if labelcmp (me_label (arr ! i)) (me_label (arr ! lst)) \<noteq> 0
           then unique_loop (arr[lst + 1 := arr ! i]) (i + 1) (lst + 1) n
           else unique_loop arr (i + 1) lst n
      else (arr, lst))"
  by pat_completeness auto
termination
  by (relation "measure (\<lambda>(arr, i, lst, n). n - i)") auto

declare bsearch.simps [simp del] unique_loop.simps [simp del]

text \<open>An entry of the array that no reference fills stays null, and the sort dereferences it.\<close>

definition sort_map :: "'a cmark_map_entry_scheme cmark_map \<Rightarrow> 'a cmark_map_entry_scheme cmark_map res" where
  "sort_map m =
     (let n = unat (map_size m)
      in bindr (guard (length (refs m) \<le> n) Out_of_bounds) (\<lambda>_.
         bindr (guard (n \<le> length (refs m)) Null_deref) (\<lambda>_.
         let (arr, lst) = unique_loop (qsort refcmp (refs m)) 1 0 n
         in Inr (m\<lparr>sorted_refs := Some arr, map_size := of_nat (lst + 1)\<rparr>))))"

text \<open>The entry found, and the map.\<close>

definition cmark_map_lookup ::
  "'a cmark_map_entry_scheme cmark_map option \<Rightarrow> cmark_chunk \<Rightarrow>
     ('a cmark_map_entry_scheme option \<times> 'a cmark_map_entry_scheme cmark_map option) res" where
  "cmark_map_lookup mp label =
     (if ch_len label < 1 \<or> ch_len label > MAX_LINK_LABEL_LENGTH then Inr (None, mp)
      else
        case mp of
          None \<Rightarrow> Inr (None, mp)
        | Some m \<Rightarrow>
            if map_size m = 0 then Inr (None, mp)
            else
              bindr (normalize_map_label (map_mem m) (Some label)) (\<lambda>norm.
              case norm of
                None \<Rightarrow> Inr (None, mp)
              | Some norm \<Rightarrow>
                  bindr (if sorted_refs m = None then sort_map m else Inr m) (\<lambda>m.
                  case bsearch (refsearch norm) (the (sorted_refs m)) 0 (unat (map_size m)) of
                    None \<Rightarrow> Inr (None, Some m)
                  | Some r \<Rightarrow>
                      if me_size r > max_ref_size m - ref_size m then Inr (None, Some m)
                      else Inr (Some r, Some (m\<lparr>ref_size := ref_size m + me_size r\<rparr>)))))"

definition cmark_map_new :: "cmark_mem \<Rightarrow> 'e cmark_map" where
  "cmark_map_new m =
     \<lparr>map_mem = m, refs = [], sorted_refs = None, map_size = 0, ref_size = 0, max_ref_size = 0xFFFFFFFF\<rparr>"

section \<open>References\<close>

definition cmark_clean_url :: "cmark_mem \<Rightarrow> cmark_chunk \<Rightarrow> (cmark_chunk \<times> cmark_chunk) res" where
  "cmark_clean_url m url =
     bindr (cmark_chunk_trim url) (\<lambda>url.
     if ch_len url = 0 then Inr (CMARK_CHUNK_EMPTY, url)
     else
       bindr (chunk_block url) (\<lambda>d.
       bindr (houdini_unescape_html_f (strbuf_empty m) d (ch_len url)) (\<lambda>buf.
       bindr (cmark_strbuf_unescape buf) (\<lambda>buf.
       bindr (cmark_chunk_buf_detach buf) (\<lambda>(result, _). Inr (result, url))))))"

definition cmark_clean_title :: "cmark_mem \<Rightarrow> cmark_chunk \<Rightarrow> cmark_chunk res" where
  "cmark_clean_title m title =
     (if ch_len title = 0 then Inr CMARK_CHUNK_EMPTY
      else
        bindr (chunk_at title 0) (\<lambda>first.
        bindr (chunk_at title (ch_len title - 1)) (\<lambda>final.
        bindr (chunk_block title) (\<lambda>d.
        bindr (if first = SQUOTE \<and> final = SQUOTE \<or> first = LPAREN \<and> final = RPAREN \<or> first = DQUOTE \<and> final = DQUOTE
               then houdini_unescape_html_f (strbuf_empty m) (drop 1 d) (ch_len title - 2)
               else houdini_unescape_html_f (strbuf_empty m) d (ch_len title)) (\<lambda>buf.
        bindr (cmark_strbuf_unescape buf) (\<lambda>buf.
        bindr (cmark_chunk_buf_detach buf) (\<lambda>(result, _). Inr result)))))))"

definition cmark_clean_attributes :: "cmark_mem \<Rightarrow> cmark_chunk \<Rightarrow> (cmark_chunk \<times> cmark_chunk) res" where
  "cmark_clean_attributes m attributes = cmark_clean_url m attributes"

definition empty_literal :: cmark_chunk where
  "empty_literal = \<lparr>ch_data = Some [NUL], ch_len = 0, ch_alloc = False\<rparr>"

text \<open>Pushing an entry whose label has been normalised.\<close>

definition push_entry :: "'a cmark_map_entry_scheme cmark_map \<Rightarrow> 'a cmark_map_entry_scheme \<Rightarrow>
    'a cmark_map_entry_scheme cmark_map" where
  "push_entry m ref = m\<lparr>refs := ref\<lparr>me_age := map_size m\<rparr> # refs m, map_size := map_size m + 1\<rparr>"

definition cmark_reference_create ::
  "cmark_reference cmark_map \<Rightarrow> cmark_chunk option \<Rightarrow> cmark_chunk \<Rightarrow> cmark_chunk \<Rightarrow> cmark_reference cmark_map res" where
  "cmark_reference_create m label url title =
     bindr (normalize_map_label (map_mem m) label) (\<lambda>reflabel.
     case reflabel of
       None \<Rightarrow> Inr m
     | Some reflabel \<Rightarrow>
         bindr (guard (sorted_refs m = None) Assert_failed) (\<lambda>_.
         bindr (cmark_clean_url (map_mem m) url) (\<lambda>(url, _).
         bindr (cmark_clean_title (map_mem m) title) (\<lambda>title.
         bindr (add_i32 (ch_len url) (ch_len title)) (\<lambda>n.
         Inr (push_entry m
           \<lparr>me_label = reflabel, me_age = 0, me_size = word_of_int n, is_attributes_reference = False,
            ref_url = url, ref_title = title, ref_attributes = empty_literal\<rparr>))))))"

definition cmark_reference_create_attributes ::
  "cmark_reference cmark_map \<Rightarrow> cmark_chunk option \<Rightarrow> cmark_chunk \<Rightarrow> cmark_reference cmark_map res" where
  "cmark_reference_create_attributes m label attributes =
     bindr (normalize_map_label (map_mem m) label) (\<lambda>reflabel.
     case reflabel of
       None \<Rightarrow> Inr m
     | Some reflabel \<Rightarrow>
         bindr (guard (sorted_refs m = None) Assert_failed) (\<lambda>_.
         bindr (cmark_clean_attributes (map_mem m) attributes) (\<lambda>(attributes, _).
         Inr (push_entry m
           \<lparr>me_label = reflabel, me_age = 0, me_size = 0, is_attributes_reference = True,
            ref_url = empty_literal, ref_title = empty_literal, ref_attributes = attributes\<rparr>))))"

definition cmark_reference_map_new :: "cmark_mem \<Rightarrow> cmark_reference cmark_map" where
  "cmark_reference_map_new m = cmark_map_new m"

section \<open>What normalising a label gives\<close>

lemma fold_cases_short: "list_all (\<lambda>(c, xs). xs \<noteq> [] \<and> length xs \<le> 3) fold_cases"
  unfolding fold_cases_def
  by (simp add: fold_cases_0_def fold_cases_1_def fold_cases_2_def fold_cases_3_def fold_cases_4_def
      fold_cases_5_def fold_cases_6_def fold_cases_7_def fold_cases_8_def fold_cases_9_def
      fold_cases_10_def fold_cases_11_def fold_cases_12_def fold_cases_13_def fold_cases_14_def)

lemma fold_char_short: "fold_char c \<noteq> []" "length (fold_char c) \<le> 3"
  using fold_cases_short
  by (auto simp: fold_char_def list_all_iff split: option.splits dest!: map_of_SomeD)

lemma enc_bytes_short: "enc_bytes c \<noteq> []" "length (enc_bytes c) \<le> 4"
  by (auto simp: enc_bytes_def encode_bytes_def repl_def)

lemma fold_bytes_short: "fold_bytes c \<noteq> []" "length (fold_bytes c) \<le> 12"
proof -
  have "length (concat (map enc_bytes xs)) \<le> 4 * length xs" for xs
    using enc_bytes_short(2) by (induction xs) (simp_all, metis add_le_mono)
  from this [of "fold_char c"] show "length (fold_bytes c) \<le> 12"
    using fold_char_short(2) [of c] by (simp add: fold_bytes_def)
  show "fold_bytes c \<noteq> []"
    using fold_char_short(1) [of c] enc_bytes_short(1) by (cases "fold_char c") (auto simp: fold_bytes_def)
qed

lemma utf8_fold_bounds: "length (utf8_fold s) \<le> 12 * length s \<and> (s \<noteq> [] \<longrightarrow> utf8_fold s \<noteq> [])"
proof (induction s rule: utf8_fold.induct)
  case (1 s)
  show ?case
  proof (cases "s = []")
    case True
    then show ?thesis by (simp add: utf8_fold.simps)
  next
    case False
    obtain k c where it: "cmark_utf8proc_iterate s (int (length s)) = Inr (k, c)" "k \<le> int (length s)"
      using iterate_prefix [OF False, of "[]"] by auto
    show ?thesis
    proof (cases "k \<ge> 0")
      case True
      then have k: "1 \<le> nat k" "nat k \<le> length s" using iterate_range [OF it(1)] it(2) by auto
      have "length (utf8_fold (drop (nat k) s)) \<le> 12 * length (drop (nat k) s)"
        using "1.IH"(1) [OF False it(1) refl True] by blast
      then have "length (fold_bytes c) + length (utf8_fold (drop (nat k) s)) \<le> 12 * length s"
        using fold_bytes_short(2) [of c] k by simp
      moreover have "utf8_fold s = fold_bytes c @ utf8_fold (drop (nat k) s)"
        using False it(1) True by (subst utf8_fold.simps) simp
      ultimately show ?thesis using fold_bytes_short(1) [of c] by simp
    next
      case neg: False
      have "length (utf8_fold (tl s)) \<le> 12 * length (tl s)"
        using "1.IH"(2) [OF False it(1) refl neg] by blast
      moreover have "utf8_fold s = repl @ utf8_fold (tl s)"
        using False it(1) neg by (subst utf8_fold.simps) simp
      ultimately show ?thesis using False by (cases s) (simp_all add: repl_def)
    qed
  qed
qed

lemma cstr_terminated: "cstr (s @ NUL # t) = cstr s"
  by (induction s) (simp_all add: cstr_def)

text \<open>The normal form of a label, up to the first NUL.\<close>

definition label_key :: "byte list \<Rightarrow> byte list" where
  "label_key s = cstr (collapse_spaces False (trim_right (trim_left (utf8_fold s))))"

lemma normalize_label:
  assumes "chunk_ok c" "ch_len c \<noteq> 0" "ch_len c \<le> MAX_LINK_LABEL_LENGTH"
  shows "\<exists>blk. normalize_map_label m (Some c) = Inr (if label_key (chunk_bytes c) = [] then None else Some blk) \<and>
    NUL \<in> set blk \<and> cstr blk = label_key (chunk_bytes c)"
proof -
  let ?s = "chunk_bytes c"
  obtain d where d: "ch_data c = Some d" "ch_len c \<le> int (length d)"
    using assms(1,2) by (auto simp: chunk_ok_def split: option.splits)
  have s: "d = ?s @ drop (nat (ch_len c)) d" "int (length ?s) = ch_len c" "?s \<noteq> []"
    using d assms(1,2) by (auto simp: chunk_bytes_def chunk_ok_def)
  have "int (length (utf8_fold ?s)) \<le> 12 * int (length ?s)"
    using utf8_fold_bounds [of ?s] by linarith
  also have "\<dots> \<le> 12 * 1000" using s(2) assms(3) by (simp add: MAX_LINK_LABEL_LENGTH_def)
  also have "\<dots> \<le> grow_limit" by (simp add: grow_limit_def INT32_MAX_def)
  finally have len: "int (length (contents (strbuf_empty m)) + length (utf8_fold ?s)) \<le> grow_limit" by simp
  obtain b where b: "cmark_utf8proc_case_fold (strbuf_empty m) d (ch_len c) = Inr b"
    "contents b = utf8_fold ?s" "strbuf_good b"
    using app_run [OF case_fold_appends [of ?s "drop (nat (ch_len c)) d"] ok_inv [OF strbuf_empty_ok(1)] len]
      s ok_good [OF strbuf_empty_ok(1)] by auto
  have "strbuf_ok b" using good_ok [OF b(3)] b(2) utf8_fold_bounds [of ?s] s(3) by simp
  then obtain b1 where b1: "cmark_strbuf_trim b = Inr b1" "strbuf_ok b1"
    "contents b1 = trim_right (trim_left (utf8_fold ?s))"
    using trim_becomes [of b] b(2) by (auto simp: becomes_def)
  then obtain b2 where b2: "cmark_strbuf_normalize_whitespace b1 = Inr b2" "strbuf_ok b2"
    "contents b2 = collapse_spaces False (trim_right (trim_left (utf8_fold ?s)))"
    using normalize_becomes [of b1] by (auto simp: becomes_def)
  obtain blk tail b3 where b3: "cmark_strbuf_detach b2 = Inr (blk, b3)" "blk = contents b2 @ NUL # tail"
    using detach_contents [OF b2(2)] by fastforce
  have key: "cstr blk = label_key ?s"
    unfolding b3(2) b2(3) label_key_def by (rule cstr_terminated)
  have "blk \<noteq> []" using b3(2) by simp
  then have "peek blk 0 = Inr (hd blk)" "hd blk = NUL \<longleftrightarrow> cstr blk = []"
    by (cases blk; simp add: cstr_def)+
  then have "normalize_map_label m (Some c) = Inr (if label_key ?s = [] then None else Some blk)"
    using assms(2) d(1) b(1) b1(1) b2(1) b3(1) key
    by (simp add: normalize_map_label_def chunk_block_def)
  then show ?thesis using key b3(2) by (intro exI [of _ blk]) simp
qed

section \<open>Cleaning URLs and titles\<close>

lemma entity_value_short: "entity_value name = Some bs \<Longrightarrow> bs \<noteq> [] \<and> length bs \<le> 7"
proof -
  assume "entity_value name = Some bs"
  then obtain e where e: "e \<in> set cmark_entities" "bs = takeWhile (\<lambda>b. b \<noteq> NUL) (snd e)"
    by (auto simp: entity_value_def dest!: map_of_SomeD)
  then have ok: "hd (snd e) \<noteq> NUL" "NUL \<in> set (snd e)" "length (snd e) \<le> 8"
    using entities_ok by (auto simp: list_all_iff entity_ok_def)
  obtain as cs where split: "snd e = as @ NUL # cs" "NUL \<notin> set as" using split_list_first [OF ok(2)] by blast
  then have "takeWhile (\<lambda>b. b \<noteq> NUL) (snd e) = as" by (induction as arbitrary: e) auto
  then show ?thesis using ok e(2) split by (cases as) auto
qed

lemma char_ref_short: "char_ref s = Some (n, bs) \<Longrightarrow> bs \<noteq> [] \<and> length bs \<le> 2 * n + 2"
proof -
  assume r: "char_ref s = Some (n, bs)"
  have num: "bs \<noteq> [] \<and> length bs \<le> 2 * n + 2" if "numeric_ref 8 start k v s = Some (n, bs)" for start k v
    using that by (auto simp: numeric_ref_def encode_bytes_def split: if_splits)
  have name: "bs \<noteq> [] \<and> length bs \<le> 2 * n + 2" if "named_ref t = Some (n, bs)" for t
  proof -
    have "3 \<le> n \<and> (\<exists>nm. entity_value nm = Some bs)"
      using that by (auto simp: named_ref_def Let_def split: if_splits)
    then show ?thesis using entity_value_short by fastforce
  qed
  show ?thesis
    using r num name by (auto simp: char_ref_def ref_upto_def Let_def split: if_splits)
qed

lemma html_unescape_bounds: "length (html_unescape s) \<le> 2 * length s \<and> (s \<noteq> [] \<longrightarrow> html_unescape s \<noteq> [])"
proof (induction "length s" arbitrary: s rule: less_induct)
  case less
  show ?case
  proof (cases s)
    case (Cons c u)
    have tail: "length (html_unescape (drop n u)) \<le> 2 * length (drop n u)" for n
      using less.hyps [of "drop n u"] Cons by simp
    show ?thesis
    proof (cases "c = AMP \<and> char_ref u \<noteq> None")
      case True
      then obtain n bs where nb: "char_ref u = Some (n, bs)" by auto
      have "n \<le> length u" "bs \<noteq> []" "length bs \<le> 2 * n + 2"
        using char_ref_bounds char_ref_short nb by blast+
      then show ?thesis using tail [of n] True nb Cons by (simp add: html_unescape_Cons)
    next
      case False
      then show ?thesis using tail [of 0] Cons by (cases "char_ref u") (auto simp: html_unescape_Cons)
    qed
  qed simp
qed

lemma unescape_ne: "s \<noteq> [] \<Longrightarrow> unescape s \<noteq> []"
  by (cases s rule: unescape.cases) auto

text \<open>The two steps that all the strings go through.\<close>

definition clean :: "byte list \<Rightarrow> byte list" where
  "clean s = unescape (html_unescape s)"

lemma clean_length: "length (clean s) \<le> 2 * length s"
  using length_unescape_le [of "html_unescape s"] html_unescape_bounds [of s] by (simp add: clean_def)

lemma clean_steps:
  assumes "0 \<le> n" "n \<le> int (length d)" "2 * n \<le> grow_limit" "NUL \<notin> set (take (nat n) d)"
  shows "\<exists>c. bindr (houdini_unescape_html_f (strbuf_empty m) d n) (\<lambda>buf.
       bindr (cmark_strbuf_unescape buf) (\<lambda>buf.
       bindr (cmark_chunk_buf_detach buf) (\<lambda>(result, _). Inr result))) = Inr c \<and>
     chunk_ok c \<and> ch_alloc c \<and> chunk_bytes c = clean (take (nat n) d)"
proof -
  let ?s = "take (nat n) d"
  have l: "int (length ?s) = n" using assms(1,2) by simp
  have "int (length (html_unescape ?s)) \<le> 2 * n" using html_unescape_bounds [of ?s] l by linarith
  then have len: "int (length (contents (strbuf_empty m)) + length (html_unescape ?s)) \<le> grow_limit"
    using assms(3) by simp
  have "n \<le> grow_limit" using assms(1,3) by linarith
  from app_run [OF unescape_html_f_appends [OF assms(1,2) this assms(4)] ok_inv [OF strbuf_empty_ok(1)] len]
  obtain b where b: "houdini_unescape_html_f (strbuf_empty m) d n = Inr b" "contents b = html_unescape ?s"
    "strbuf_good b"
    using ok_good [OF strbuf_empty_ok(1)] by auto
  have "strbuf_ok b"
  proof (cases "?s = []")
    case True
    then have "n = 0" using l by (simp only: list.size of_nat_0)
    then have "b = strbuf_empty m"
      using b(1) by (simp add: houdini_unescape_html_f_def houdini_unescape_html_def unescape_html_loop.simps)
    then show ?thesis by simp
  next
    case False
    then show ?thesis using good_ok [OF b(3)] b(2) html_unescape_bounds [of ?s] by simp
  qed
  then obtain b1 where b1: "cmark_strbuf_unescape b = Inr b1" "strbuf_ok b1" "contents b1 = clean ?s"
    using unescape_becomes [of b] b(2) by (auto simp: becomes_def clean_def)
  then show ?thesis using b(1) buf_detach_bytes [OF b1(2)] by auto
qed

lemma clean_url_ok:
  assumes "chunk_ok url" "\<not> ch_alloc url" "2 * ch_len url \<le> grow_limit" "NUL \<notin> set (chunk_bytes url)"
  shows "\<exists>c url'. cmark_clean_url m url = Inr (c, url') \<and> chunk_ok c \<and>
    chunk_bytes c = clean (trim_right (trim_left (chunk_bytes url)))"
proof -
  let ?t = "trim_right (trim_left (chunk_bytes url))"
  obtain u where u: "cmark_chunk_trim url = Inr u" "chunk_ok u" "\<not> ch_alloc u" "chunk_bytes u = ?t"
    using trim_bytes [OF assms(1,2)] by (auto simp: slice_def)
  have sub: "set ?t \<subseteq> set (chunk_bytes url)" "length ?t \<le> length (chunk_bytes url)"
  proof -
    obtain w where w: "trim_left (chunk_bytes url) = ?t @ w" using trim_right_append by blast
    have "set (trim_left s) \<subseteq> set s" "length (trim_left s) \<le> length s" for s
      by (auto simp: trim_left_def length_dropWhile_le dest: set_dropWhileD)
    from this [of "chunk_bytes url"] show "set ?t \<subseteq> set (chunk_bytes url)" "length ?t \<le> length (chunk_bytes url)"
      using arg_cong [OF w, of set] arg_cong [OF w, of length] by auto
  qed
  show ?thesis
  proof (cases "ch_len u = 0")
    case True
    then have "?t = []" using u chunk_len [OF u(2)] by simp
    then show ?thesis
      using True u(1) by (simp add: cmark_clean_url_def clean_def)
  next
    case False
    then obtain d where d: "ch_data u = Some d" "0 \<le> ch_len u" "ch_len u \<le> int (length d)"
      using u(2) by (auto simp: chunk_ok_def split: option.splits)
    then have t: "take (nat (ch_len u)) d = ?t" using u(4) by (simp add: chunk_bytes_def)
    have "2 * ch_len u \<le> grow_limit"
      using sub(2) assms(3) chunk_len [OF u(2)] chunk_len [OF assms(1)] unfolding u(4) by linarith
    moreover have "NUL \<notin> set (take (nat (ch_len u)) d)" unfolding t using sub(1) assms(4) by blast
    ultimately obtain c where
      "bindr (houdini_unescape_html_f (strbuf_empty m) d (ch_len u)) (\<lambda>buf.
       bindr (cmark_strbuf_unescape buf) (\<lambda>buf.
       bindr (cmark_chunk_buf_detach buf) (\<lambda>(result, _). Inr result))) = Inr c" "chunk_ok c"
      "chunk_bytes c = clean ?t"
      using clean_steps [OF d(2,3), of m] t by auto
    then show ?thesis
      using False u(1) d(1) by (auto simp: cmark_clean_url_def chunk_block_def)
  qed
qed

definition quoted :: "byte list \<Rightarrow> bool" where
  "quoted t \<longleftrightarrow> t \<noteq> [] \<and> (hd t, last t) \<in> {(SQUOTE, SQUOTE), (LPAREN, RPAREN), (DQUOTE, DQUOTE)}"

definition title_text :: "byte list \<Rightarrow> byte list" where
  "title_text t = (if quoted t then butlast (tl t) else t)"

lemma clean_title_ok:
  assumes "chunk_ok title" "2 * ch_len title \<le> grow_limit" "NUL \<notin> set (chunk_bytes title)"
  shows "\<exists>c. cmark_clean_title m title = Inr c \<and> chunk_ok c \<and>
    chunk_bytes c = clean (title_text (chunk_bytes title))"
proof (cases "ch_len title = 0")
  case True
  then have "chunk_bytes title = []" using chunk_len [OF assms(1)] by simp
  then show ?thesis using True by (simp add: cmark_clean_title_def title_text_def quoted_def clean_def)
next
  case False
  let ?t = "chunk_bytes title" and ?n = "ch_len title"
  obtain d where d: "ch_data title = Some d" "0 < ?n" "?n \<le> int (length d)"
    using assms(1) False by (auto simp: chunk_ok_def split: option.splits)
  have t: "?t = take (nat ?n) d" "?t \<noteq> []" "int (length ?t) = ?n"
    using d by (auto simp: chunk_bytes_def)
  have ends: "chunk_at title 0 = Inr (hd ?t)" "chunk_at title (?n - 1) = Inr (last ?t)"
  proof -
    show "chunk_at title 0 = Inr (hd ?t)"
      using d by (cases d) (simp_all add: chunk_at_def chunk_block_def t(1) take_Cons')
    have k: "length ?t = nat ?n" "nat (?n - 1) = nat ?n - 1" using t(3) d(2) by linarith+
    have "last ?t = ?t ! (nat ?n - 1)" using last_conv_nth [OF t(2)] k(1) by simp
    also have "\<dots> = d ! nat (?n - 1)" unfolding t(1) k(2) using d(2) by (intro nth_take) simp
    finally have "last ?t = d ! nat (?n - 1)" .
    then show "chunk_at title (?n - 1) = Inr (last ?t)"
      using d by (simp add: chunk_at_def chunk_block_def peek_def)
  qed
  let ?rest = "\<lambda>r. bindr r (\<lambda>buf. bindr (cmark_strbuf_unescape buf) (\<lambda>buf.
       bindr (cmark_chunk_buf_detach buf) (\<lambda>(result, _). Inr result)))"
  have run: "cmark_clean_title m title =
      ?rest (if quoted ?t then houdini_unescape_html_f (strbuf_empty m) (drop 1 d) (?n - 2)
             else houdini_unescape_html_f (strbuf_empty m) d ?n)"
    using False ends d(1) t(2) by (auto simp: cmark_clean_title_def chunk_block_def quoted_def)
  show ?thesis
  proof (cases "quoted ?t")
    case False
    then show ?thesis
      using run clean_steps [of ?n d m] d assms(2,3) t by (auto simp: title_text_def)
  next
    case q: True
    show ?thesis
    proof (cases "?n = 1")
      case True
      then have "length ?t = 1" using t(3) by simp
      then have "butlast (tl ?t) = []" by (cases ?t) auto
      moreover have "houdini_unescape_html_f (strbuf_empty m) (drop 1 d) (?n - 2) =
          houdini_unescape_html_f (strbuf_empty m) (drop 1 d) 0"
        using True by (simp add: houdini_unescape_html_f_def houdini_unescape_html_def unescape_html_loop.simps)
      moreover have "0 \<le> int (length (drop 1 d))" "2 * (0 :: int) \<le> grow_limit"
        by (simp_all add: grow_limit_def INT32_MAX_def)
      ultimately show ?thesis
        using run q clean_steps [of 0 "drop 1 d" m] by (auto simp: title_text_def)
    next
      case False
      have k: "nat ?n = Suc (Suc (nat (?n - 2)))" using False d(2) by linarith
      have "Suc (nat (?n - 2)) \<le> length d - 1" using d(2,3) k by linarith
      then have mid: "take (nat (?n - 2)) (drop 1 d) = butlast (tl ?t)"
        using d(2,3) unfolding t(1) k by (cases d) (simp_all add: butlast_take)
      have "NUL \<notin> set (butlast (tl ?t))" using assms(3) t(2) by (meson in_set_butlastD list.set_sel(2))
      then show ?thesis
        using run q clean_steps [of "?n - 2" "drop 1 d" m] mid False d assms(2) by (auto simp: title_text_def)
    qed
  qed
qed

end
