(* ===== verification/Ref_Lookup.thy ===== *)
theory Ref_Lookup
  imports Ref_Map "HOL-Library.Product_Lexorder" "HOL-Library.Multiset"
begin

text \<open>
  Sorting, searching and creating the entries of a reference map: the proof that the sorted array
  with its duplicates dropped and its binary search implement the association list of the entries,
  oldest first.  The locales \<open>comparator\<close> and \<open>searcher\<close> are the contracts of \<open>qsort\<close> and \<open>bsearch\<close>
  with their comparison functions, interpreted on \<open>refcmp\<close> and \<open>refsearch\<close>.
\<close>

section \<open>Sorting with a comparator\<close>

text \<open>What a comparison function promises: it compares by a key.\<close>

locale comparator =
  fixes cmp :: "'e \<Rightarrow> 'e \<Rightarrow> int" and key :: "'e \<Rightarrow> 'k :: linorder"
  assumes cmp_key: "cmp x y \<le> 0 \<longleftrightarrow> key x \<le> key y"
begin

lemma set_insert_by: "set (insert_by cmp x ys) = insert x (set ys)"
  by (induction ys) auto

lemma insert_sorted: "sorted (map key ys) \<Longrightarrow> sorted (map key (insert_by cmp x ys)) \<and>
    mset (insert_by cmp x ys) = add_mset x (mset ys)"
proof (induction ys)
  case (Cons y ys)
  then show ?case by (auto simp: cmp_key set_insert_by)
qed simp

lemma qsort_sorted: "sorted (map key (qsort cmp xs)) \<and> mset (qsort cmp xs) = mset xs"
  unfolding qsort_def using insert_sorted by (induction xs) auto

end

definition entry_key :: "'a cmark_map_entry_scheme \<Rightarrow> byte list" where
  "entry_key e = cstr (me_label e)"

definition entry_age :: "'a cmark_map_entry_scheme \<Rightarrow> int" where
  "entry_age e = int_of_size (me_age e)"

lemma labelcmp_0: "labelcmp a b = 0 \<longleftrightarrow> cstr a = cstr b"
  by (auto simp: labelcmp_def)

interpretation ref_order: comparator refcmp "\<lambda>e. (entry_key e, entry_age e)"
proof
  fix x y :: "'a cmark_map_entry_scheme"
  show "refcmp x y \<le> 0 \<longleftrightarrow> (entry_key x, entry_age x) \<le> (entry_key y, entry_age y)"
    by (cases "entry_key x" "entry_key y" rule: linorder_cases)
      (auto simp: refcmp_def Let_def labelcmp_def entry_key_def entry_age_def less_eq_prod_def)
qed

text \<open>Searching a strictly sorted array with a function that compares with the key sought.\<close>

locale searcher =
  fixes compar :: "'e \<Rightarrow> int" and key :: "'e \<Rightarrow> 'k :: linorder" and k :: 'k
  assumes below: "compar x < 0 \<longleftrightarrow> k < key x" and above: "compar x > 0 \<longleftrightarrow> key x < k"
begin

lemma bsearch_range:
  assumes "sorted_wrt (<) (map key base)"
  shows "u \<le> length base \<Longrightarrow> \<forall>i < length base. key (base ! i) = k \<longrightarrow> l \<le> i \<and> i < u \<Longrightarrow>
    (case bsearch compar base l u of
       None \<Rightarrow> \<forall>i < length base. key (base ! i) \<noteq> k
     | Some e \<Rightarrow> e \<in> set base \<and> key e = k)"
proof (induction "u - l" arbitrary: l u rule: less_induct)
  case less
  have less_key: "key (base ! i) < key (base ! j)" if "i < j" "j < length base" for i j
    using assms that by (auto simp: sorted_wrt_iff_nth_less)
  let ?idx = "(l + u) div 2"
  show ?case
  proof (cases "l < u")
    case False
    then show ?thesis using less.prems by (fastforce simp: bsearch.simps)
  next
    case True
    then have idx: "l \<le> ?idx" "?idx < u" "?idx < length base" using less.prems(1) by auto
    consider "compar (base ! ?idx) < 0" | "compar (base ! ?idx) > 0" | "compar (base ! ?idx) = 0" by linarith
    then show ?thesis
    proof cases
      case 1
      then have "k < key (base ! ?idx)" by (simp add: below)
      then have "i < ?idx" if "i < length base" "key (base ! i) = k" for i
        using that less_key [of ?idx i] by (cases i ?idx rule: linorder_cases) auto
      then show ?thesis
        using less.hyps [of ?idx l] less.prems idx 1 by (subst bsearch.simps) (auto simp: Let_def)
    next
      case 2
      then have "key (base ! ?idx) < k" by (simp add: above)
      then have "?idx < i" if "i < length base" "key (base ! i) = k" for i
        using that less_key [of i ?idx] idx(3) by (cases i ?idx rule: linorder_cases) auto
      then show ?thesis
        using less.hyps [of u "?idx + 1"] less.prems idx 2
        by (subst bsearch.simps) (auto simp: Let_def Suc_le_eq)
    next
      case 3
      then have "key (base ! ?idx) = k" using below [of "base ! ?idx"] above [of "base ! ?idx"] by simp
      then show ?thesis using 3 True idx(3) by (subst bsearch.simps) (simp add: Let_def)
    qed
  qed
qed

lemma bsearch_find:
  assumes "sorted_wrt (<) (map key base)"
  shows "bsearch compar base 0 (length base) = map_of (map (\<lambda>e. (key e, e)) base) k"
proof -
  have d: "distinct (map key base)" using assms strict_sorted_iff by blast
  have "case bsearch compar base 0 (length base) of
       None \<Rightarrow> \<forall>i < length base. key (base ! i) \<noteq> k | Some e \<Rightarrow> e \<in> set base \<and> key e = k"
    by (rule bsearch_range [OF assms]) simp_all
  then show ?thesis
  proof (cases "bsearch compar base 0 (length base)")
    case None
    then have "k \<notin> set (map key base)" using \<open>case _ of None \<Rightarrow> _ | Some e \<Rightarrow> _ e\<close> by (auto simp: in_set_conv_nth)
    then have "map_of (map (\<lambda>e. (key e, e)) base) k = None"
      unfolding map_of_eq_None_iff by (simp add: image_image)
    then show ?thesis using None by simp
  next
    case (Some e)
    then have "(k, e) \<in> set (map (\<lambda>e. (key e, e)) base)" using \<open>case _ of None \<Rightarrow> _ | Some e \<Rightarrow> _ e\<close> by force
    then show ?thesis using Some d by (simp add: map_of_is_SomeI comp_def del: set_map)
  qed
qed

end

interpretation ref_search: searcher "refsearch label" entry_key "cstr label"
  by unfold_locales (auto simp: refsearch_def labelcmp_def entry_key_def)

section \<open>Dropping the duplicates\<close>

fun drop_equal :: "'a cmark_map_entry_scheme \<Rightarrow> 'a cmark_map_entry_scheme list \<Rightarrow> 'a cmark_map_entry_scheme list" where
  "drop_equal x [] = []"
| "drop_equal x (y # ys) = (if entry_key y \<noteq> entry_key x then y # drop_equal y ys else drop_equal x ys)"

lemma unique_loop_eq:
  "\<exists>junk'. unique_loop (kept @ x # junk @ rest) (Suc (length (kept @ junk))) (length kept)
       (Suc (length (kept @ junk @ rest))) =
     (kept @ x # drop_equal x rest @ junk', length kept + length (drop_equal x rest))"
proof (induction rest arbitrary: kept x junk)
  case Nil
  then show ?case by (subst unique_loop.simps) simp
next
  case (Cons y rest)
  let ?arr = "kept @ x # junk @ y # rest"
  have at: "?arr ! Suc (length (kept @ junk)) = y" "?arr ! length kept = x"
    using nth_append_length [of "kept @ x # junk" y rest] by simp_all
  show ?case
  proof (cases "entry_key y = entry_key x")
    case True
    have "unique_loop ?arr (Suc (length (kept @ junk))) (length kept) (Suc (length (kept @ junk @ y # rest))) =
        unique_loop (kept @ x # (junk @ [y]) @ rest) (Suc (length (kept @ junk @ [y]))) (length kept)
          (Suc (length (kept @ (junk @ [y]) @ rest)))"
      using at True by (subst unique_loop.simps) (simp add: labelcmp_0 entry_key_def)
    then show ?thesis using Cons.IH [of kept x "junk @ [y]"] True by simp
  next
    case False
    show ?thesis
    proof (cases junk)
      case Nil
      have "unique_loop ?arr (Suc (length (kept @ junk))) (length kept) (Suc (length (kept @ junk @ y # rest))) =
          unique_loop ((kept @ [x]) @ y # [] @ rest) (Suc (length ((kept @ [x]) @ []))) (length (kept @ [x]))
            (Suc (length ((kept @ [x]) @ [] @ rest)))"
        using at False Nil list_update_length [of "kept @ [x]" y rest y]
        by (subst unique_loop.simps) (simp add: labelcmp_0 entry_key_def)
      then show ?thesis using Cons.IH [of "kept @ [x]" y "[]"] False by simp
    next
      case (Cons z zs)
      have "?arr[Suc (length kept) := y] = (kept @ [x]) @ y # (zs @ [y]) @ rest"
        using list_update_length [of "kept @ [x]" z "zs @ y # rest" y] Cons by simp
      then have "unique_loop ?arr (Suc (length (kept @ junk))) (length kept) (Suc (length (kept @ junk @ y # rest))) =
          unique_loop ((kept @ [x]) @ y # (zs @ [y]) @ rest) (Suc (length ((kept @ [x]) @ zs @ [y]))) (length (kept @ [x]))
            (Suc (length ((kept @ [x]) @ (zs @ [y]) @ rest)))"
        using at False Cons by (subst unique_loop.simps) (simp add: labelcmp_0 entry_key_def)
      then show ?thesis using Cons.IH [of "kept @ [x]" y "zs @ [y]"] False by simp
    qed
  qed
qed

text \<open>On a list sorted by label this keeps the first entry of every label.\<close>

lemma drop_equal_sorted:
  "sorted (map entry_key (x # xs)) \<Longrightarrow> sorted_wrt (<) (map entry_key (x # drop_equal x xs)) \<and>
     set (drop_equal x xs) \<subseteq> set xs"
proof (induction xs arbitrary: x)
  case (Cons y ys)
  show ?case
  proof (cases "entry_key y = entry_key x")
    case True
    then show ?thesis using Cons.IH [of x] Cons.prems by auto
  next
    case False
    then have "entry_key x < entry_key y" using Cons.prems by auto
    then show ?thesis using Cons.IH [of y] Cons.prems False by (auto intro: order.strict_trans)
  qed
qed simp

definition bindings :: "'a cmark_map_entry_scheme list \<Rightarrow> byte list \<rightharpoonup> 'a cmark_map_entry_scheme" where
  "bindings es = map_of (map (\<lambda>e. (entry_key e, e)) es)"

lemma bindings_Cons: "bindings (e # es) k = (if entry_key e = k then Some e else bindings es k)"
  by (simp add: bindings_def)

lemma bindings_drop_equal:
  "sorted (map entry_key (x # xs)) \<Longrightarrow> bindings (x # drop_equal x xs) = bindings (x # xs)"
proof (induction xs arbitrary: x)
  case (Cons y ys)
  then have "bindings (y # drop_equal y ys) = bindings (y # ys)" "bindings (x # drop_equal x ys) = bindings (x # ys)"
    by simp_all
  then show ?case by (auto simp: fun_eq_iff bindings_Cons)
qed simp

text \<open>The binding of a label is its oldest entry, in whatever order that respects the ages.\<close>

definition oldest_first :: "'a cmark_map_entry_scheme list \<Rightarrow> bool" where
  "oldest_first = sorted_wrt (\<lambda>a b. entry_key a = entry_key b \<longrightarrow> entry_age a < entry_age b)"

lemma bindings_oldest:
  "oldest_first es \<Longrightarrow> bindings es k = Some e \<longleftrightarrow>
     e \<in> set es \<and> entry_key e = k \<and> (\<forall>f \<in> set es. entry_key f = k \<longrightarrow> f = e \<or> entry_age e < entry_age f)"
proof (induction es)
  case (Cons x xs)
  have older: "\<forall>y \<in> set xs. entry_key x = entry_key y \<longrightarrow> entry_age x < entry_age y"
    using Cons.prems by (simp add: oldest_first_def)
  have IH: "bindings xs k = Some e \<longleftrightarrow>
      e \<in> set xs \<and> entry_key e = k \<and> (\<forall>f \<in> set xs. entry_key f = k \<longrightarrow> f = e \<or> entry_age e < entry_age f)"
    using Cons by (simp add: oldest_first_def)
  show ?case
  proof (cases "entry_key x = k")
    case True
    then have "bindings (x # xs) k = Some e \<longleftrightarrow> e = x" by (auto simp: bindings_Cons)
    moreover have "\<not> entry_age e < entry_age x" if "e \<in> set xs" "entry_key e = k"
      using older that True by fastforce
    ultimately show ?thesis using True older by auto
  next
    case False
    then show ?thesis using IH by (auto simp: bindings_Cons)
  qed
qed (simp add: bindings_def)

lemma bindings_unique:
  assumes "oldest_first es" "oldest_first fs" "set es = set fs"
  shows "bindings es = bindings fs"
proof (rule ext)
  fix k show "bindings es k = bindings fs k"
  proof (cases "bindings es k")
    case None
    then have "bindings fs k \<noteq> Some e" for e
      using assms(3) by (auto simp: bindings_def map_of_eq_None_iff image_image dest!: map_of_SomeD)
    then show ?thesis using None by (cases "bindings fs k") auto
  next
    case (Some e)
    then have "bindings fs k = Some e"
      using bindings_oldest [OF assms(1), of k e] bindings_oldest [OF assms(2), of k e] assms(3) by simp
    then show ?thesis using Some by simp
  qed
qed

section \<open>The invariant\<close>

definition entry_ok :: "'a cmark_map_entry_scheme \<Rightarrow> bool" where
  "entry_ok e \<longleftrightarrow> NUL \<in> set (me_label e) \<and> entry_key e \<noteq> []"

definition ages_ok :: "'a cmark_map_entry_scheme list \<Rightarrow> bool" where
  "ages_ok es \<longleftrightarrow> length es < 2 ^ 31 \<and> map me_age (rev es) = map word_of_nat [0..<length es]"

definition map_inv :: "'a cmark_map_entry_scheme cmark_map \<Rightarrow> bool" where
  "map_inv m \<longleftrightarrow> ages_ok (refs m) \<and> list_all entry_ok (refs m) \<and> ref_size m \<le> max_ref_size m \<and>
     (case sorted_refs m of
        None \<Rightarrow> unat (map_size m) = length (refs m)
      | Some arr \<Rightarrow>
          0 < unat (map_size m) \<and> unat (map_size m) \<le> length arr \<and>
          sorted_wrt (<) (map entry_key (take (unat (map_size m)) arr)) \<and>
          bindings (take (unat (map_size m)) arr) = bindings (rev (refs m)))"

lemma int_of_size_nat: "k < 2 ^ 31 \<Longrightarrow> int_of_size (word_of_nat k) = int k"
  by (simp add: int_of_size_def signed_of_nat signed_take_bit_int_eq_self_iff unsigned_of_nat take_bit_nat_eq_self)

lemma unat_small: "k < 2 ^ 64 \<Longrightarrow> unat (word_of_nat k :: 64 word) = k"
  by (simp add: unsigned_of_nat take_bit_nat_eq_self)

lemma ages_ok_ages:
  assumes "ages_ok es"
  shows "map entry_age (rev es) = map int [0..<length es]"
proof -
  have "map entry_age (rev es) = map int_of_size (map me_age (rev es))" by (simp add: entry_age_def)
  also have "\<dots> = map (\<lambda>k. int_of_size (word_of_nat k)) [0..<length es]"
    using assms by (simp add: ages_ok_def comp_def)
  also have "\<dots> = map int [0..<length es]"
    using assms by (intro map_cong) (auto simp: ages_ok_def int_of_size_nat)
  finally show ?thesis .
qed

lemma ages_ok_oldest: "ages_ok es \<Longrightarrow> oldest_first (rev es)"
proof -
  assume "ages_ok es"
  then have "sorted_wrt (<) (map entry_age (rev es))"
    by (simp add: ages_ok_ages sorted_wrt_map del: map_map)
  then show ?thesis unfolding oldest_first_def sorted_wrt_map by (rule sorted_wrt_mono_rel [rotated]) simp
qed

lemma qsort_refs:
  assumes "ages_ok es"
  defines "ys \<equiv> qsort refcmp es"
  shows "sorted (map entry_key ys)" "oldest_first ys" "set ys = set es" "length ys = length es"
proof -
  have q: "sorted (map (\<lambda>e. (entry_key e, entry_age e)) ys)" "mset ys = mset es"
    using ref_order.qsort_sorted [of es] by (simp_all add: ys_def)
  show "set ys = set es" "length ys = length es" using q(2) mset_eq_setD mset_eq_length by blast+
  have le: "sorted_wrt (\<lambda>a b. (entry_key a, entry_age a) \<le> (entry_key b, entry_age b)) ys"
    using q(1) by (simp add: sorted_wrt_map)
  then show "sorted (map entry_key ys)"
    unfolding sorted_wrt_map by (rule sorted_wrt_mono_rel [rotated]) (auto simp: less_eq_prod_def)
  have "distinct (map entry_age (rev es))"
    unfolding ages_ok_ages [OF assms(1)] by (simp add: distinct_map)
  then have "distinct (map entry_age ys)"
    using mset_eq_imp_distinct_iff [of "map entry_age ys" "map entry_age es"] q(2) by (simp add: rev_map flip: rev_map)
  then show "oldest_first ys"
    unfolding oldest_first_def sorted_wrt_iff_nth_less
  proof (intro allI impI)
    fix i j assume ij: "i < j" "j < length ys" and "entry_key (ys ! i) = entry_key (ys ! j)"
    then have "entry_age (ys ! i) \<le> entry_age (ys ! j)"
      using le unfolding sorted_wrt_iff_nth_less by (fastforce simp: less_eq_prod_def)
    moreover have "entry_age (ys ! i) \<noteq> entry_age (ys ! j)"
      using \<open>distinct (map entry_age ys)\<close> nth_eq_iff_index_eq [of "map entry_age ys" i j] ij by simp
    ultimately show "entry_age (ys ! i) < entry_age (ys ! j)" by simp
  qed
qed

lemma sort_map_ok:
  assumes "map_inv m" "sorted_refs m = None" "map_size m \<noteq> 0"
  shows "\<exists>m'. sort_map m = Inr m' \<and> map_inv m' \<and> sorted_refs m' \<noteq> None \<and> refs m' = refs m \<and>
    ref_size m' = ref_size m \<and> max_ref_size m' = max_ref_size m \<and> map_mem m' = map_mem m"
proof -
  let ?ys = "qsort refcmp (refs m)"
  have n: "unat (map_size m) = length (refs m)" "ages_ok (refs m)"
    using assms(1,2) by (simp_all add: map_inv_def)
  note q = qsort_refs [OF n(2)]
  have "0 < length (refs m)" using assms(3) n(1) by (simp add: unat_eq_0 [symmetric] del: unat_eq_0)
  then obtain x rest where ys: "?ys = x # rest" using q(4) by (cases ?ys) auto
  let ?u = "drop_equal x rest"
  obtain junk where u: "unique_loop ?ys 1 0 (length (refs m)) = (x # ?u @ junk, length ?u)"
    using unique_loop_eq [of "[]" x "[]" rest] ys q(4) by auto
  let ?m = "m\<lparr>sorted_refs := Some (x # ?u @ junk), map_size := word_of_nat (length ?u + 1)\<rparr>"
  have "length ?u \<le> length rest" by (induction x rest rule: drop_equal.induct) auto
  then have l: "length ?u + 1 < 2 ^ 31" using n(2) q(4) ys by (simp add: ages_ok_def)
  have "map_size ?m = word_of_nat (length ?u + 1)" by simp
  moreover have "length ?u + 1 < 2 ^ 64" using l by simp
  ultimately have sz: "unat (map_size ?m) = length ?u + 1" using unat_small by (simp only:)
  have s: "sorted (map entry_key (x # rest))" using q(1) ys by simp
  have "bindings (x # ?u) = bindings (x # rest)" by (rule bindings_drop_equal [OF s])
  also have "\<dots> = bindings (rev (refs m))"
    using bindings_unique [OF q(2) ages_ok_oldest [OF n(2)]] q(3) ys by simp
  finally have "map_inv ?m"
    using assms(1) drop_equal_sorted [OF s] sz by (simp add: map_inv_def)
  moreover have "sort_map m = Inr ?m"
    using n(1) u by (simp add: sort_map_def Let_def)
  ultimately show ?thesis by simp
qed

lemma bsearch_take: "u \<le> n \<Longrightarrow> n \<le> length base \<Longrightarrow> bsearch compar base l u = bsearch compar (take n base) l u"
proof (induction "u - l" arbitrary: l u rule: less_induct)
  case less
  show ?case
    using less.hyps [of "(l + u) div 2" l] less.hyps [of u "(l + u) div 2 + 1"] less.prems
    by (cases "l < u") (simp_all add: bsearch.simps [of compar base l u] bsearch.simps [of compar "take n base" l u] Let_def)
qed

lemma lookup_sorted:
  assumes "map_inv m" "sorted_refs m = Some arr"
  shows "bsearch (refsearch norm) arr 0 (unat (map_size m)) = bindings (rev (refs m)) (cstr norm)"
proof -
  let ?n = "unat (map_size m)"
  have m: "?n \<le> length arr" "sorted_wrt (<) (map entry_key (take ?n arr))"
    "bindings (take ?n arr) = bindings (rev (refs m))"
    using assms by (simp_all add: map_inv_def)
  have "bsearch (refsearch norm) arr 0 ?n = bsearch (refsearch norm) (take ?n arr) 0 (length (take ?n arr))"
    using bsearch_take [of ?n ?n arr] m(1) by simp
  then show ?thesis using ref_search.bsearch_find [OF m(2)] m(3) by (simp add: bindings_def)
qed

lemma bindings_in: "bindings es k = Some e \<Longrightarrow> e \<in> set es \<and> entry_key e = k"
  by (auto simp: bindings_def dest!: map_of_SomeD)

lemma no_empty_label: "list_all entry_ok es \<Longrightarrow> bindings (rev es) [] = None"
  using bindings_in by (cases "bindings (rev es) []") (fastforce simp: list_all_iff entry_ok_def)+

text \<open>What a lookup may return: the entry, if the budget allows.\<close>

definition afford :: "'a cmark_map_entry_scheme cmark_map \<Rightarrow> 'a cmark_map_entry_scheme option \<Rightarrow>
    'a cmark_map_entry_scheme option" where
  "afford m r = (case r of
     Some e \<Rightarrow> if unat (ref_size m) + unat (me_size e) \<le> unat (max_ref_size m) then Some e else None
   | None \<Rightarrow> None)"

definition cost :: "'a cmark_map_entry_scheme option \<Rightarrow> nat" where
  "cost r = (case r of Some e \<Rightarrow> unat (me_size e) | None \<Rightarrow> 0)"

lemma budget:
  fixes s r x :: "64 word"
  assumes "r \<le> x"
  shows "s > x - r \<longleftrightarrow> \<not> unat r + unat s \<le> unat x"
    "unat r + unat s \<le> unat x \<Longrightarrow> unat (r + s) = unat r + unat s \<and> r + s \<le> x"
proof -
  have "unat (x - r) = unat x - unat r" "unat r \<le> unat x"
    using assms by (simp_all add: unat_sub word_le_nat_alt)
  then show "s > x - r \<longleftrightarrow> \<not> unat r + unat s \<le> unat x" by (auto simp: word_less_nat_alt)
  assume le: "unat r + unat s \<le> unat x"
  moreover have "unat x < 2 ^ 64" using unsigned_less [of x, where ?'a = nat] by simp
  ultimately have "unat (r + s) = unat r + unat s" by (simp add: unat_word_ariths(1))
  then show "unat (r + s) = unat r + unat s \<and> r + s \<le> x" using le by (simp add: word_le_nat_alt)
qed

lemma lookup_ok:
  assumes "map_inv m" "chunk_ok label" "1 \<le> ch_len label" "ch_len label \<le> MAX_LINK_LABEL_LENGTH"
  shows "\<exists>r m'. cmark_map_lookup (Some m) label = Inr (r, Some m') \<and> map_inv m' \<and> refs m' = refs m \<and>
    max_ref_size m' = max_ref_size m \<and>
    r = afford m (bindings (rev (refs m)) (label_key (chunk_bytes label))) \<and>
    unat (ref_size m') = unat (ref_size m) + cost r"
proof -
  let ?k = "label_key (chunk_bytes label)" and ?B = "bindings (rev (refs m))"
  have none: "?thesis" if "cmark_map_lookup (Some m) label = Inr (None, Some m)" "?B ?k = None"
    using that assms(1) by (simp add: afford_def cost_def)
  show ?thesis
  proof (cases "map_size m = 0")
    case True
    then have "refs m = []" using assms(1) by (auto simp: map_inv_def split: option.splits)
    then show ?thesis using True assms(3,4) by (intro none) (simp_all add: cmark_map_lookup_def bindings_def)
  next
    case False
    obtain norm where norm: "normalize_map_label (map_mem m) (Some label) = Inr (if ?k = [] then None else Some norm)"
      "cstr norm = ?k"
      using normalize_label [of label "map_mem m"] assms(2-4) by auto
    show ?thesis
    proof (cases "?k = []")
      case True
      then have "?B ?k = None" using no_empty_label [of "refs m"] assms(1) by (simp add: map_inv_def)
      then show ?thesis
        using True norm(1) assms(3,4) False by (intro none) (simp_all add: cmark_map_lookup_def)
    next
      case k: False
      obtain m1 arr where m1: "(if sorted_refs m = None then sort_map m else Inr m) = Inr m1"
        "map_inv m1" "sorted_refs m1 = Some arr" "refs m1 = refs m" "ref_size m1 = ref_size m"
        "max_ref_size m1 = max_ref_size m"
        using sort_map_ok [OF assms(1) _ False] assms(1) by (cases "sorted_refs m") fastforce+
      have search: "bsearch (refsearch norm) arr 0 (unat (map_size m1)) = ?B ?k"
        using lookup_sorted [OF m1(2,3)] norm(2) m1(4) by simp
      have le: "ref_size m \<le> max_ref_size m" using assms(1) by (simp add: map_inv_def)
      have run: "cmark_map_lookup (Some m) label =
          (case ?B ?k of
             None \<Rightarrow> Inr (None, Some m1)
           | Some r \<Rightarrow>
               if me_size r > max_ref_size m - ref_size m then Inr (None, Some m1)
               else Inr (Some r, Some (m1\<lparr>ref_size := ref_size m + me_size r\<rparr>)))"
        using assms(3,4) False norm(1) k m1 search
        by (simp add: cmark_map_lookup_def split: option.split)
      show ?thesis
      proof (cases "?B ?k")
        case None
        then show ?thesis using run m1 by (simp add: afford_def cost_def)
      next
        case (Some e)
        show ?thesis
        proof (cases "unat (ref_size m) + unat (me_size e) \<le> unat (max_ref_size m)")
          case True
          then have "map_inv (m1\<lparr>ref_size := ref_size m + me_size e\<rparr>)"
            using m1 budget(2) [OF le True] by (simp add: map_inv_def)
          then show ?thesis
            using run Some True m1 budget [OF le, of "me_size e"] by (simp add: afford_def cost_def)
        next
          case False
          then show ?thesis using run Some m1 budget(1) [OF le, of "me_size e"] by (simp add: afford_def cost_def)
        qed
      qed
    qed
  qed
qed

section \<open>Creating entries\<close>

lemma push_entry_inv:
  assumes "map_inv m" "sorted_refs m = None" "entry_ok e" "length (refs m) + 1 < 2 ^ 31"
  shows "map_inv (push_entry m e)"
    "bindings (rev (refs (push_entry m e))) k =
       (case bindings (rev (refs m)) k of
          Some r \<Rightarrow> Some r
        | None \<Rightarrow> if entry_key e = k then Some (e\<lparr>me_age := map_size m\<rparr>) else None)"
proof -
  let ?e = "e\<lparr>me_age := map_size m\<rparr>"
  have n: "unat (map_size m) = length (refs m)" using assms(1,2) by (simp add: map_inv_def)
  have "map_size m = word_of_nat (unat (map_size m))" by simp
  then have "map_size m = word_of_nat (length (refs m))" unfolding n .
  then have "ages_ok (?e # refs m)" using assms(1,4) by (simp add: ages_ok_def map_inv_def)
  moreover have "unat (map_size m + 1) = length (refs m) + 1"
    using n assms(4) by (simp add: unat_word_ariths(1))
  moreover have "entry_ok ?e" using assms(3) by (simp add: entry_ok_def entry_key_def)
  ultimately show "map_inv (push_entry m e)"
    using assms(1,2) by (simp add: map_inv_def push_entry_def)
  show "bindings (rev (refs (push_entry m e))) k =
       (case bindings (rev (refs m)) k of Some r \<Rightarrow> Some r | None \<Rightarrow> if entry_key e = k then Some ?e else None)"
    by (simp add: push_entry_def bindings_def map_add_def entry_key_def split: option.splits)
qed

text \<open>Chunks as the parser cuts them out of its input, short enough for the buffers.\<close>

definition input_chunk :: "cmark_chunk \<Rightarrow> bool" where
  "input_chunk c \<longleftrightarrow> chunk_ok c \<and> \<not> ch_alloc c \<and> 2 * ch_len c \<le> grow_limit \<and> NUL \<notin> set (chunk_bytes c)"

lemma reference_create_ok:
  assumes m: "map_inv m" "sorted_refs m = None" "length (refs m) + 1 < 2 ^ 31"
    and label: "chunk_ok label" "1 \<le> ch_len label" "ch_len label \<le> MAX_LINK_LABEL_LENGTH"
    and url: "input_chunk url" and title: "input_chunk title"
  defines "key \<equiv> label_key (chunk_bytes label)"
  shows "if key = [] then cmark_reference_create m (Some label) url title = Inr m
    else \<exists>e. cmark_reference_create m (Some label) url title = Inr (push_entry m e) \<and>
      entry_ok e \<and> entry_key e = key \<and> chunk_ok (ref_url e) \<and> chunk_ok (ref_title e) \<and>
      chunk_bytes (ref_url e) = clean (trim_right (trim_left (chunk_bytes url))) \<and>
      chunk_bytes (ref_title e) = clean (title_text (chunk_bytes title)) \<and>
      unat (me_size e) = length (chunk_bytes (ref_url e)) + length (chunk_bytes (ref_title e))"
proof -
  obtain blk where blk: "normalize_map_label (map_mem m) (Some label) = Inr (if key = [] then None else Some blk)"
    "NUL \<in> set blk" "cstr blk = key"
    using normalize_label [of label "map_mem m"] label unfolding key_def by auto
  obtain u url' where u: "cmark_clean_url (map_mem m) url = Inr (u, url')" "chunk_ok u"
    "chunk_bytes u = clean (trim_right (trim_left (chunk_bytes url)))"
    using clean_url_ok url unfolding input_chunk_def by blast
  obtain t where t: "cmark_clean_title (map_mem m) title = Inr t" "chunk_ok t"
    "chunk_bytes t = clean (title_text (chunk_bytes title))"
    using clean_title_ok title unfolding input_chunk_def by blast
  have lens: "ch_len u \<le> grow_limit" "ch_len t \<le> grow_limit" "0 \<le> ch_len u" "0 \<le> ch_len t"
  proof -
    have trim: "length (trim_right (trim_left s)) \<le> length s" for s
      by (simp add: trim_right_def trim_left_def) (metis le_trans length_dropWhile_le length_rev)
    have inner: "length (title_text s) \<le> length s" for s by (simp add: title_text_def)
    show "ch_len u \<le> grow_limit"
      using clean_length [of "trim_right (trim_left (chunk_bytes url))"] trim [of "chunk_bytes url"]
        chunk_len [OF u(2)] url chunk_len [of url] unfolding u(3) input_chunk_def by linarith
    show "ch_len t \<le> grow_limit"
      using clean_length [of "title_text (chunk_bytes title)"] inner [of "chunk_bytes title"]
        chunk_len [OF t(2)] title chunk_len [of title] unfolding t(3) input_chunk_def by linarith
  qed (use u(2) t(2) in \<open>simp_all add: chunk_ok_def\<close>)
  then have sum: "int32 (ch_len u + ch_len t)" "0 \<le> ch_len u + ch_len t" "ch_len u + ch_len t \<le> INT32_MAX"
    by (simp_all add: int32_def grow_limit_def INT32_MAX_def INT32_MIN_def)
  let ?e = "\<lparr>me_label = blk, me_age = 0, me_size = word_of_int (ch_len u + ch_len t),
      is_attributes_reference = False, ref_url = u, ref_title = t, ref_attributes = empty_literal\<rparr>"
  have w: "uint (word_of_int k :: 64 word) = k" if "0 \<le> k" "k \<le> INT32_MAX" for k
    using that by (simp add: uint_word_of_int INT32_MAX_def)
  have "me_size ?e = word_of_int (ch_len u + ch_len t)" by simp
  then have "uint (me_size ?e) = ch_len u + ch_len t" using w [OF sum(2,3)] by (simp only:)
  then have "unat (me_size ?e) = length (chunk_bytes u) + length (chunk_bytes t)"
    using chunk_len [OF u(2)] chunk_len [OF t(2)] by (simp only: unat_eq_nat_uint)
  then show ?thesis
    using blk u t m(2) sum(1) by (auto simp: cmark_reference_create_def add_i32_def entry_ok_def entry_key_def
        intro!: exI [of _ ?e])
qed

section \<open>Properties\<close>

text \<open>
  C14: Looking up a label in a reference map returns the first entry whose normalised label is the
  normalised label asked for (whatever sorting, dropping of duplicates and binary search do), or
  nothing when the size of that entry would exceed what is left of the budget; it keeps the
  invariant and the entries of the map and charges the size of what it returns.
\<close>

theorem lookup_refines:
  assumes "map_inv m" "chunk_ok label" "1 \<le> ch_len label" "ch_len label \<le> MAX_LINK_LABEL_LENGTH"
  shows "\<exists>r m'. cmark_map_lookup (Some m) label = Inr (r, Some m') \<and> map_inv m' \<and> refs m' = refs m \<and>
    max_ref_size m' = max_ref_size m \<and>
    r = afford m (bindings (rev (refs m)) (label_key (chunk_bytes label))) \<and>
    unat (ref_size m') = unat (ref_size m) + cost r"
  by (rule lookup_ok [OF assms])

definition sample_chunk :: "byte list \<Rightarrow> cmark_chunk" where
  "sample_chunk s = \<lparr>ch_data = Some (s @ [NUL]), ch_len = int (length s), ch_alloc = False\<rparr>"

definition sample_reference :: "byte list \<Rightarrow> 64 word \<Rightarrow> cmark_reference" where
  "sample_reference s n =
     \<lparr>me_label = s @ [NUL], me_age = 0, me_size = n, is_attributes_reference = False,
      ref_url = sample_chunk (str ''u''), ref_title = sample_chunk [], ref_attributes = empty_literal\<rparr>"

definition sample_map :: "cmark_reference cmark_map" where
  "sample_map = push_entry (push_entry (cmark_reference_map_new \<lparr>mem_id = 0, fresh = \<lambda>_. 0\<rparr>)
     (sample_reference (str ''1'') 1)) (sample_reference (str ''1'') 7)"

lemma empty_map_inv: "map_inv (cmark_map_new m)"
  by (simp add: map_inv_def cmark_map_new_def ages_ok_def)

lemma sample_map_inv: "map_inv sample_map" "refs sample_map = [(sample_reference (str ''1'') 7)\<lparr>me_age := 1\<rparr>, sample_reference (str ''1'') 1]"
  "sorted_refs sample_map = None" "ref_size sample_map = 0" "max_ref_size sample_map = 0xFFFFFFFF"
proof -
  let ?m = "cmark_reference_map_new \<lparr>mem_id = 0, fresh = \<lambda>_. 0\<rparr>"
  have e: "entry_ok (sample_reference (str ''1'') n)" for n
    by (simp add: entry_ok_def entry_key_def sample_reference_def cstr_def)
  have "map_inv (push_entry ?m (sample_reference (str ''1'') 1))"
    by (rule push_entry_inv(1)) (simp_all add: e [simplified] empty_map_inv cmark_reference_map_new_def, simp_all add: cmark_map_new_def)
  then have "map_inv (push_entry (push_entry ?m (sample_reference (str ''1'') 1)) (sample_reference (str ''1'') 7))"
    by (rule push_entry_inv(1)) (simp_all add: e [simplified], simp_all add: push_entry_def cmark_reference_map_new_def cmark_map_new_def)
  then show "map_inv sample_map" by (simp only: sample_map_def)
qed (simp_all add: sample_map_def push_entry_def cmark_reference_map_new_def cmark_map_new_def sample_reference_def)

lemma label_key_1: "label_key (str ''1'') = str ''1''"
proof -
  have d: "char_ok [0x31]" "decode_bytes [0x31] = 0x31" "enc_bytes 0x31 = [0x31]" by code_simp+
  have "list_all (\<lambda>e. 0x41 \<le> fst e) fold_cases"
    unfolding fold_cases_def
    by (simp add: fold_cases_0_def fold_cases_1_def fold_cases_2_def fold_cases_3_def fold_cases_4_def
        fold_cases_5_def fold_cases_6_def fold_cases_7_def fold_cases_8_def fold_cases_9_def
        fold_cases_10_def fold_cases_11_def fold_cases_12_def fold_cases_13_def fold_cases_14_def)
  then have "map_of fold_cases 0x31 = None"
    by (fastforce simp: map_of_eq_None_iff list_all_iff)
  then have "utf8_fold (str ''1'') = [0x31]"
    using utf8_fold_chars [of "[[0x31]]"] d by (simp add: fold_bytes_def fold_char_def)
  moreover have "collapse_spaces False (trim_right (trim_left [0x31])) = [0x31]" by code_simp
  ultimately show ?thesis by (simp add: label_key_def cstr_def)
qed

theorem lookup_refines_witness:
  "\<exists>r m'. cmark_map_lookup (Some sample_map) (sample_chunk (str ''1'')) = Inr (Some r, Some m') \<and>
     me_size r = 1 \<and> ref_size m' = 1"
proof -
  let ?l = "sample_chunk (str ''1'')"
  have l: "chunk_ok ?l" "1 \<le> ch_len ?l" "ch_len ?l \<le> MAX_LINK_LABEL_LENGTH" "chunk_bytes ?l = str ''1''"
    by code_simp+
  have "bindings (rev (refs sample_map)) (str ''1'') = Some (sample_reference (str ''1'') 1)"
    by (simp add: sample_map_inv bindings_def entry_key_def cstr_def sample_reference_def)
  then have "afford sample_map (bindings (rev (refs sample_map)) (label_key (chunk_bytes ?l))) =
      Some (sample_reference (str ''1'') 1)"
    unfolding l(4) label_key_1 by (simp add: afford_def sample_map_inv sample_reference_def)
  then show ?thesis
    using lookup_refines [OF sample_map_inv(1) l(1-3)] sample_map_inv(4)
    by (auto simp: cost_def sample_reference_def word_unat_eq_iff)
qed

text \<open>
  C15: Creating a reference binds the normalised label to the cleaned URL and title, and charges
  their length, unless the label is already bound: the first definition wins.  A label without
  visible characters creates nothing.
\<close>

theorem first_definition_wins:
  assumes "map_inv m" "sorted_refs m = None" "length (refs m) + 1 < 2 ^ 31"
    and "chunk_ok label" "1 \<le> ch_len label" "ch_len label \<le> MAX_LINK_LABEL_LENGTH"
    and "input_chunk url" "input_chunk title"
  shows "\<exists>m'. cmark_reference_create m (Some label) url title = Inr m' \<and> map_inv m' \<and> sorted_refs m' = None \<and>
    (\<forall>k r. bindings (rev (refs m)) k = Some r \<longrightarrow> bindings (rev (refs m')) k = Some r) \<and>
    (\<forall>k. k \<noteq> label_key (chunk_bytes label) \<longrightarrow> bindings (rev (refs m')) k = bindings (rev (refs m)) k) \<and>
    (bindings (rev (refs m)) (label_key (chunk_bytes label)) = None \<longrightarrow> label_key (chunk_bytes label) \<noteq> [] \<longrightarrow>
       (\<exists>e. bindings (rev (refs m')) (label_key (chunk_bytes label)) = Some e \<and>
          chunk_bytes (ref_url e) = clean (trim_right (trim_left (chunk_bytes url))) \<and>
          chunk_bytes (ref_title e) = clean (title_text (chunk_bytes title)) \<and>
          unat (me_size e) = length (chunk_bytes (ref_url e)) + length (chunk_bytes (ref_title e))))"
proof (cases "label_key (chunk_bytes label) = []")
  case True
  then show ?thesis using reference_create_ok [OF assms] assms(1,2) by simp
next
  case False
  obtain e where e: "cmark_reference_create m (Some label) url title = Inr (push_entry m e)" "entry_ok e"
    "entry_key e = label_key (chunk_bytes label)"
    "chunk_bytes (ref_url e) = clean (trim_right (trim_left (chunk_bytes url)))"
    "chunk_bytes (ref_title e) = clean (title_text (chunk_bytes title))"
    "unat (me_size e) = length (chunk_bytes (ref_url e)) + length (chunk_bytes (ref_title e))"
    using reference_create_ok [OF assms] False by auto
  note p = push_entry_inv [OF assms(1,2) e(2) assms(3)]
  show ?thesis
    using e p assms(2) by (intro exI [of _ "push_entry m e"] conjI) (auto simp: p(2) push_entry_def split: option.split)
qed

theorem first_definition_wins_witness:
  "\<exists>m'. cmark_reference_create sample_map (Some (sample_chunk (str ''1''))) (sample_chunk (str ''/v'')) (sample_chunk []) = Inr m' \<and>
     bindings (rev (refs m')) (str ''1'') = Some (sample_reference (str ''1'') 1)"
proof -
  let ?l = "sample_chunk (str ''1'')"
  have l: "chunk_ok ?l" "1 \<le> ch_len ?l" "ch_len ?l \<le> MAX_LINK_LABEL_LENGTH"
    and i: "input_chunk (sample_chunk (str ''/v''))" "input_chunk (sample_chunk [])"
    by code_simp+
  have "length (refs sample_map) + 1 < 2 ^ 31" by (simp add: sample_map_inv)
  moreover have "bindings (rev (refs sample_map)) (str ''1'') = Some (sample_reference (str ''1'') 1)"
    by (simp add: sample_map_inv bindings_def entry_key_def cstr_def sample_reference_def)
  ultimately show ?thesis
    using first_definition_wins [OF sample_map_inv(1,3) _ l i] by blast
qed

text \<open>A series of lookups.\<close>

fun lookups :: "'a cmark_map_entry_scheme cmark_map option \<Rightarrow> cmark_chunk list \<Rightarrow>
    ('a cmark_map_entry_scheme option list \<times> 'a cmark_map_entry_scheme cmark_map option) res" where
  "lookups m [] = Inr ([], m)"
| "lookups m (c # cs) =
     bindr (cmark_map_lookup m c) (\<lambda>(r, m). bindr (lookups m cs) (\<lambda>(rs, m). Inr (r # rs, m)))"

lemma lookups_ok:
  "map_inv m \<Longrightarrow> list_all (\<lambda>c. chunk_ok c \<and> 1 \<le> ch_len c \<and> ch_len c \<le> MAX_LINK_LABEL_LENGTH) cs \<Longrightarrow>
    \<exists>rs m'. lookups (Some m) cs = Inr (rs, Some m') \<and> map_inv m' \<and> max_ref_size m' = max_ref_size m \<and>
      unat (ref_size m') = unat (ref_size m) + sum_list (map cost rs)"
proof (induction cs arbitrary: m)
  case (Cons c cs)
  obtain r m1 where 1: "cmark_map_lookup (Some m) c = Inr (r, Some m1)" "map_inv m1"
    "max_ref_size m1 = max_ref_size m" "unat (ref_size m1) = unat (ref_size m) + cost r"
    using lookup_ok [OF Cons.prems(1), of c] Cons.prems(2) by auto
  with Cons.IH [OF 1(2)] Cons.prems(2) show ?case by auto
qed simp

text \<open>
  C16: However many lookups are made, the sizes of all the entries they return add up to no more than
  the limit of the map: references cannot blow up the output.
\<close>

theorem expansion_bounded:
  assumes "map_inv m" "list_all (\<lambda>c. chunk_ok c \<and> 1 \<le> ch_len c \<and> ch_len c \<le> MAX_LINK_LABEL_LENGTH) cs"
  shows "\<exists>rs m'. lookups (Some m) cs = Inr (rs, Some m') \<and> map_inv m' \<and>
    sum_list (map cost rs) \<le> unat (max_ref_size m)"
proof -
  obtain rs m' where r: "lookups (Some m) cs = Inr (rs, Some m')" "map_inv m'"
    "max_ref_size m' = max_ref_size m" "unat (ref_size m') = unat (ref_size m) + sum_list (map cost rs)"
    using lookups_ok [OF assms] by blast
  have "ref_size m' \<le> max_ref_size m'" using r(2) by (simp add: map_inv_def)
  then have "unat (ref_size m') \<le> unat (max_ref_size m)" unfolding word_le_nat_alt r(3) .
  then show ?thesis using r by auto
qed

theorem expansion_bounded_witness:
  "\<exists>rs m'. lookups (Some sample_map) (replicate 5 (sample_chunk (str ''1''))) = Inr (rs, Some m') \<and>
     sum_list (map cost rs) \<le> 0xFFFFFFFF"
proof -
  have "list_all (\<lambda>c. chunk_ok c \<and> 1 \<le> ch_len c \<and> ch_len c \<le> MAX_LINK_LABEL_LENGTH)
      (replicate 5 (sample_chunk (str ''1'')))" by code_simp
  from expansion_bounded [OF sample_map_inv(1) this] show ?thesis by (auto simp: sample_map_inv)
qed

end
