(* ===== verification/Node_Samples.thy ===== *)
theory Node_Samples
  imports Node_Free
begin

text \<open>
  Concrete heaps.  \<open>check_forest\<close> decides that a heap, in which every node comes after its parent,
  is the forest with the given children lists, so that the theorems about forests can be applied to
  examples.
\<close>

definition kids_of :: "nptr list list \<Rightarrow> nptr \<Rightarrow> nptr list" where
  "kids_of ks q = (if q < length ks then ks ! q else [])"

definition check_child :: "heap \<Rightarrow> nptr list \<Rightarrow> nptr \<Rightarrow> nptr \<Rightarrow> bool" where
  "check_child h cs q c \<longleftrightarrow>
     (case cell h c of None \<Rightarrow> False
      | Some m \<Rightarrow> n_parent m = Some q \<and> n_next m = next_in cs c \<and> n_prev m = prev_in cs c)"

definition check_node :: "heap \<Rightarrow> nptr list list \<Rightarrow> nptr \<Rightarrow> bool" where
  "check_node h ks q \<longleftrightarrow>
     (let cs = kids_of ks q in
      case cell h q of None \<Rightarrow> cs = []
      | Some n \<Rightarrow>
          distinct cs \<and> n_first n = hd_opt cs \<and> n_last n = hd_opt (rev cs) \<and>
          list_all (check_child h cs q) cs \<and>
          (case n_parent n of None \<Rightarrow> n_next n = None \<and> n_prev n = None
           | Some p \<Rightarrow> cell h p \<noteq> None \<and> q \<in> set (kids_of ks p) \<and> p < q))"

definition check_forest :: "heap \<Rightarrow> nptr list list \<Rightarrow> bool" where
  "check_forest h ks \<longleftrightarrow> length ks = length h \<and> list_all (check_node h ks) [0..<length h]"

lemma check_forest:
  assumes "check_forest h ks"
  shows "forest h (kids_of ks)"
proof -
  have len: "length ks = length h" using assms by (simp add: check_forest_def)
  have "check_node h ks q" for q
  proof (cases "q < length h")
    case True
    then show ?thesis using assms by (simp add: check_forest_def list_all_iff)
  next
    case False
    then show ?thesis using len by (simp add: check_node_def kids_of_def cell_def)
  qed
  note all = this
  have node: "distinct (kids_of ks q)" "n_first n = hd_opt (kids_of ks q)"
    "n_last n = hd_opt (rev (kids_of ks q))" "\<forall>c \<in> set (kids_of ks q). check_child h (kids_of ks q) q c"
    "case n_parent n of None \<Rightarrow> n_next n = None \<and> n_prev n = None
           | Some p \<Rightarrow> cell h p \<noteq> None \<and> q \<in> set (kids_of ks p) \<and> p < q" if "cell h q = Some n" for q n
    using all [of q] that by (simp_all add: check_node_def Let_def list_all_iff)
  have none: "kids_of ks q = []" if "cell h q = None" for q
    using all [of q] that by (simp add: check_node_def)
  have child: "\<exists>m. cell h c = Some m \<and> n_parent m = Some q \<and> n_next m = next_in (kids_of ks q) c \<and>
      n_prev m = prev_in (kids_of ks q) c" if "c \<in> set (kids_of ks q)" for c q
  proof (cases "cell h q")
    case None
    then show ?thesis using none [OF None] that by simp
  next
    case (Some n)
    then show ?thesis using node(4) [OF Some] that by (auto simp: check_child_def split: option.splits)
  qed
  have "links h (kids_of ks)"
    unfolding links_def links_but_def
  proof (intro conjI allI impI)
    fix q assume "live (view h) q"
    then obtain n where n: "cell h q = Some n" by (auto simp: view_def)
    then show "distinct (kids_of ks q)" "fc (view h) q = hd_opt (kids_of ks q)"
      "lc (view h) q = hd_opt (rev (kids_of ks q))"
      using node(1-3) [OF n] by (simp_all add: view_def)
  next
    fix q assume "\<not> live (view h) q"
    then show "kids_of ks q = []" using none by (simp add: view_def)
  next
    fix q c assume "c \<in> set (kids_of ks q)"
    from child [OF this] show "live (view h) c" "c \<notin> {}" "pa (view h) c = Some q"
      "nx (view h) c = next_in (kids_of ks q) c" "pv (view h) c = prev_in (kids_of ks q) c"
      by (auto simp: view_def)
  next
    fix c q assume "live (view h) c \<and> c \<notin> {} \<and> pa (view h) c = Some q"
    then obtain n where n: "cell h c = Some n" "n_parent n = Some q" by (auto simp: view_def)
    then show "live (view h) q" "c \<in> set (kids_of ks q)" using node(5) [OF n(1)] by (auto simp: view_def)
  next
    fix c assume "live (view h) c \<and> c \<notin> {} \<and> pa (view h) c = None"
    then obtain n where n: "cell h c = Some n" "n_parent n = None" by (auto simp: view_def)
    then show "nx (view h) c = None" "pv (view h) c = None" using node(5) [OF n(1)] by (auto simp: view_def)
  qed
  moreover have "parent_rel (view h) \<subseteq> {(c, q). q < c}"
  proof
    fix x assume "x \<in> parent_rel (view h)"
    then obtain c q n where x: "x = (c, q)" "cell h c = Some n" "n_parent n = Some q"
      by (auto simp: parent_rel_def view_def)
    then show "x \<in> {(c, q). q < c}" using node(5) [OF x(2)] by simp
  qed
  then have "acyclic (parent_rel (view h))"
  proof (rule acyclic_subset [rotated])
    have "{(c, q). q < c} = less_than\<inverse>" by auto
    then show "acyclic {(c, q). q < (c :: nat)}" by (simp add: wf_acyclic)
  qed
  ultimately show ?thesis by (simp add: forest_def)
qed

text \<open>A plain node: no extension, a payload that fits its type.\<close>

definition plain_node :: "cmark_node \<Rightarrow> bool" where
  "plain_node n \<longleftrightarrow> extension n = None \<and> payload_ok (n_type n) (n_as n)"

definition all_nodes :: "(cmark_node \<Rightarrow> bool) \<Rightarrow> heap \<Rightarrow> bool" where
  "all_nodes P h \<longleftrightarrow> list_all (\<lambda>c. case c of None \<Rightarrow> True | Some n \<Rightarrow> P n) h"

lemma all_nodesD: "all_nodes P h \<Longrightarrow> cell h p = Some n \<Longrightarrow> P n"
  unfolding all_nodes_def cell_def list_all_length by (auto split: if_splits option.splits)

definition literal_of :: "string \<Rightarrow> node_as" where
  "literal_of s = As_literal \<lparr>ch_data = Some (str s @ [NUL]), ch_len = int (length s), ch_alloc = True\<rparr>"

end
