(* ===== verification/Footnotes.thy ===== *)
theory Footnotes
  imports Iterator Ref_Lookup Node_Samples
begin

text \<open>
  Footnotes: src/src/footnotes.c, \<open>cmark_map_free\<close> of src/src/map.c and \<open>process_footnotes\<close> of
  src/src/blocks.c.

  The map holds pointers to entries, and the loop that numbers the footnotes changes an entry that
  it reaches through \<open>map->sorted\<close>.  The age of an entry is its identity, and \<open>change_entry\<close> changes
  it both in the linked list and in the sorted array.
\<close>

section \<open>The data\<close>

record cmark_footnote = cmark_map_entry +
  fn_node :: "nptr option"
  fn_ix :: "32 word"

type_synonym footnote_map = "cmark_footnote cmark_map"

text \<open>The loop reads the successor of an entry before it frees the entry.\<close>

definition cmark_map_free :: "('e \<Rightarrow> 's \<Rightarrow> 's res) \<Rightarrow> 'e cmark_map option \<Rightarrow> 's \<Rightarrow> 's res" where
  "cmark_map_free free mp s = (case mp of None \<Rightarrow> Inr s | Some m \<Rightarrow> each free (refs m) s)"

definition footnote_free :: "node_env \<Rightarrow> cmark_footnote \<Rightarrow> heap \<Rightarrow> heap res" where
  "footnote_free env ref h =
     (if fn_node ref \<noteq> None then cmark_node_free env h (fn_node ref) else Inr h)"

definition cmark_footnote_create :: "heap \<Rightarrow> footnote_map \<Rightarrow> nptr \<Rightarrow> footnote_map res" where
  "cmark_footnote_create h m node =
     bindr (deref h node) (\<lambda>n.
     bindr (get_chunk M_literal (n_as n)) (\<lambda>lit.
     bindr (normalize_map_label (map_mem m) (Some lit)) (\<lambda>reflabel.
     case reflabel of
       None \<Rightarrow> Inr m
     | Some reflabel \<Rightarrow>
         bindr (guard (sorted_refs m = None) Assert_failed) (\<lambda>_.
         Inr (push_entry m
           \<lparr>me_label = reflabel, me_age = 0, me_size = 0, fn_node = Some node, fn_ix = 0\<rparr>)))))"

definition cmark_footnote_map_new :: "cmark_mem \<Rightarrow> footnote_map" where
  "cmark_footnote_map_new m = cmark_map_new m"

definition unlink_footnote :: "cmark_footnote \<Rightarrow> heap \<Rightarrow> heap res" where
  "unlink_footnote ref h = (if fn_node ref \<noteq> None then cmark_node_unlink h (fn_node ref) else Inr h)"

definition cmark_unlink_footnotes_map :: "footnote_map \<Rightarrow> heap \<Rightarrow> heap res" where
  "cmark_unlink_footnotes_map m h = each unlink_footnote (refs m) h"

section \<open>Numbering the footnotes of a document\<close>

definition change_entry :: "64 word \<Rightarrow> (cmark_footnote \<Rightarrow> cmark_footnote) \<Rightarrow> footnote_map \<Rightarrow> footnote_map" where
  "change_entry age f m =
     (let g = map (\<lambda>e. if me_age e = age then f e else e)
      in m\<lparr>refs := g (refs m), sorted_refs := map_option g (sorted_refs m)\<rparr>)"

definition sort_footnote_by_ix :: "cmark_footnote \<Rightarrow> cmark_footnote \<Rightarrow> int" where
  "sort_footnote_by_ix a b = sint (fn_ix a) - sint (fn_ix b)"

text \<open>The loop that collects the definitions.\<close>

fun collect_footnotes :: "nat \<Rightarrow> heap \<Rightarrow> cmark_iter \<Rightarrow> footnote_map \<Rightarrow> footnote_map res" where
  "collect_footnotes 0 h iter m = Inl Out_of_fuel"
| "collect_footnotes (Suc fuel) h iter m =
     bindr (cmark_iter_next h iter) (\<lambda>(ev, iter).
     if ev = CMARK_EVENT_DONE then Inr m
     else
       bindr (deref_opt h (cmark_iter_get_node iter)) (\<lambda>n.
       bindr (if ev = CMARK_EVENT_EXIT \<and> n_type n = CMARK_NODE_FOOTNOTE_DEFINITION
              then cmark_footnote_create h m (the (cmark_iter_get_node iter)) else Inr m) (\<lambda>m.
       collect_footnotes fuel h iter m)))"

text \<open>A reference to a footnote that is defined: it gets the number of the footnote.\<close>

definition number_reference ::
  "cmark_mem \<Rightarrow> nptr \<Rightarrow> cmark_footnote \<Rightarrow> heap \<times> footnote_map \<times> 32 word \<Rightarrow> (heap \<times> footnote_map \<times> 32 word) res" where
  "number_reference pmem cur fnote s =
     (case s of (h, m, ix) \<Rightarrow>
        let ix' = (if fn_ix fnote = 0 then ix + 1 else ix);
            nr = (if fn_ix fnote = 0 then ix' else fn_ix fnote);
            m = change_entry (me_age fnote) (fn_ix_update (\<lambda>_. nr)) m
        in bindr (update h cur (parent_footnote_def_update (\<lambda>_. fn_node fnote))) (\<lambda>h.
           bindr (deref_opt h (fn_node fnote)) (\<lambda>d.
           bindr (add_i32 (cmark_node.footnote d) 1) (\<lambda>count.
           bindr (update_opt h (fn_node fnote) (footnote_update (\<lambda>_. count))) (\<lambda>h.
           bindr (update h cur (footnote_update (\<lambda>_. count))) (\<lambda>h.
           bindr (chunk_free_at h cur M_literal) (\<lambda>h.
           bindr (cmark_strbuf_puts (strbuf_empty pmem) (decimal (sint nr) @ [NUL])) (\<lambda>buf.
           bindr (cmark_chunk_buf_detach buf) (\<lambda>(c, _).
           bindr (update h cur (\<lambda>n. n\<lparr>n_as := set_chunk M_literal c (n_as n)\<rparr>)) (\<lambda>h.
           Inr (h, m, ix')))))))))))"

text \<open>A reference to no footnote becomes text again.\<close>

definition reference_to_text :: "node_env \<Rightarrow> cmark_mem \<Rightarrow> nptr \<Rightarrow> heap \<Rightarrow> heap res" where
  "reference_to_text env pmem cur h =
     bindr (cmark_strbuf_init pmem 0) (\<lambda>content.
     let t = length h; h = h @ [Some ((node_zero pmem)\<lparr>n_content := content, n_type := CMARK_NODE_TEXT\<rparr>)] in
     bindr (cmark_strbuf_puts (strbuf_empty pmem) (str ''[^'' @ [NUL])) (\<lambda>buf.
     bindr (deref h cur) (\<lambda>n.
     bindr (get_chunk M_literal (n_as n)) (\<lambda>lit.
     bindr (put_chunk buf lit) (\<lambda>buf.
     bindr (cmark_strbuf_putc buf RBRACKET) (\<lambda>buf.
     bindr (cmark_chunk_buf_detach buf) (\<lambda>(c, _).
     bindr (update h t (\<lambda>n. n\<lparr>n_as := set_chunk M_literal c (n_as n)\<rparr>)) (\<lambda>h.
     bindr (cmark_node_insert_after env h (Some cur) (Some t)) (\<lambda>(_, h).
     cmark_node_free env h (Some cur))))))))))"

fun number_footnotes ::
  "nat \<Rightarrow> node_env \<Rightarrow> cmark_mem \<Rightarrow> cmark_iter \<Rightarrow> heap \<times> footnote_map \<times> 32 word \<Rightarrow> (heap \<times> footnote_map) res" where
  "number_footnotes 0 env pmem iter s = Inl Out_of_fuel"
| "number_footnotes (Suc fuel) env pmem iter (h, m, ix) =
     bindr (cmark_iter_next h iter) (\<lambda>(ev, iter).
     if ev = CMARK_EVENT_DONE then Inr (h, m)
     else
       bindr (deref_opt h (cmark_iter_get_node iter)) (\<lambda>n.
       bindr (if ev = CMARK_EVENT_EXIT \<and> n_type n = CMARK_NODE_FOOTNOTE_REFERENCE
              then
                let cur = the (cmark_iter_get_node iter) in
                bindr (get_chunk M_literal (n_as n)) (\<lambda>lit.
                bindr (cmark_map_lookup (Some m) lit) (\<lambda>(fnote, mp).
                case fnote of
                  Some f \<Rightarrow> number_reference pmem cur f (h, the mp, ix)
                | None \<Rightarrow> bindr (reference_to_text env pmem cur h) (\<lambda>h. Inr (h, the mp, ix))))
              else Inr (h, m, ix)) (\<lambda>s.
       number_footnotes fuel env pmem iter s)))"

text \<open>The referenced definitions move to the end of the document, in the order of their numbers.\<close>

definition place_footnote :: "node_env \<Rightarrow> nptr \<Rightarrow> cmark_footnote \<Rightarrow> heap \<times> footnote_map \<Rightarrow> (heap \<times> footnote_map) res" where
  "place_footnote env root fnote s =
     (case s of (h, m) \<Rightarrow>
        if fn_ix fnote = 0 then bindr (cmark_node_unlink h (fn_node fnote)) (\<lambda>h. Inr (h, m))
        else
          bindr (cmark_node_append_child env h (Some root) (fn_node fnote)) (\<lambda>(_, h).
          Inr (h, change_entry (me_age fnote) (fn_node_update (\<lambda>_. None)) m)))"

definition place_footnotes :: "node_env \<Rightarrow> nptr \<Rightarrow> heap \<times> footnote_map \<Rightarrow> (heap \<times> footnote_map) res" where
  "place_footnotes env root s =
     (case s of (h, m) \<Rightarrow>
        case sorted_refs m of
          None \<Rightarrow> Inr (h, m)
        | Some arr \<Rightarrow>
            let n = unat (map_size m); sorted = qsort sort_footnote_by_ix (take n arr)
            in each (place_footnote env root) sorted (h, m\<lparr>sorted_refs := Some (sorted @ drop n arr)\<rparr>))"

definition process_footnotes :: "nat \<Rightarrow> node_env \<Rightarrow> cmark_mem \<Rightarrow> nptr \<Rightarrow> heap \<Rightarrow> heap res" where
  "process_footnotes fuel env pmem root h =
     bindr (cmark_iter_new h (Some root)) (\<lambda>iter.
     bindr (collect_footnotes fuel h (the iter) (cmark_footnote_map_new pmem)) (\<lambda>m.
     bindr (cmark_iter_new h (Some root)) (\<lambda>iter.
     bindr (number_footnotes fuel env pmem (the iter) (h, m, 0)) (\<lambda>s.
     bindr (place_footnotes env root s) (\<lambda>(h, m).
     bindr (cmark_unlink_footnotes_map m h) (\<lambda>h.
     cmark_map_free (footnote_free env) (Some m) h))))))"

section \<open>Unlinking, then freeing, the footnotes of a map\<close>

definition fn_nodes :: "cmark_footnote list \<Rightarrow> nptr list" where
  "fn_nodes rs = List.map_filter fn_node rs"

lemma fn_nodes_simps [simp]:
  "fn_nodes [] = []"
  "fn_nodes (r # rs) = (case fn_node r of None \<Rightarrow> fn_nodes rs | Some p \<Rightarrow> p # fn_nodes rs)"
  by (auto simp: fn_nodes_def List.map_filter_def split: option.splits)

lemma without_comp: "without p (\<lambda>q. filter (\<lambda>c. c \<notin> X) (kids q)) = (\<lambda>q. filter (\<lambda>c. c \<notin> insert p X) (kids q))"
  by (auto simp: without_def removeAll_filter_not_eq intro!: ext filter_cong)

lemma unlink_all:
  assumes "forest h kids" "\<forall>p \<in> set (fn_nodes rs). live (view h) p"
  shows "\<exists>h' kids'. each unlink_footnote rs h = Inr h' \<and> forest h' kids' \<and>
    same_data h h' \<and> live (view h') = live (view h) \<and>
    pa (view h') = (\<lambda>q. if q \<in> set (fn_nodes rs) then None else pa (view h) q)"
  using assms
proof (induction rs arbitrary: h kids)
  case (Cons r rs)
  show ?case
  proof (cases "fn_node r")
    case None
    then show ?thesis using Cons by (simp add: unlink_footnote_def)
  next
    case (Some p)
    then have p: "live (view h) p" using Cons.prems(2) by simp
    have l: "links h kids" using Cons.prems(1) by (simp add: forest_def)
    from node_unlink_links [OF l p] keeps_unlink [OF Cons.prems(1) p]
    obtain h1 where h1: "cmark_node_unlink h (Some p) = Inr h1" "forest h1 (without p kids)" "same_data h h1"
      "live (view h1) = live (view h)" "pa (view h1) = (pa (view h))(p := None)" by auto
    have "\<forall>q \<in> set (fn_nodes rs). live (view h1) q" using Cons.prems(2) Some h1(4) by simp
    from Cons.IH [OF h1(2) this] obtain h2 kids2 where h2: "each unlink_footnote rs h1 = Inr h2" "forest h2 kids2"
      "same_data h1 h2" "live (view h2) = live (view h1)"
      "pa (view h2) = (\<lambda>q. if q \<in> set (fn_nodes rs) then None else pa (view h1) q)" by auto
    have "same_data h h2" using same_data_trans [OF h1(3) h2(3)] .
    moreover have "each unlink_footnote (r # rs) h = Inr h2"
      using Some h1(1) h2(1) by (simp add: unlink_footnote_def)
    moreover have "pa (view h2) = (\<lambda>q. if q \<in> set (fn_nodes (r # rs)) then None else pa (view h) q)"
      using Some by (auto simp: h1(5) h2(5) fun_eq_iff)
    ultimately show ?thesis using h2(2,4) h1(4) by metis
  qed
qed auto

text \<open>Freeing a node leaves the ancestors of the nodes that are not below it as they are.\<close>

lemma free_keeps:
  assumes f: "forest h kids" and p: "live (view h) p"
    and ok: "\<forall>q n. p \<in> ancestors (view h) q \<longrightarrow> cell h q = Some n \<longrightarrow> freeable env n"
  shows "\<exists>h' kids'. cmark_node_free env h (Some p) = Inr h' \<and> forest h' kids' \<and>
    (\<forall>q. map_option no_links (cell h' q) =
       (if p \<in> ancestors (view h) q then None else map_option no_links (cell h q))) \<and>
    (\<forall>q. p \<notin> ancestors (view h) q \<longrightarrow> (pa (view h') q = None \<longleftrightarrow> pa (view h) q = None)) \<and>
    (\<forall>q. p \<notin> ancestors (view h) q \<longrightarrow> live (view h) q \<longrightarrow> ancestors (view h') q = ancestors (view h) q)"
proof -
  let ?S = "{q. p \<in> ancestors (view h) q}" and ?K = "\<lambda>q. if p \<in> ancestors (view h) q then [] else removeAll p (kids q)"
  have "\<exists>h'. cmark_node_free env h (Some p) = Inr h' \<and> links h' ?K \<and>
    (\<forall>q. map_option no_links (cell h' q) =
       (if p \<in> ancestors (view h) q then None else map_option no_links (cell h q)))"
    by (rule node_free_ok [OF f p]) (use ok in blast)
  then obtain h' where h': "cmark_node_free env h (Some p) = Inr h'" "links h' ?K"
    and c': "\<And>q. map_option no_links (cell h' q) = (if q \<in> ?S then None else map_option no_links (cell h q))"
    by auto
  have l: "links h kids" and ac: "acyclic (parent_rel (view h))" using f by (simp_all add: forest_def)
  note D = links_butD [OF l [unfolded links_def]] and D' = links_butD [OF h'(2) [unfolded links_def]]
  have lv: "live (view h') q \<longleftrightarrow> live (view h) q \<and> q \<notin> ?S" for q
    using c' [of q] by (cases "cell h q"; cases "cell h' q") (auto simp: view_def split: if_splits)
  have up: "q \<notin> ?S" if "live (view h) c" "pa (view h) c = Some q" "c \<notin> ?S" for c q
    using ancestors_step(1) [OF that(1,2) ac] that(3) by auto
  have pa_eq: "pa (view h') c = Some q \<longleftrightarrow> pa (view h) c = Some q" if "live (view h) c" "c \<notin> ?S" for c q
  proof
    assume "pa (view h') c = Some q"
    then have "c \<in> set (?K q)" using D'(11) lv that by blast
    then show "pa (view h) c = Some q" using D(6) by (auto split: if_splits)
  next
    assume a: "pa (view h) c = Some q"
    then have "q \<notin> ?S" "c \<in> set (kids q)" "c \<noteq> p" using up [OF that(1) a that(2)] D(11) that a by (auto simp: ancestors_def)
    then have "c \<in> set (?K q)" by simp
    then show "pa (view h') c = Some q" by (rule D'(6))
  qed
  then have rel: "parent_rel (view h') = {(c, q) \<in> parent_rel (view h). c \<notin> ?S}"
    by (auto simp: parent_rel_def lv)
  have anc: "ancestors (view h') q = ancestors (view h) q" if "p \<notin> ancestors (view h) q" "live (view h) q" for q
  proof -
    have "(q, x) \<in> (parent_rel (view h'))\<^sup>* \<and> x \<notin> ?S" if "(q, x) \<in> (parent_rel (view h))\<^sup>*" for x
      using that
    proof (induction rule: rtrancl_induct)
      case base
      then show ?case using \<open>p \<notin> ancestors (view h) q\<close> by simp
    next
      case (step y z)
      then have "(y, z) \<in> parent_rel (view h')" by (auto simp: rel)
      moreover have "z \<notin> ?S" using step up by (auto simp: parent_rel_def)
      ultimately show ?case using step.IH by (auto intro: rtrancl_into_rtrancl)
    qed
    moreover have "(parent_rel (view h'))\<^sup>* \<subseteq> (parent_rel (view h))\<^sup>*" by (rule rtrancl_mono) (auto simp: rel)
    ultimately show ?thesis by (auto simp: ancestors_def)
  qed
  have "acyclic (parent_rel (view h'))" using ac by (rule acyclic_subset) (auto simp: rel)
  then have fo: "forest h' ?K" using h'(2) by (simp add: forest_def)
  have pn: "pa (view h') q = None \<longleftrightarrow> pa (view h) q = None" if "p \<notin> ancestors (view h) q" for q
  proof (cases "live (view h) q")
    case True
    then show ?thesis using pa_eq [OF True] that by (cases "pa (view h) q"; cases "pa (view h') q") auto
  next
    case False
    then have "\<not> live (view h') q" using lv by simp
    with False show ?thesis by (auto simp: view_def split: option.splits)
  qed
  show ?thesis
    by (intro exI conjI, rule h'(1), rule fo) (use c' pn anc in auto)
qed

lemma free_all:
  assumes "forest h kids" "distinct (fn_nodes rs)"
    "\<forall>p \<in> set (fn_nodes rs). live (view h) p \<and> pa (view h) p = None"
    "\<forall>p q n. p \<in> set (fn_nodes rs) \<longrightarrow> p \<in> ancestors (view h) q \<longrightarrow> cell h q = Some n \<longrightarrow> freeable env n"
  shows "\<exists>h'. each (footnote_free env) rs h = Inr h' \<and>
    (\<forall>q. map_option no_links (cell h' q) =
       (if \<exists>p \<in> set (fn_nodes rs). p \<in> ancestors (view h) q then None else map_option no_links (cell h q)))"
  using assms
proof (induction rs arbitrary: h kids)
  case (Cons r rs)
  show ?case
  proof (cases "fn_node r")
    case None
    then show ?thesis using Cons.IH [OF Cons.prems(1)] Cons.prems(2-4) by (simp add: footnote_free_def)
  next
    case (Some p)
    then have p: "live (view h) p" "pa (view h) p = None"
      and ok: "\<forall>q n. p \<in> ancestors (view h) q \<longrightarrow> cell h q = Some n \<longrightarrow> freeable env n"
      using Cons.prems(3,4) by auto
    obtain h1 kids1 where h1: "cmark_node_free env h (Some p) = Inr h1" "forest h1 kids1"
      and c1: "\<And>q. map_option no_links (cell h1 q) =
        (if p \<in> ancestors (view h) q then None else map_option no_links (cell h q))"
      and pa1: "\<And>q. p \<notin> ancestors (view h) q \<Longrightarrow> pa (view h1) q = None \<longleftrightarrow> pa (view h) q = None"
      and anc1: "\<And>q. p \<notin> ancestors (view h) q \<Longrightarrow> live (view h) q \<Longrightarrow> ancestors (view h1) q = ancestors (view h) q"
      using free_keeps [OF Cons.prems(1) p(1) ok] by blast
    have out: "p \<notin> ancestors (view h) x" if "x \<in> set (fn_nodes rs)" for x
      using that Cons.prems(2,3) Some by (auto simp: ancestors_root)
    have live1: "live (view h1) q \<longleftrightarrow> live (view h) q \<and> p \<notin> ancestors (view h) q" for q
      using c1 [of q] by (cases "cell h q"; cases "cell h1 q") (auto simp: view_def split: if_splits)
    have fr1: "freeable env n" if "x \<in> set (fn_nodes rs)" "x \<in> ancestors (view h1) q" "cell h1 q = Some n" for x q n
    proof -
      note n = that
      have q: "live (view h) q" "p \<notin> ancestors (view h) q" using live1 [of q] n(3) by (auto simp: view_def)
      then obtain m where m: "cell h q = Some m" "no_links m = no_links n"
        using c1 [of q] n(3) by (cases "cell h q") (auto simp: view_def)
      have "freeable env m" using Cons.prems(4) [rule_format, OF _ _ m(1)] n(1,2) anc1 [OF q(2,1)] Some by auto
      then show ?thesis by (rule freeable_same) (simp add: m(2))
    qed
    have d1: "distinct (fn_nodes rs)" using Cons.prems(2) Some by simp
    have r1: "live (view h1) x \<and> pa (view h1) x = None" if "x \<in> set (fn_nodes rs)" for x
      using Cons.prems(3) that Some out [OF that] by (simp add: live1 pa1)
    obtain h2 where h2: "each (footnote_free env) rs h1 = Inr h2" and c2: "\<And>q. map_option no_links (cell h2 q) =
        (if \<exists>x \<in> set (fn_nodes rs). x \<in> ancestors (view h1) q then None else map_option no_links (cell h1 q))"
      using Cons.IH [OF h1(2) d1] r1 fr1 by metis
    have "map_option no_links (cell h2 q) = (if \<exists>x \<in> set (fn_nodes (r # rs)). x \<in> ancestors (view h) q
        then None else map_option no_links (cell h q))" for q
    proof (cases "p \<in> ancestors (view h) q \<or> cell h q = None")
      case True
      then show ?thesis using c2 [of q] c1 [of q] Some by auto
    next
      case False
      then have "live (view h) q" by (simp add: view_def)
      then show ?thesis using c2 [of q] c1 [of q] anc1 [of q] False Some by auto
    qed
    moreover have "each (footnote_free env) (r # rs) h = Inr h2"
      using h1(1) h2 Some by (simp add: footnote_free_def [of env r])
    ultimately show ?thesis by metis
  qed
qed auto

section \<open>Properties\<close>

text \<open>
  C5: Unlinking all the footnotes of a map and then freeing the map touches no freed memory, even
  when definitions are nested in each other: it frees exactly the nodes below the definitions that
  the map still holds, each once, and keeps the data of all others.
\<close>

theorem footnotes_freed_safely:
  assumes "forest h kids" "distinct (fn_nodes (refs m))" "\<forall>p \<in> set (fn_nodes (refs m)). live (view h) p"
    "\<forall>q n. cell h q = Some n \<longrightarrow> freeable env n"
  shows "\<exists>h1 h2. cmark_unlink_footnotes_map m h = Inr h1 \<and>
    cmark_map_free (footnote_free env) (Some m) h1 = Inr h2 \<and>
    (\<forall>q. map_option no_links (cell h2 q) =
       (if \<exists>p \<in> set (fn_nodes (refs m)). p \<in> ancestors (view h) q then None
        else map_option no_links (cell h q)))"
proof -
  let ?N = "set (fn_nodes (refs m))"
  obtain h1 kids1 where h1: "each unlink_footnote (refs m) h = Inr h1" "forest h1 kids1" "same_data h h1"
    "live (view h1) = live (view h)" "pa (view h1) = (\<lambda>q. if q \<in> ?N then None else pa (view h) q)"
    using unlink_all [OF assms(1,3)] by blast
  have rel: "parent_rel (view h1) = {(c, q) \<in> parent_rel (view h). c \<notin> ?N}"
    by (auto simp: parent_rel_def h1(4,5) split: if_splits)
  have anc: "(\<exists>p \<in> ?N. p \<in> ancestors (view h1) q) \<longleftrightarrow> (\<exists>p \<in> ?N. p \<in> ancestors (view h) q)" for q
  proof
    have "(parent_rel (view h1))\<^sup>* \<subseteq> (parent_rel (view h))\<^sup>*" by (rule rtrancl_mono) (auto simp: rel)
    then show "\<exists>p \<in> ?N. p \<in> ancestors (view h1) q \<Longrightarrow> \<exists>p \<in> ?N. p \<in> ancestors (view h) q"
      by (auto simp: ancestors_def)
    have "\<exists>x \<in> ?N. (q, x) \<in> (parent_rel (view h1))\<^sup>*" if "(q, p) \<in> (parent_rel (view h))\<^sup>*" "p \<in> ?N" for p
      using that
    proof (induction rule: converse_rtrancl_induct)
      case (step y z)
      then obtain x where x: "x \<in> ?N" "(z, x) \<in> (parent_rel (view h1))\<^sup>*" by blast
      show ?case
      proof (cases "y \<in> ?N")
        case False
        then have "(y, z) \<in> parent_rel (view h1)" using step.hyps(1) by (simp add: rel)
        with x show ?thesis by (meson converse_rtrancl_into_rtrancl)
      qed blast
    qed blast
    then show "\<exists>p \<in> ?N. p \<in> ancestors (view h) q \<Longrightarrow> \<exists>p \<in> ?N. p \<in> ancestors (view h1) q"
      by (auto simp: ancestors_def)
  qed
  have sd: "map_option no_links (cell h1 q) = map_option no_links (cell h q)" for q
    using h1(3) by (simp add: same_data_def)
  have fr: "freeable env n" if n: "cell h1 q = Some n" for q n
  proof -
    obtain k where k: "cell h q = Some k" "no_links k = no_links n"
      using sd [of q] n by (cases "cell h q") auto
    have "freeable env k" using assms(4) k(1) by blast
    then show ?thesis by (rule freeable_same) (simp add: k(2))
  qed
  have "\<exists>h2. each (footnote_free env) (refs m) h1 = Inr h2 \<and>
    (\<forall>q. map_option no_links (cell h2 q) =
       (if \<exists>p \<in> ?N. p \<in> ancestors (view h1) q then None else map_option no_links (cell h1 q)))"
    by (rule free_all [OF h1(2) assms(2)]) (use assms(3) h1(4,5) fr in auto)
  then show ?thesis
    using h1(1) unfolding sd anc by (auto simp add: cmark_unlink_footnotes_map_def cmark_map_free_def)
qed

text \<open>A definition inside a definition; the map holds both.\<close>

definition nested_definitions :: heap where
  "nested_definitions =
     [Some ((sample_node CMARK_NODE_DOCUMENT As_zero)\<lparr>n_first := Some 1, n_last := Some 1\<rparr>),
      Some ((sample_node CMARK_NODE_FOOTNOTE_DEFINITION (literal_of ''a''))
        \<lparr>n_parent := Some 0, n_first := Some 2, n_last := Some 2\<rparr>),
      Some ((sample_node CMARK_NODE_FOOTNOTE_DEFINITION (literal_of ''b''))\<lparr>n_parent := Some 1\<rparr>)]"

definition entry_of :: "string \<Rightarrow> nptr \<Rightarrow> cmark_footnote" where
  "entry_of s p = \<lparr>me_label = str s @ [NUL], me_age = 0, me_size = 0, fn_node = Some p, fn_ix = 0\<rparr>"

definition nested_map :: footnote_map where
  "nested_map =
     push_entry (push_entry (cmark_footnote_map_new sample_mem) (entry_of ''b'' 2)) (entry_of ''a'' 1)"

lemma nested_map: "fn_nodes (refs nested_map) = [1, 2]"
  by code_simp

theorem footnotes_freed_safely_witness:
  "\<exists>h1 h2. cmark_unlink_footnotes_map nested_map nested_definitions = Inr h1 \<and>
     cmark_map_free (footnote_free sample_env) (Some nested_map) h1 = Inr h2 \<and> cell h2 1 = None \<and> cell h2 2 = None"
proof -
  have "check_forest nested_definitions [[1], [2], []]" by code_simp
  note f = check_forest [OF this]
  have "all_nodes plain_node nested_definitions" by code_simp
  then have "freeable sample_env n" if "cell nested_definitions q = Some n" for q n
    using all_nodesD [of plain_node nested_definitions q n] that by (auto simp: plain_node_def intro: freeable_plain)
  moreover have "live (view nested_definitions) 1" "live (view nested_definitions) 2"
    by (simp_all add: view_def cell_def nested_definitions_def)
  ultimately obtain h1 h2 where h: "cmark_unlink_footnotes_map nested_map nested_definitions = Inr h1"
    "cmark_map_free (footnote_free sample_env) (Some nested_map) h1 = Inr h2"
    "\<And>q. map_option no_links (cell h2 q) =
       (if \<exists>p \<in> set (fn_nodes (refs nested_map)). p \<in> ancestors (view nested_definitions) q then None
        else map_option no_links (cell nested_definitions q))"
    using footnotes_freed_safely [OF f, of nested_map sample_env] nested_map by auto
  have "q \<in> ancestors (view nested_definitions) q" for q by (simp add: ancestors_def)
  then have "cell h2 1 = None \<and> cell h2 2 = None" using h(3) [of 1] h(3) [of 2] nested_map by auto
  then show ?thesis using h(1,2) by blast
qed

text \<open>Freeing definitions of which one was freed before, or that are below an earlier one.\<close>

lemma node_free_dead: "\<not> live (view h) p \<Longrightarrow> cmark_node_free env h (Some p) = Inl Bad_pointer"
  by (simp add: view_def cmark_node_free_def S_node_unlink_def deref_def)

lemma free_nested:
  assumes "forest h kids" "\<forall>q n. cell h q = Some n \<longrightarrow> freeable env n"
    and "(\<exists>q \<in> set (fn_nodes rs). \<not> live (view h) q) \<or>
      (\<exists>xs p ys q zs. fn_nodes rs = xs @ p # ys @ q # zs \<and> p \<in> ancestors (view h) q)"
  shows "each (footnote_free env) rs h = Inl Bad_pointer"
  using assms
proof (induction rs arbitrary: h kids)
  case (Cons r rs)
  show ?case
  proof (cases "fn_node r")
    case None
    then show ?thesis using Cons.IH [OF Cons.prems(1,2)] Cons.prems(3) by (simp add: footnote_free_def)
  next
    case r: (Some p)
    show ?thesis
    proof (cases "live (view h) p")
      case False
      then show ?thesis using r node_free_dead by (simp add: footnote_free_def)
    next
      case True
      obtain h1 kids1 where h1: "cmark_node_free env h (Some p) = Inr h1" "forest h1 kids1"
        and c1: "\<And>q. map_option no_links (cell h1 q) =
          (if p \<in> ancestors (view h) q then None else map_option no_links (cell h q))"
        and anc1: "\<And>q. p \<notin> ancestors (view h) q \<Longrightarrow> live (view h) q \<Longrightarrow> ancestors (view h1) q = ancestors (view h) q"
        using free_keeps [OF Cons.prems(1) True] Cons.prems(2) by metis
      have live1: "live (view h1) q \<longleftrightarrow> live (view h) q \<and> p \<notin> ancestors (view h) q" for q
        using c1 [of q] by (cases "cell h q"; cases "cell h1 q") (auto simp: view_def split: if_splits)
      have fr1: "freeable env n" if n: "cell h1 q = Some n" for q n
      proof -
        obtain k where k: "cell h q = Some k" "no_links k = no_links n"
          using c1 [of q] n by (cases "cell h q") (auto split: if_splits)
        have "freeable env k" using Cons.prems(2) k(1) by blast
        then show ?thesis by (rule freeable_same) (simp add: k(2))
      qed
      have "(\<exists>q \<in> set (fn_nodes rs). \<not> live (view h1) q) \<or>
          (\<exists>xs p ys q zs. fn_nodes rs = xs @ p # ys @ q # zs \<and> p \<in> ancestors (view h1) q)"
      proof (rule ccontr)
        assume n: "\<not> ?thesis"
        then have l: "live (view h) q \<and> p \<notin> ancestors (view h) q" if "q \<in> set (fn_nodes rs)" for q
          using that live1 by blast
        have "\<not> (\<exists>q \<in> set (fn_nodes (r # rs)). \<not> live (view h) q)" using l True r by auto
        then obtain xs a ys q zs where e: "fn_nodes (r # rs) = xs @ a # ys @ q # zs" "a \<in> ancestors (view h) q"
          using Cons.prems(3) by blast
        show False
        proof (cases xs)
          case Nil
          then have "a = p" "q \<in> set (fn_nodes rs)" using e(1) r by auto
          then show False using l e(2) by blast
        next
          case (Cons x us)
          then have f: "fn_nodes rs = us @ a # ys @ q # zs" using e(1) r by simp
          then have "q \<in> set (fn_nodes rs)" by simp
          then have "a \<in> ancestors (view h1) q" using l anc1 e(2) by blast
          then show False using n f by blast
        qed
      qed
      then have "each (footnote_free env) rs h1 = Inl Bad_pointer" using Cons.IH [OF h1(2)] fr1 by blast
      then show ?thesis using h1(1) r by (simp add: footnote_free_def [of env r])
    qed
  qed
qed simp

text \<open>
  C34: The order matters: freeing a map without unlinking its footnotes first, when the entry of a definition
  comes before the entry of a definition that is nested in it, frees the inner definition a second time, which
  is an access to freed memory.
\<close>

theorem footnotes_use_after_free:
  assumes "forest h kids" "\<forall>q n. cell h q = Some n \<longrightarrow> freeable env n"
    and "fn_nodes (refs m) = xs @ p # ys @ q # zs" "p \<in> ancestors (view h) q"
  shows "cmark_map_free (footnote_free env) (Some m) h = Inl Bad_pointer"
proof -
  have "each (footnote_free env) (refs m) h = Inl Bad_pointer"
    by (rule free_nested [OF assms(1,2)]) (use assms(3,4) in blast)
  then show ?thesis by (simp add: cmark_map_free_def)
qed

theorem footnotes_use_after_free_witness:
  "cmark_map_free (footnote_free sample_env) (Some nested_map) nested_definitions = Inl Bad_pointer"
proof -
  have "check_forest nested_definitions [[1], [2], []]" by code_simp
  note f = check_forest [OF this]
  have "all_nodes plain_node nested_definitions" by code_simp
  then have fr: "\<forall>q n. cell nested_definitions q = Some n \<longrightarrow> freeable sample_env n"
    using all_nodesD [of plain_node nested_definitions] by (auto simp: plain_node_def intro: freeable_plain)
  have "(2, 1) \<in> parent_rel (view nested_definitions)"
    by (simp add: parent_rel_def view_def cell_def nested_definitions_def)
  then have "1 \<in> ancestors (view nested_definitions) 2" by (auto simp: ancestors_def)
  with footnotes_use_after_free [OF f fr, of nested_map "[]" 1 "[]" 2 "[]"] nested_map show ?thesis by simp
qed

section \<open>Placing the definitions at the end of the document\<close>

interpretation ix_order: comparator sort_footnote_by_ix "\<lambda>e. sint (fn_ix e)"
  by unfold_locales (simp add: sort_footnote_by_ix_def)

text \<open>The root is a document, and \<open>p\<close> a footnote definition that the document can contain.\<close>

definition placeable :: "heap \<Rightarrow> nptr \<Rightarrow> nptr \<Rightarrow> bool" where
  "placeable h root p \<longleftrightarrow>
     p \<noteq> root \<and>
     (\<exists>r d. cell h root = Some r \<and> cell h p = Some d \<and> n_type r = CMARK_NODE_DOCUMENT \<and> extension r = None \<and>
        n_type d = CMARK_NODE_FOOTNOTE_DEFINITION \<and>
        mem_id (mem (n_content r)) = mem_id (mem (n_content d)))"

lemma placeable_same:
  assumes "placeable h root p" "same_data h h'"
  shows "placeable h' root p"
proof -
  have c: "map_option no_links (cell h' q) = map_option no_links (cell h q)" for q
    using assms(2) by (simp add: same_data_def)
  have field: "n_type n = n_type m" "extension n = extension m" "n_content n = n_content m"
    if "no_links n = no_links m" for n m
    using arg_cong [OF that, of n_type] arg_cong [OF that, of extension] arg_cong [OF that, of n_content]
    by (simp_all add: no_links_def)
  obtain r d where rd: "cell h root = Some r" "cell h p = Some d" and t: "p \<noteq> root" "n_type r = CMARK_NODE_DOCUMENT"
    "extension r = None" "n_type d = CMARK_NODE_FOOTNOTE_DEFINITION"
    "mem_id (mem (n_content r)) = mem_id (mem (n_content d))"
    using assms(1) by (auto simp: placeable_def)
  obtain r' where r': "cell h' root = Some r'" "no_links r' = no_links r" using c [of root] rd(1) by auto
  obtain d' where d': "cell h' p = Some d'" "no_links d' = no_links d" using c [of p] rd(2) by auto
  show ?thesis
    using t r'(1) d'(1) field [OF r'(2)] field [OF d'(2)] by (simp add: placeable_def)
qed

lemma placeable_live: "placeable h root p \<Longrightarrow> live (view h) p \<and> live (view h) root"
  by (auto simp: placeable_def view_def)

lemma placeable_contain:
  assumes "placeable h root p" "pa (view h) root = None"
  shows "S_can_contain env h (Some root) (Some p) = Inr True"
proof -
  obtain r d where c: "cell h root = Some r" "cell h p = Some d" and t: "n_type r = CMARK_NODE_DOCUMENT"
    "extension r = None" "n_type d = CMARK_NODE_FOOTNOTE_DEFINITION"
    "mem_id (mem (n_content r)) = mem_id (mem (n_content d))" "p \<noteq> root"
    using assms(1) by (auto simp: placeable_def)
  have "n_parent r = None" using assms(2) c by (simp add: view_def)
  then show ?thesis
    using t by (simp add: S_can_contain_def cmark_node_can_contain_type_def deref_heap [OF c(1)] deref_heap [OF c(2)]
        CMARK_NODE_TYPE_BLOCK_P_def bindr_def)
qed

fun placed :: "nptr \<Rightarrow> cmark_footnote list \<Rightarrow> (nptr \<Rightarrow> nptr list) \<Rightarrow> nptr \<Rightarrow> nptr list" where
  "placed root [] kids = kids"
| "placed root (e # es) kids =
     (let k = without (the (fn_node e)) kids
      in placed root es (if fn_ix e = 0 then k else k(root := k root @ [the (fn_node e)])))"

lemma placed_eq:
  assumes "distinct (map (\<lambda>e. the (fn_node e)) es)"
  shows "placed root es kids q =
    filter (\<lambda>c. c \<notin> (\<lambda>e. the (fn_node e)) ` set es) (kids q) @
    (if q = root then map (\<lambda>e. the (fn_node e)) (filter (\<lambda>e. fn_ix e \<noteq> 0) es) else [])"
  using assms
proof (induction es arbitrary: kids)
  case (Cons e es)
  have "filter P (removeAll x xs) = filter (\<lambda>c. c \<noteq> x \<and> P c) xs" for P and x :: nat and xs
    by (induction xs) auto
  with Cons show ?case by (auto simp: Let_def without_def image_iff intro!: filter_cong)
qed simp

definition forget :: "cmark_footnote list \<Rightarrow> cmark_footnote \<Rightarrow> cmark_footnote" where
  "forget es e = (if \<exists>x \<in> set es. me_age x = me_age e \<and> fn_ix x \<noteq> 0 then e\<lparr>fn_node := None\<rparr> else e)"

lemma forget_age [simp]: "me_age (forget es e) = me_age e"
  by (simp add: forget_def)

lemma forget_Cons:
  "forget (x # es) e = forget es (if fn_ix x \<noteq> 0 \<and> me_age e = me_age x then e\<lparr>fn_node := None\<rparr> else e)"
  by (auto simp: forget_def)

lemma change_entry_refs:
  "refs (change_entry a f m) = map (\<lambda>e. if me_age e = a then f e else e) (refs m)"
  by (simp add: change_entry_def Let_def)

lemma place_each:
  assumes "forest h kids" "pa (view h) root = None"
    "\<forall>e \<in> set es. \<exists>p. fn_node e = Some p \<and> placeable h root p"
  shows "\<exists>h' m'. each (place_footnote env root) es (h, m) = Inr (h', m') \<and> forest h' (placed root es kids) \<and>
    same_data h h' \<and> refs m' = map (forget es) (refs m)"
  using assms
proof (induction es arbitrary: h kids m)
  case Nil
  then show ?case by (simp add: forget_def)
next
  case (Cons e es)
  obtain p where p: "fn_node e = Some p" "placeable h root p" using Cons.prems(3) by auto
  have l: "links h kids" "acyclic (parent_rel (view h))" using Cons.prems(1) by (simp_all add: forest_def)
  have lv: "live (view h) p" "live (view h) root" and neq: "p \<noteq> root"
    using placeable_live [OF p(2)] p(2) by (auto simp: placeable_def)
  obtain h1 m1 where h1: "place_footnote env root e (h, m) = Inr (h1, m1)" "same_data h h1"
    "forest h1 (if fn_ix e = 0 then without p kids else (without p kids)(root := without p kids root @ [p]))"
    "pa (view h1) root = None"
    "refs m1 = map (\<lambda>x. if fn_ix e \<noteq> 0 \<and> me_age x = me_age e then x\<lparr>fn_node := None\<rparr> else x) (refs m)"
  proof (cases "fn_ix e = 0")
    case True
    from node_unlink_links [OF l(1) lv(1)] keeps_unlink [OF Cons.prems(1) lv(1)]
    obtain h1 where "cmark_node_unlink h (Some p) = Inr h1" "forest h1 (without p kids)" "same_data h h1"
      "pa (view h1) = (pa (view h))(p := None)" by auto
    with True p(1) Cons.prems(2) show ?thesis
      using that [of h1 m] by (simp add: place_footnote_def)
  next
    case False
    from append_ok [OF l(1) lv(2,1) placeable_contain [OF p(2) Cons.prems(2)]]
    obtain h1 where a: "cmark_node_append_child env h (Some root) (Some p) = Inr (True, h1)" "same_data h h1"
      "links h1 ((without p kids)(root := without p kids root @ [p]))" "live (view h1) = live (view h)"
      "pa (view h1) = (pa (view h))(p := Some root)" by blast
    have "p \<notin> ancestors (view h) root" using Cons.prems(2) neq by (simp add: ancestors_root)
    with forest_link [OF l(2) _ a(4,5)] a(3)
    have "forest h1 ((without p kids)(root := without p kids root @ [p]))" by (simp add: forest_def)
    moreover have "pa (view h1) root = None" using a(5) neq Cons.prems(2) by simp
    ultimately show ?thesis
      using False p(1) a(1,2) that [of h1 "change_entry (me_age e) (fn_node_update (\<lambda>_. None)) m"]
      by (simp add: place_footnote_def change_entry_refs)
  qed
  have "\<forall>e \<in> set es. \<exists>p. fn_node e = Some p \<and> placeable h1 root p"
    using Cons.prems(3) placeable_same [OF _ h1(2)] by fastforce
  from Cons.IH [OF h1(3,4) this, of m1] obtain h2 m2 where h2:
    "each (place_footnote env root) es (h1, m1) = Inr (h2, m2)"
    "forest h2 (placed root es (if fn_ix e = 0 then without p kids else (without p kids)(root := without p kids root @ [p])))"
    "same_data h1 h2" "refs m2 = map (forget es) (refs m1)" by blast
  have "refs m2 = map (forget (e # es)) (refs m)" by (simp add: h2(4) h1(5) forget_Cons)
  moreover have "same_data h h2" using same_data_trans [OF h1(2) h2(3)] .
  ultimately show ?case using h1(1) h2(1,2) p(1) by (auto simp: Let_def)
qed

text \<open>
  C4: When the references have been numbered, the definitions that are referenced become the last
  children of the document, in the order of their numbers, and the map forgets them; every other
  definition of the sorted array leaves its parent and stays in the map, to be freed with it.
\<close>

theorem footnotes_placed_in_order:
  assumes "forest h kids" "pa (view h) root = None" "sorted_refs m = Some arr"
    "\<forall>e \<in> set (take (unat (map_size m)) arr). \<exists>p. fn_node e = Some p \<and> placeable h root p"
    "distinct (fn_nodes (take (unat (map_size m)) arr))"
  shows "\<exists>h' m' ds. place_footnotes env root (h, m) = Inr (h', m') \<and>
    mset ds = mset (filter (\<lambda>e. fn_ix e \<noteq> 0) (take (unat (map_size m)) arr)) \<and>
    sorted (map (\<lambda>e. sint (fn_ix e)) ds) \<and>
    forest h' (\<lambda>q. filter (\<lambda>c. c \<notin> set (fn_nodes (take (unat (map_size m)) arr))) (kids q) @
      (if q = root then fn_nodes ds else [])) \<and>
    same_data h h' \<and> refs m' = map (forget ds) (refs m)"
proof -
  let ?es = "take (unat (map_size m)) arr" and ?n = "\<lambda>e. the (fn_node e)"
  let ?s = "qsort sort_footnote_by_ix ?es"
  let ?ds = "filter (\<lambda>e. fn_ix e \<noteq> 0) ?s"
  have q: "sorted (map (\<lambda>e. sint (fn_ix e)) ?s)" "mset ?s = mset ?es"
    using ix_order.qsort_sorted [of ?es] by simp_all
  have se: "set ?s = set ?es" using q(2) by (rule mset_eq_setD)
  have nodes: "fn_nodes es = map ?n es" if "set es \<subseteq> set ?es" for es
    using that assms(4) by (induction es) auto
  have d: "distinct (map ?n ?s)"
    using assms(5) q(2) nodes [of ?es] by (metis mset_eq_imp_distinct_iff mset_map subset_refl)
  obtain h' m' where r: "each (place_footnote env root) ?s (h, m\<lparr>sorted_refs := Some (?s @ drop (unat (map_size m)) arr)\<rparr>) =
      Inr (h', m')" "forest h' (placed root ?s kids)" "same_data h h'" "refs m' = map (forget ?s) (refs m)"
    using place_each [OF assms(1,2), of ?s env "m\<lparr>sorted_refs := Some (?s @ drop (unat (map_size m)) arr)\<rparr>"]
      assms(4) se by auto
  have "set ?ds \<subseteq> set ?es" using se by auto
  then have k: "placed root ?s kids = (\<lambda>q. filter (\<lambda>c. c \<notin> set (fn_nodes ?es)) (kids q) @
      (if q = root then fn_nodes ?ds else []))"
    using nodes [of ?es] nodes [of ?ds] by (simp add: fun_eq_iff placed_eq [OF d] se)
  have "forget ?s = forget ?ds" by (auto simp: forget_def fun_eq_iff)
  moreover have "mset ?ds = mset (filter (\<lambda>e. fn_ix e \<noteq> 0) ?es)" using q(2) by (simp add: mset_filter)
  moreover have "sorted (map (\<lambda>e. sint (fn_ix e)) ?ds)" using q(1) by (rule sorted_filter)
  moreover have "place_footnotes env root (h, m) = Inr (h', m')"
    using assms(3) r(1) by (simp add: place_footnotes_def Let_def)
  ultimately show ?thesis using r(2-4) unfolding k by (intro exI conjI) simp_all
qed

definition numbered_map :: footnote_map where
  "numbered_map = nested_map\<lparr>sorted_refs := Some [(entry_of ''a'' 1)\<lparr>me_age := 1, fn_ix := 1\<rparr>, entry_of ''b'' 2]\<rparr>"

theorem footnotes_placed_in_order_witness:
  "\<exists>h' m'. place_footnotes sample_env 0 (nested_definitions, numbered_map) = Inr (h', m') \<and>
     (\<exists>kids. forest h' kids \<and> kids 0 = [1] \<and> kids 1 = []) \<and> fn_nodes (refs m') = [2]"
proof -
  have "check_forest nested_definitions [[1], [2], []]" by code_simp
  note f = check_forest [OF this]
  have n: "take (unat (map_size numbered_map)) [(entry_of ''a'' 1)\<lparr>me_age := 1, fn_ix := 1\<rparr>, entry_of ''b'' 2] =
      [(entry_of ''a'' 1)\<lparr>me_age := 1, fn_ix := 1\<rparr>, entry_of ''b'' 2]"
    by (simp add: numbered_map_def nested_map_def push_entry_def cmark_footnote_map_new_def cmark_map_new_def)
  have p: "placeable nested_definitions 0 1" "placeable nested_definitions 0 2"
    by (simp_all add: placeable_def cell_def nested_definitions_def sample_node_def node_zero_def)
  have r: "pa (view nested_definitions) 0 = None"
    by (simp add: view_def cell_def nested_definitions_def sample_node_def node_zero_def)
  have s: "sorted_refs numbered_map = Some [(entry_of ''a'' 1)\<lparr>me_age := 1, fn_ix := 1\<rparr>, entry_of ''b'' 2]"
    by (simp add: numbered_map_def)
  obtain h' m' ds where w: "place_footnotes sample_env 0 (nested_definitions, numbered_map) = Inr (h', m')"
    "mset ds = {#(entry_of ''a'' 1)\<lparr>me_age := 1, fn_ix := 1\<rparr>#}"
    "forest h' (\<lambda>q. filter (\<lambda>c. c \<notin> {1, 2}) (kids_of [[1], [2], []] q) @ (if q = 0 then fn_nodes ds else []))"
    "refs m' = map (forget ds) (refs numbered_map)"
    using footnotes_placed_in_order [OF f r s, of sample_env] p
    unfolding n by (auto simp: entry_of_def insert_commute)
  have ds: "ds = [(entry_of ''a'' 1)\<lparr>me_age := 1, fn_ix := 1\<rparr>]" using w(2) by simp
  have "fn_nodes (refs m') = [2]"
    unfolding w(4) ds
    by (simp add: numbered_map_def nested_map_def push_entry_def cmark_footnote_map_new_def cmark_map_new_def
        forget_def entry_of_def)
  with w(1,3) ds show ?thesis by (auto simp: kids_of_def entry_of_def intro!: exI)
qed

end
