(* ===== verification/Arena.thy ===== *)
theory Arena
  imports Prelude
begin

text \<open>
  The arena allocator: src/src/arena.c.

  \<open>arena\<close> is the list of chunks from \<open>A\<close> along the \<open>prev\<close> pointers.  Each chunk owns a block of
  memory that \<open>calloc\<close> has zeroed; a pointer into the arena is the number of a block and an offset.
  The \<open>size_t\<close> that the allocator keeps in front of every allocation is written into the bytes of the
  block, least significant byte first.  \<open>calloc\<close> is assumed to fail for objects of more than \<open>PTRDIFF_MAX\<close> bytes
  only; the code then aborts.  The lock around each operation makes it one step.
\<close>

section \<open>The state\<close>

record arena_chunk =
  ac_sz :: "64 word"
  ac_used :: "64 word"
  push_point :: bool
  ac_ptr :: nat

record arena_block =
  blk_len :: nat
  blk_bytes :: "nat \<Rightarrow> byte"

record arena_state =
  arena :: "arena_chunk list"
  blocks :: "nat \<Rightarrow> arena_block option"
  next_block :: nat

type_synonym aptr = "nat \<times> nat"

definition no_arena :: arena_state where
  "no_arena = \<lparr>arena = [], blocks = \<lambda>_. None, next_block = 0\<rparr>"

section \<open>The code\<close>

definition PTRDIFF_MAX :: nat where "PTRDIFF_MAX = 9223372036854775807"

definition alloc_arena_chunk :: "64 word \<Rightarrow> arena_state \<Rightarrow> (arena_chunk \<times> arena_state) res" where
  "alloc_arena_chunk sz st =
     (let i = next_block st
      in bindr (guard (unat sz \<le> PTRDIFF_MAX) Abort) (\<lambda>_.
         Inr (\<lparr>ac_sz = sz, ac_used = 0, push_point = False, ac_ptr = i\<rparr>,
          st\<lparr>blocks := (blocks st)(i \<mapsto> \<lparr>blk_len = unat sz, blk_bytes = \<lambda>_. 0\<rparr>),
             next_block := Suc i\<rparr>)))"

definition cmark_arena_push :: "arena_state \<Rightarrow> arena_state res" where
  "cmark_arena_push st =
     (case arena st of [] \<Rightarrow> Inr st
      | a # prev \<Rightarrow>
          bindr (alloc_arena_chunk 10240 st) (\<lambda>(c, st).
          Inr (st\<lparr>arena := c # a\<lparr>push_point := True\<rparr> # prev\<rparr>)))"

text \<open>The chunks that stay, and the blocks that are freed.\<close>

fun pop_chunks :: "arena_chunk list \<Rightarrow> (nat \<Rightarrow> arena_block option) \<Rightarrow> arena_chunk list \<times> (nat \<Rightarrow> arena_block option)" where
  "pop_chunks [] bs = ([], bs)"
| "pop_chunks (c # cs) bs = (if push_point c then (c # cs, bs) else pop_chunks cs (bs(ac_ptr c := None)))"

definition cmark_arena_pop :: "arena_state \<Rightarrow> int \<times> arena_state" where
  "cmark_arena_pop st =
     (if arena st = [] then (0, st)
      else
        let (cs, bs) = pop_chunks (arena st) (blocks st);
            cs = (case cs of [] \<Rightarrow> [] | c # cs \<Rightarrow> c\<lparr>push_point := False\<rparr> # cs)
        in (1, st\<lparr>arena := cs, blocks := bs\<rparr>))"

definition init_arena :: "arena_state \<Rightarrow> arena_state res" where
  "init_arena st = bindr (alloc_arena_chunk (4 * 1048576) st) (\<lambda>(c, st). Inr (st\<lparr>arena := [c]\<rparr>))"

fun free_chunks :: "arena_chunk list \<Rightarrow> (nat \<Rightarrow> arena_block option) \<Rightarrow> nat \<Rightarrow> arena_block option" where
  "free_chunks [] bs = bs"
| "free_chunks (c # cs) bs = free_chunks cs (bs(ac_ptr c := None))"

definition cmark_arena_reset :: "arena_state \<Rightarrow> arena_state" where
  "cmark_arena_reset st = st\<lparr>arena := [], blocks := free_chunks (arena st) (blocks st)\<rparr>"

text \<open>The bytes of a \<open>size_t\<close> in memory: writing and reading the header of an allocation.\<close>

definition size_byte :: "64 word \<Rightarrow> nat \<Rightarrow> byte" where
  "size_byte w k = ucast (drop_bit (8 * k) w)"

definition write_size :: "(nat \<Rightarrow> byte) \<Rightarrow> nat \<Rightarrow> 64 word \<Rightarrow> nat \<Rightarrow> byte" where
  "write_size f off w = (\<lambda>x. if off \<le> x \<and> x < off + 8 then size_byte w (x - off) else f x)"

definition read_size :: "(nat \<Rightarrow> byte) \<Rightarrow> nat \<Rightarrow> 64 word" where
  "read_size f off = foldr (\<lambda>k w. ucast (f (off + k)) OR push_bit 8 w) [0..<8] 0"

definition store_size :: "nat \<Rightarrow> nat \<Rightarrow> 64 word \<Rightarrow> arena_state \<Rightarrow> arena_state res" where
  "store_size i off w st =
     (case blocks st i of None \<Rightarrow> Inl Bad_pointer
      | Some b \<Rightarrow>
          if off + 8 \<le> blk_len b
          then Inr (st\<lparr>blocks := (blocks st)(i \<mapsto> b\<lparr>blk_bytes := write_size (blk_bytes b) off w\<rparr>)\<rparr>)
          else Inl Out_of_bounds)"

text \<open>The size of an allocation with its header, rounded up to a multiple of eight.\<close>

definition round_size :: "64 word \<Rightarrow> 64 word \<Rightarrow> 64 word" where
  "round_size nmem len = (nmem * len + 8 + 7) AND NOT 7"

text \<open>The chunk to allocate from, between those before and after it in the list.\<close>

definition choose_chunk ::
  "64 word \<Rightarrow> arena_chunk \<Rightarrow> arena_chunk list \<Rightarrow> arena_state \<Rightarrow>
     (arena_chunk list \<times> arena_chunk \<times> arena_chunk list \<times> arena_state) res" where
  "choose_chunk sz a prev st =
     (if sz > ac_sz a
      then bindr (alloc_arena_chunk sz st) (\<lambda>(c, st). Inr ([a], c, prev, st))
      else if sz > ac_sz a - ac_used a
      then bindr (alloc_arena_chunk (ac_sz a + ac_sz a div 2) st) (\<lambda>(c, st). Inr ([], c, a # prev, st))
      else Inr ([], a, prev, st))"

definition arena_calloc :: "64 word \<Rightarrow> 64 word \<Rightarrow> arena_state \<Rightarrow> (aptr \<times> arena_state) res" where
  "arena_calloc nmem len st =
     bindr (if arena st = [] then init_arena st else Inr st) (\<lambda>st.
     let sz = round_size nmem len in
     case arena st of
       [] \<Rightarrow> Inl Null_deref
     | a # prev \<Rightarrow>
         bindr (choose_chunk sz a prev st) (\<lambda>(before, chunk, after, st).
         let off = unat (ac_used chunk) in
         bindr (store_size (ac_ptr chunk) off (sz - 8) st) (\<lambda>st.
         Inr ((ac_ptr chunk, off + 8),
              st\<lparr>arena := before @ chunk\<lparr>ac_used := ac_used chunk + sz\<rparr> # after\<rparr>))))"

definition memcpy :: "aptr \<Rightarrow> aptr \<Rightarrow> nat \<Rightarrow> arena_state \<Rightarrow> arena_state res" where
  "memcpy dst src n st =
     (case (blocks st (fst dst), blocks st (fst src)) of
        (Some d, Some s) \<Rightarrow>
          if snd dst + n \<le> blk_len d \<and> snd src + n \<le> blk_len s
          then Inr (st\<lparr>blocks := (blocks st)(fst dst \<mapsto> d\<lparr>blk_bytes := \<lambda>x.
                 if snd dst \<le> x \<and> x < snd dst + n then blk_bytes s (x - snd dst + snd src)
                 else blk_bytes d x\<rparr>)\<rparr>)
          else Inl Out_of_bounds
      | _ \<Rightarrow> Inl Bad_pointer)"

definition arena_realloc :: "aptr option \<Rightarrow> 64 word \<Rightarrow> arena_state \<Rightarrow> (aptr \<times> arena_state) res" where
  "arena_realloc p len st =
     bindr (if arena st = [] then init_arena st else Inr st) (\<lambda>st.
     bindr (arena_calloc 1 len st) (\<lambda>(new_ptr, st).
     case p of
       None \<Rightarrow> Inr (new_ptr, st)
     | Some (i, off) \<Rightarrow>
         (case blocks st i of None \<Rightarrow> Inl Bad_pointer
          | Some b \<Rightarrow>
              bindr (guard (8 \<le> off \<and> off \<le> blk_len b) Out_of_bounds) (\<lambda>_.
              bindr (memcpy new_ptr (i, off) (unat (read_size (blk_bytes b) (off - 8))) st) (\<lambda>st.
              Inr (new_ptr, st))))))"

definition arena_free :: "aptr \<Rightarrow> arena_state \<Rightarrow> arena_state" where
  "arena_free p st = st"

text \<open>What is written is read back, and the rest of the block stays.\<close>

lemma size_bytes_from:
  "foldr (\<lambda>k v. ucast (size_byte w (j + k)) OR push_bit 8 v) [0..<m] 0 = take_bit (8 * m) (drop_bit (8 * j) w)"
proof (induction m arbitrary: j)
  case (Suc m)
  have "foldr (\<lambda>k v. ucast (size_byte w (j + k)) OR push_bit 8 v) [0..<Suc m] 0 =
      ucast (size_byte w j) OR push_bit 8 (foldr (\<lambda>k v. ucast (size_byte w (Suc j + k)) OR push_bit 8 v) [0..<m] 0)"
    by (simp only: upt_conv_Cons [OF zero_less_Suc] map_Suc_upt [symmetric] foldr_map o_def foldr.simps
        add_0_right add_Suc_right add_Suc)
  also have "\<dots> = take_bit (8 * Suc m) (drop_bit (8 * j) w)"
    unfolding Suc by (rule bit_word_eqI) (auto simp: bit_simps size_byte_def)
  finally show ?case .
qed simp

lemma read_write_size [simp]: "read_size (write_size f off w) off = w"
proof -
  have "read_size (write_size f off w) off = foldr (\<lambda>k v. ucast (size_byte w (0 + k)) OR push_bit 8 v) [0..<8] 0"
    unfolding read_size_def write_size_def by (rule foldr_cong) auto
  also have "\<dots> = w" unfolding size_bytes_from by (rule bit_word_eqI) (simp add: bit_simps)
  finally show ?thesis .
qed

lemma read_write_other [simp]:
  "off' + 8 \<le> off \<or> off + 8 \<le> off' \<Longrightarrow> read_size (write_size f off w) off' = read_size f off'"
  unfolding read_size_def write_size_def by (rule foldr_cong) auto

lemma write_size_other [simp]: "x < off \<or> off + 8 \<le> x \<Longrightarrow> write_size f off w x = f x"
  by (auto simp: write_size_def)

section \<open>What is in use\<close>

text \<open>The bytes that have been handed out or hold a size.\<close>

definition in_use :: "arena_state \<Rightarrow> aptr \<Rightarrow> bool" where
  "in_use st x \<longleftrightarrow> (\<exists>c \<in> set (arena st). ac_ptr c = fst x \<and> snd x < unat (ac_used c))"

definition byte_at :: "arena_state \<Rightarrow> aptr \<Rightarrow> byte option" where
  "byte_at st x =
     (case blocks st (fst x) of None \<Rightarrow> None
      | Some b \<Rightarrow> if snd x < blk_len b then Some (blk_bytes b (snd x)) else None)"

text \<open>A chunk fits its block, which is zero beyond what is used.\<close>

definition chunk_fits :: "arena_state \<Rightarrow> arena_chunk \<Rightarrow> bool" where
  "chunk_fits st c \<longleftrightarrow>
     ac_used c \<le> ac_sz c \<and> unat (ac_sz c) \<le> PTRDIFF_MAX \<and> 8 dvd unat (ac_used c) \<and>
     (\<exists>b. blocks st (ac_ptr c) = Some b \<and> blk_len b = unat (ac_sz c) \<and>
        (\<forall>x \<ge> unat (ac_used c). blk_bytes b x = 0))"

definition arena_ok :: "arena_state \<Rightarrow> bool" where
  "arena_ok st \<longleftrightarrow>
     (\<forall>c \<in> set (arena st). chunk_fits st c \<and> ac_ptr c < next_block st) \<and>
     distinct (map ac_ptr (arena st)) \<and>
     (\<forall>c prev. arena st = c # prev \<longrightarrow> \<not> push_point c)"

lemma no_arena_ok: "arena_ok no_arena"
  by (simp add: arena_ok_def no_arena_def)

lemma alloc_chunk:
  assumes "alloc_arena_chunk sz st = Inr (c, st')" "arena_ok st"
  shows "arena st' = arena st" "next_block st' = Suc (next_block st)" "ac_ptr c = next_block st"
    "ac_used c = 0" "ac_sz c = sz" "\<not> push_point c" "chunk_fits st' c"
    "\<And>d. d \<in> set (arena st) \<Longrightarrow> chunk_fits st' d \<and> ac_ptr d \<noteq> ac_ptr c \<and> ac_ptr d < Suc (next_block st)"
    "\<And>i. i \<noteq> next_block st \<Longrightarrow> blocks st' i = blocks st i"
  using assms by (auto simp: alloc_arena_chunk_def Let_def chunk_fits_def arena_ok_def)

lemma arena_okI:
  assumes "\<And>c. c \<in> set (arena st) \<Longrightarrow> chunk_fits st c \<and> ac_ptr c < next_block st"
    and "distinct (map ac_ptr (arena st))" "\<And>c prev. arena st = c # prev \<Longrightarrow> \<not> push_point c"
  shows "arena_ok st"
  using assms by (simp add: arena_ok_def)

lemma arena_okD:
  assumes "arena_ok st"
  shows "c \<in> set (arena st) \<Longrightarrow> chunk_fits st c" "c \<in> set (arena st) \<Longrightarrow> ac_ptr c < next_block st"
    "distinct (map ac_ptr (arena st))" "arena st = c # prev \<Longrightarrow> \<not> push_point c"
  using assms by (simp_all add: arena_ok_def)

lemma chunk_fits_frame [simp]:
  "chunk_fits (st\<lparr>arena := cs\<rparr>) c = chunk_fits st c"
  "chunk_fits st (c\<lparr>push_point := b\<rparr>) = chunk_fits st c"
  by (simp_all add: chunk_fits_def)

lemma init_ok:
  assumes "arena_ok st" "arena st = []"
  obtains c st' where "init_arena st = Inr st'" "arena_ok st'" "arena st' = [c]"
    "\<And>y. \<not> in_use st y" "\<And>y. \<not> in_use st' y"
proof -
  obtain st' where st': "init_arena st = Inr st'" "arena st' = [\<lparr>ac_sz = 4194304, ac_used = 0, push_point = False,
      ac_ptr = next_block st\<rparr>]" "arena_ok st'"
    by (simp add: init_arena_def alloc_arena_chunk_def Let_def PTRDIFF_MAX_def arena_ok_def chunk_fits_def)
  then show thesis by (intro that [OF st'(1,3,2)]) (use assms in \<open>auto simp: in_use_def\<close>)
qed

lemma push_ok:
  assumes "arena_ok st"
  shows "\<exists>st'. cmark_arena_push st = Inr st' \<and> arena_ok st' \<and>
    (case arena st of [] \<Rightarrow> st' = st | a # prev \<Rightarrow> \<exists>c. arena st' = c # a\<lparr>push_point := True\<rparr> # prev \<and> \<not> push_point c)"
proof (cases "arena st")
  case Nil
  then show ?thesis using assms by (simp add: cmark_arena_push_def)
next
  case (Cons a prev)
  obtain c st1 where c: "alloc_arena_chunk 10240 st = Inr (c, st1)"
    by (simp add: alloc_arena_chunk_def Let_def PTRDIFF_MAX_def)
  note n = alloc_chunk [OF c assms]
  have "cmark_arena_push st = Inr (st1\<lparr>arena := c # a\<lparr>push_point := True\<rparr> # prev\<rparr>)"
    using Cons c by (simp add: cmark_arena_push_def)
  moreover have "arena_ok (st1\<lparr>arena := c # a\<lparr>push_point := True\<rparr> # prev\<rparr>)"
  proof (rule arena_okI)
    have "ac_ptr c \<notin> ac_ptr ` set (a # prev)" using n(8) Cons by fastforce
    then show "distinct (map ac_ptr (arena (st1\<lparr>arena := c # a\<lparr>push_point := True\<rparr> # prev\<rparr>)))"
      using arena_okD(3) [OF assms] Cons by simp
  qed (use n(2,3,6-8) Cons in auto)
  ultimately show ?thesis using Cons n(6) by simp
qed

section \<open>One allocation\<close>

lemma round_size_ge:
  assumes "unat nmem * unat len + 15 < 2 ^ 64"
  shows "unat nmem * unat len + 8 \<le> unat (round_size nmem len)" "8 dvd unat (round_size nmem len)"
proof -
  let ?w = "15 + nmem * len"
  have u: "unat ?w = unat nmem * unat len + 15"
    using assms by (simp add: unat_word_ariths add.assoc)
  have r: "round_size nmem len = push_bit 3 (drop_bit 3 ?w)"
  proof -
    have m: "(7 :: int) = mask 3" by (simp add: mask_eq_exp_minus_1)
    have b: "bit (7 :: int) n \<longleftrightarrow> n < 3" for n unfolding m bit_mask_iff by auto
    have "x AND NOT 7 = push_bit 3 (drop_bit 3 x)" for x :: "64 word"
      by (rule bit_word_eqI) (auto simp: bit_simps b)
    then show ?thesis by (simp add: round_size_def)
  qed
  have d: "unat (drop_bit 3 ?w) = (unat nmem * unat len + 15) div 8"
    unfolding unsigned_drop_bit_eq u using assms by (simp add: drop_bit_eq_div take_bit_nat_eq_self [of _ 64])
  have v: "unat (round_size nmem len) = (unat nmem * unat len + 15) div 8 * 8"
  proof -
    have "(unat nmem * unat len + 15) div 8 * 8 < 2 ^ 64" using assms by simp
    then show ?thesis by (simp add: r push_bit_eq_mult unat_word_ariths d)
  qed
  show "unat nmem * unat len + 8 \<le> unat (round_size nmem len)" "8 dvd unat (round_size nmem len)"
    using v by simp_all
qed

lemma unat_add_small:
  fixes a b :: "64 word"
  assumes "unat a + unat b < 2 ^ 64"
  shows "unat (a + b) = unat a + unat b"
  using assms by (simp add: unat_word_ariths)

text \<open>The chunk that is chosen has room, and choosing it changes nothing that is in use.\<close>

lemma choose_chunk:
  assumes ok: "arena_ok st" and a: "arena st = a # prev" 
    and c: "choose_chunk sz a prev st = Inr (before, c, after, st')"
  shows "arena_ok (st'\<lparr>arena := before @ c # after\<rparr>)" "unat (ac_used c) + unat sz \<le> unat (ac_sz c)"
    "set (arena st) \<subseteq> set (before @ c # after)" "ac_used c = 0 \<or> c \<in> set (arena st)"
    "\<And>i b. blocks st i = Some b \<Longrightarrow> i < next_block st \<Longrightarrow> blocks st' i = Some b"
proof -
  have fit: "ac_used a \<le> ac_sz a" and small: "unat (ac_sz a) < 2 ^ 63"
    using arena_okD(1) [OF ok, of a] a by (simp_all add: chunk_fits_def PTRDIFF_MAX_def)
  note D = arena_okD [OF ok]
  have half: "unat (ac_sz a) \<le> unat (ac_sz a + ac_sz a div 2)"
    using small by (subst unat_add_small) (simp_all add: unat_div_distrib)
  consider (big) st1 where "sz > ac_sz a" "alloc_arena_chunk sz st = Inr (c, st1)" "before = [a]" "after = prev" "st' = st1"
    | (new) st1 where "\<not> sz > ac_sz a" "alloc_arena_chunk (ac_sz a + ac_sz a div 2) st = Inr (c, st1)"
        "before = []" "after = a # prev" "st' = st1"
    | (old) "\<not> sz > ac_sz a - ac_used a" "before = []" "c = a" "after = prev" "st' = st"
    using c by (auto simp: choose_chunk_def Let_def split: if_splits prod.splits)
  note cs = this
  have "arena_ok (st'\<lparr>arena := before @ c # after\<rparr>) \<and> unat (ac_used c) + unat sz \<le> unat (ac_sz c) \<and>
    set (arena st) \<subseteq> set (before @ c # after) \<and> (ac_used c = 0 \<or> c \<in> set (arena st)) \<and>
    (\<forall>i b. blocks st i = Some b \<longrightarrow> i < next_block st \<longrightarrow> blocks st' i = Some b)"
    using cs
  proof cases
    case big
    note n = alloc_chunk [OF big(2) ok]
    have f: "ac_ptr c \<notin> ac_ptr ` set (a # prev)" using n(8) a by fastforce
    have "arena_ok (st'\<lparr>arena := before @ c # after\<rparr>)"
      unfolding big(3-5)
      by (rule arena_okI) (use n(2,3,6-8) f D(3,4) a in auto)
    then show ?thesis using big(3-5) n(4,5,9) a by auto
  next
    case new
    note n = alloc_chunk [OF new(2) ok]
    have f: "ac_ptr c \<notin> ac_ptr ` set (a # prev)" using n(8) a by fastforce
    have "arena_ok (st'\<lparr>arena := before @ c # after\<rparr>)"
      unfolding new(3-5)
      by (rule arena_okI) (use n(2,3,6-8) f D(3,4) a in auto)
    moreover have "unat sz \<le> unat (ac_sz a + ac_sz a div 2)"
      using new(1) half by (simp add: word_less_nat_alt)
    ultimately show ?thesis using new(3-5) n(4,5,9) a by auto
  next
    case old
    have "unat sz \<le> unat (ac_sz a) - unat (ac_used a)"
      using old(1) fit by (simp add: word_less_nat_alt unat_sub)
    moreover have "unat (ac_used a) \<le> unat (ac_sz a)" using fit by (simp add: word_le_nat_alt)
    moreover have "st\<lparr>arena := a # prev\<rparr> = st" using a by (cases st) simp
    then have "arena_ok (st'\<lparr>arena := before @ c # after\<rparr>)" using ok old by simp
    ultimately show ?thesis using old a by simp
  qed
  then show "arena_ok (st'\<lparr>arena := before @ c # after\<rparr>)" "unat (ac_used c) + unat sz \<le> unat (ac_sz c)"
    "set (arena st) \<subseteq> set (before @ c # after)" "ac_used c = 0 \<or> c \<in> set (arena st)"
    "\<And>i b. blocks st i = Some b \<Longrightarrow> i < next_block st \<Longrightarrow> blocks st' i = Some b" by blast+
qed

lemma calloc_nonempty:
  assumes ok: "arena_ok st" and a: "arena st = a # prev"
    and fits: "unat nmem * unat len + 15 < 2 ^ 64"
    and run: "arena_calloc nmem len st = Inr ((i, off), st')"
  shows "arena_ok st' \<and> 8 dvd off \<and>
    (\<forall>x < unat nmem * unat len. \<not> in_use st (i, off + x) \<and> in_use st' (i, off + x) \<and>
       byte_at st' (i, off + x) = Some 0) \<and>
    (\<forall>y. in_use st y \<longrightarrow> in_use st' y \<and> byte_at st' y = byte_at st y)"
proof -
  let ?sz = "round_size nmem len"
  obtain before c after st1 where ch: "choose_chunk ?sz a prev st = Inr (before, c, after, st1)"
    using run a by (cases "choose_chunk ?sz a prev st") (auto simp: arena_calloc_def)
  note C = choose_chunk [OF ok a ch] and R = round_size_ge [OF fits]
  let ?l = "before @ c # after" and ?off = "unat (ac_used c)"
  note D = arena_okD [OF C(1), simplified]
  have dist: "d = c" if "d \<in> set ?l" "ac_ptr d = ac_ptr c" for d
    using D(3) that by (auto simp: image_iff)
  obtain b where b: "blocks st1 (ac_ptr c) = Some b" "blk_len b = unat (ac_sz c)"
    "\<And>x. ?off \<le> x \<Longrightarrow> blk_bytes b x = 0" and div: "8 dvd ?off" and lim: "unat (ac_sz c) \<le> PTRDIFF_MAX"
    using D(1) [of c] by (auto simp: chunk_fits_def)
  let ?b = "b\<lparr>blk_bytes := write_size (blk_bytes b) ?off (?sz - 8)\<rparr>"
  let ?c = "c\<lparr>ac_used := ac_used c + ?sz\<rparr>"
  let ?st = "st1\<lparr>blocks := (blocks st1)(ac_ptr c \<mapsto> ?b), arena := before @ ?c # after\<rparr>"
  have room: "?off + 8 \<le> blk_len b" using C(2) R(1) b(2) by simp
  have used: "unat (ac_used ?c) = ?off + unat ?sz"
    using C(2) unsigned_less [of "ac_sz c", where 'a = nat]
    by (simp, subst unat_add_small) simp_all
  have res: "i = ac_ptr c" "off = ?off + 8" "st' = ?st"
    using run a ch room b(1) by (auto simp: arena_calloc_def Let_def store_size_def)
  have ok': "arena_ok ?st"
  proof (rule arena_okI)
    fix d assume "d \<in> set (arena ?st)"
    then consider "d = ?c" | "d \<in> set before \<union> set after" "ac_ptr d \<noteq> ac_ptr c"
      using D(3) by (auto simp: image_iff)
    then show "chunk_fits ?st d \<and> ac_ptr d < next_block ?st"
    proof cases
      case 1
      have "ac_used ?c \<le> ac_sz ?c" using used C(2) by (simp add: word_le_nat_alt)
      moreover have "8 dvd unat (ac_used ?c)" unfolding used using div R(2) by simp
      moreover have "write_size (blk_bytes b) ?off (?sz - 8) x = 0" if "?off + unat ?sz \<le> x" for x
        using that R(1) b(3) by simp
      ultimately show ?thesis using 1 b(2) used lim D(2) [of c] by (simp add: chunk_fits_def)
    next
      case 2
      then have "chunk_fits st1 d" "ac_ptr d < next_block st1" using D(1,2) [of d] by auto
      then show ?thesis using 2 by (simp add: chunk_fits_def)
    qed
  next
    show "distinct (map ac_ptr (arena ?st))" using D(3) by simp
    show "\<not> push_point d" if "arena ?st = d # ds" for d ds
      using that D(4) by (cases before) auto
  qed
  have fresh: "\<not> in_use st (ac_ptr c, ?off + 8 + x)" for x
  proof
    assume "in_use st (ac_ptr c, ?off + 8 + x)"
    then obtain d where d: "d \<in> set (arena st)" "ac_ptr d = ac_ptr c" "?off + 8 + x < unat (ac_used d)"
      by (auto simp: in_use_def)
    from d(1) C(3) have "d \<in> set ?l" by blast
    then have "d = c" using d(2) by (rule dist)
    then show False using d(3) by simp
  qed
  have new: "in_use ?st (ac_ptr c, ?off + 8 + x) \<and> byte_at ?st (ac_ptr c, ?off + 8 + x) = Some 0"
    if "x < unat nmem * unat len" for x
  proof -
    have lt: "?off + 8 + x < ?off + unat ?sz" using that R(1) by simp
    have "?off + 8 + x < blk_len b" using lt C(2) b(2) by simp
    then have "byte_at ?st (ac_ptr c, ?off + 8 + x) = Some 0" using b(3) by (simp add: byte_at_def)
    moreover have "in_use ?st (ac_ptr c, ?off + 8 + x)"
      unfolding in_use_def using lt used by (intro bexI [of _ ?c]) simp_all
    ultimately show ?thesis by simp
  qed
  have keep: "in_use ?st y \<and> byte_at ?st y = byte_at st y" if "in_use st y" for y
  proof -
    note y = that
    obtain d where d: "d \<in> set (arena st)" "ac_ptr d = fst y" "snd y < unat (ac_used d)"
      using y by (auto simp: in_use_def)
    obtain bd where bd: "blocks st (ac_ptr d) = Some bd" using arena_okD(1) [OF ok d(1)] by (auto simp: chunk_fits_def)
    have b1: "blocks st1 (ac_ptr d) = Some bd" by (rule C(5) [OF bd arena_okD(2) [OF ok d(1)]])
    have dl: "d \<in> set ?l" using d(1) C(3) by blast
    then have "d = c \<or> d \<in> set before \<union> set after" by auto
    then have "in_use ?st y"
    proof
      assume "d = c"
      then show ?thesis unfolding in_use_def using d used by (intro bexI [of _ ?c]) simp_all
    next
      assume "d \<in> set before \<union> set after"
      then show ?thesis unfolding in_use_def using d by (intro bexI [of _ d]) auto
    qed
    moreover have "ac_ptr c = fst y \<Longrightarrow> snd y < ?off"
      using dist [OF dl] d(2,3) by simp
    then have "byte_at ?st y = byte_at st y"
      using bd b1 b(1) d(2) by (cases "ac_ptr c = fst y") (auto simp: byte_at_def)
    ultimately show ?thesis by simp
  qed
  show ?thesis
    unfolding res using ok' div fresh new keep by (auto simp: add.assoc)
qed

lemma calloc_fresh:
  assumes ok: "arena_ok st" and fits: "unat nmem * unat len + 15 < 2 ^ 64"
    and run: "arena_calloc nmem len st = Inr ((i, off), st')"
  shows "arena_ok st' \<and> 8 dvd off \<and>
    (\<forall>x < unat nmem * unat len. \<not> in_use st (i, off + x) \<and> in_use st' (i, off + x) \<and>
       byte_at st' (i, off + x) = Some 0) \<and>
    (\<forall>y. in_use st y \<longrightarrow> in_use st' y \<and> byte_at st' y = byte_at st y)"
proof (cases "arena st")
  case (Cons a prev)
  show ?thesis by (rule calloc_nonempty [OF ok Cons fits run])
next
  case Nil
  obtain c st0 where 0: "init_arena st = Inr st0" "arena_ok st0" "arena st0 = [c]"
    "\<And>y. \<not> in_use st y" "\<And>y. \<not> in_use st0 y"
    by (rule init_ok [OF ok Nil]) blast
  have "arena_calloc nmem len st0 = Inr ((i, off), st')"
    using run 0(1,3) Nil by (simp add: arena_calloc_def)
  from calloc_nonempty [OF 0(2,3) fits this] 0(4) show ?thesis by blast
qed

text \<open>The header says how many bytes there are; whatever is asked for, they end inside the block.\<close>

definition alloc_size :: "arena_state \<Rightarrow> aptr \<Rightarrow> 64 word option" where
  "alloc_size st p =
     (case blocks st (fst p) of None \<Rightarrow> None
      | Some b \<Rightarrow> if 8 \<le> snd p then Some (read_size (blk_bytes b) (snd p - 8)) else None)"

lemma calloc_cases:
  assumes "arena_calloc nmem len st = Inr ((i, off), st')"
  obtains st0 a prev before c after st1 st2
  where "(if arena st = [] then init_arena st else Inr st) = Inr st0" "arena st0 = a # prev"
    "choose_chunk (round_size nmem len) a prev st0 = Inr (before, c, after, st1)"
    "i = ac_ptr c" "off = unat (ac_used c) + 8"
    "store_size i (unat (ac_used c)) (round_size nmem len - 8) st1 = Inr st2"
    "st' = st2\<lparr>arena := before @ c\<lparr>ac_used := ac_used c + round_size nmem len\<rparr> # after\<rparr>"
proof -
  from assms obtain st0 where 0: "(if arena st = [] then init_arena st else Inr st) = Inr st0"
    unfolding arena_calloc_def by (auto elim!: bindr_eq_InrE)
  with assms obtain a prev where a: "arena st0 = a # prev"
    unfolding arena_calloc_def by (cases "arena st0") simp_all
  obtain before c after st1 where 1: "choose_chunk (round_size nmem len) a prev st0 = Inr (before, c, after, st1)"
    using assms 0 a by (cases "choose_chunk (round_size nmem len) a prev st0") (auto simp: arena_calloc_def)
  from assms show thesis
    unfolding arena_calloc_def 0 bindr_Inr Let_def a list.case 1 prod.case
    by (auto elim!: bindr_eq_InrE intro: that [OF 0 a 1])
qed

lemma calloc_header:
  assumes "arena_calloc nmem len st = Inr ((i, off), st')"
  shows "alloc_size st' (i, off) = Some (round_size nmem len - 8)"
  using assms by (rule calloc_cases) (auto simp: store_size_def alloc_size_def split: option.splits if_splits)

lemma calloc_bounded:
  assumes ok: "arena_ok st" and run: "arena_calloc nmem len st = Inr ((i, off), st')"
  shows "in_use st' (i, off + x) \<Longrightarrow> x < 2 ^ 63"
proof -
  let ?sz = "round_size nmem len"
  obtain st0 a prev before c after st1 st2
    where 0: "(if arena st = [] then init_arena st else Inr st) = Inr st0" and a: "arena st0 = a # prev"
      and ch: "choose_chunk ?sz a prev st0 = Inr (before, c, after, st1)"
      and st': "i = ac_ptr c" "st' = st2\<lparr>arena := before @ c\<lparr>ac_used := ac_used c + ?sz\<rparr> # after\<rparr>"
    using run by (rule calloc_cases) blast
  have ok0: "arena_ok st0"
  proof (cases "arena st = []")
    case True
    obtain c st0' where "init_arena st = Inr st0'" "arena_ok st0'" by (rule init_ok [OF ok True]) blast
    with 0 True show ?thesis by simp
  next
    case False
    with 0 ok show ?thesis by simp
  qed
  note C = choose_chunk [OF ok0 a ch]
  note D = arena_okD [OF C(1), simplified]
  let ?c = "c\<lparr>ac_used := ac_used c + ?sz\<rparr>"
  have res: "i = ac_ptr c" "arena st' = before @ ?c # after" using st' by simp_all
  have lim: "unat (ac_sz c) \<le> PTRDIFF_MAX" using D(1) [of c] by (simp add: chunk_fits_def)
  have used: "unat (ac_used ?c) \<le> PTRDIFF_MAX"
    using C(2) lim by (simp, subst unat_add_small) (simp_all add: PTRDIFF_MAX_def)
  assume "in_use st' (i, off + x)"
  then have "\<exists>d \<in> set (before @ ?c # after). ac_ptr d = ac_ptr c \<and> off + x < unat (ac_used d)"
    unfolding in_use_def res by simp
  then obtain d where d: "d \<in> set (before @ ?c # after)" "ac_ptr d = ac_ptr c" "off + x < unat (ac_used d)"
    by blast
  have "d = ?c" using d(1,2) D(3) by (auto simp: image_iff)
  with d(3) used show "x < 2 ^ 63" by (simp add: PTRDIFF_MAX_def)
qed

section \<open>Many allocations\<close>

text \<open>What a client of an allocator relies on: an allocation is fresh, and nothing is taken back.\<close>

locale allocator =
  fixes ok :: "'s \<Rightarrow> bool" and used :: "'s \<Rightarrow> aptr \<Rightarrow> bool"
    and alloc :: "'r \<Rightarrow> 's \<Rightarrow> (aptr \<times> 's) res" and valid :: "'r \<Rightarrow> bool" and len :: "'r \<Rightarrow> nat"
  assumes alloc_ok: "ok s \<Longrightarrow> valid r \<Longrightarrow> alloc r s = Inr (p, s') \<Longrightarrow> ok s'"
    and alloc_new: "ok s \<Longrightarrow> valid r \<Longrightarrow> alloc r s = Inr (p, s') \<Longrightarrow> x < len r \<Longrightarrow>
      \<not> used s (fst p, snd p + x) \<and> used s' (fst p, snd p + x)"
    and alloc_keep: "ok s \<Longrightarrow> valid r \<Longrightarrow> alloc r s = Inr (p, s') \<Longrightarrow> used s y \<Longrightarrow> used s' y"
begin

fun allocs :: "'r list \<Rightarrow> 's \<Rightarrow> (aptr list \<times> 's) res" where
  "allocs [] s = Inr ([], s)"
| "allocs (r # rs) s = bindr (alloc r s) (\<lambda>(p, s). bindr (allocs rs s) (\<lambda>(ps, s). Inr (p # ps, s)))"

definition region :: "'r \<Rightarrow> aptr \<Rightarrow> aptr set" where
  "region r p = {(fst p, snd p + x) | x. x < len r}"

lemma allocs_fresh:
  assumes "allocs rs s = Inr (ps, s')" "ok s" "list_all valid rs"
  shows "length ps = length rs \<and> ok s' \<and> (\<forall>y. used s y \<longrightarrow> used s' y) \<and>
    (\<forall>i < length rs. \<forall>y \<in> region (rs ! i) (ps ! i). \<not> used s y \<and> used s' y) \<and>
    (\<forall>j < length rs. \<forall>i < j. region (rs ! i) (ps ! i) \<inter> region (rs ! j) (ps ! j) = {})"
  using assms
proof (induction rs arbitrary: s ps)
  case (Cons r rs)
  obtain p s1 qs where r: "alloc r s = Inr (p, s1)" "allocs rs s1 = Inr (qs, s')" "ps = p # qs"
    using Cons.prems(1) by (auto split: prod.splits)
  have v: "valid r" "list_all valid rs" using Cons.prems(3) by auto
  note a = alloc_ok [OF Cons.prems(2) v(1) r(1)] alloc_new [OF Cons.prems(2) v(1) r(1)]
    alloc_keep [OF Cons.prems(2) v(1) r(1)]
  from Cons.IH [OF r(2) a(1) v(2)] have IH: "length qs = length rs" "ok s'" "\<And>y. used s1 y \<Longrightarrow> used s' y"
    "\<And>i y. i < length rs \<Longrightarrow> y \<in> region (rs ! i) (qs ! i) \<Longrightarrow> \<not> used s1 y \<and> used s' y"
    "\<And>i j. j < length rs \<Longrightarrow> i < j \<Longrightarrow> region (rs ! i) (qs ! i) \<inter> region (rs ! j) (qs ! j) = {}"
    by blast+
  have new: "\<not> used s y \<and> used s1 y" if "y \<in> region r p" for y using that a(2) by (auto simp: region_def)
  show ?case
  proof (intro conjI allI impI ballI)
    fix i y assume i: "i < length (r # rs)" "y \<in> region ((r # rs) ! i) (ps ! i)"
    have "\<not> used s y \<and> used s' y"
    proof (cases i)
      case 0
      then show ?thesis using i(2) new IH(3) r(3) by simp
    next
      case (Suc k)
      then have "\<not> used s1 y \<and> used s' y" using i r(3) IH(4) [of k y] by simp
      then show ?thesis using a(3) by blast
    qed
    then show "\<not> used s y" "used s' y" by simp_all
  next
    fix i j assume "j < length (r # rs)" "i < j"
    then obtain k where k: "j = Suc k" "k < length rs" by (cases j) auto
    show "region ((r # rs) ! i) (ps ! i) \<inter> region ((r # rs) ! j) (ps ! j) = {}"
    proof (cases i)
      case 0
      then show ?thesis using k r(3) new IH(4) [of k] by auto
    next
      case (Suc l)
      then show ?thesis using k r(3) IH(5) [of k l] \<open>i < j\<close> by simp
    qed
  qed (use IH a(3) r(3) in simp_all)
qed simp

end

type_synonym request = "64 word \<times> 64 word"

definition request_len :: "request \<Rightarrow> nat" where
  "request_len r = unat (fst r) * unat (snd r)"

definition request_fits :: "request \<Rightarrow> bool" where
  "request_fits r \<longleftrightarrow> request_len r + 15 < 2 ^ 64"

definition calloc_of :: "request \<Rightarrow> arena_state \<Rightarrow> (aptr \<times> arena_state) res" where
  "calloc_of r = arena_calloc (fst r) (snd r)"

interpretation arena_alloc: allocator arena_ok in_use calloc_of request_fits request_len
proof
  fix st st' :: arena_state and r p y x
  assume a: "arena_ok st" "request_fits r" "calloc_of r st = Inr (p, st')"
  have "unat (fst r) * unat (snd r) + 15 < 2 ^ 64" using a(2) by (simp add: request_fits_def request_len_def)
  moreover have "arena_calloc (fst r) (snd r) st = Inr ((fst p, snd p), st')" using a(3) by (simp add: calloc_of_def)
  ultimately have "arena_ok st' \<and> 8 dvd snd p \<and>
    (\<forall>x < unat (fst r) * unat (snd r). \<not> in_use st (fst p, snd p + x) \<and> in_use st' (fst p, snd p + x) \<and>
       byte_at st' (fst p, snd p + x) = Some 0) \<and>
    (\<forall>y. in_use st y \<longrightarrow> in_use st' y \<and> byte_at st' y = byte_at st y)"
    by (rule calloc_fresh [OF a(1)])
  note c = this
  show "arena_ok st'" using c by blast
  show "in_use st y \<Longrightarrow> in_use st' y" using c by blast
  show "x < request_len r \<Longrightarrow> \<not> in_use st (fst p, snd p + x) \<and> in_use st' (fst p, snd p + x)"
    using c by (simp add: request_len_def)
qed

section \<open>Pushing and popping\<close>

text \<open>What a client does between a push and the pop: it allocates, and it writes into its memory.\<close>

inductive arena_step :: "arena_state \<Rightarrow> arena_state \<Rightarrow> bool" where
  step_calloc: "arena_calloc nmem len st = Inr (p, st') \<Longrightarrow> arena_step st st'"
| step_realloc: "arena_realloc q len st = Inr (p, st') \<Longrightarrow> arena_step st st'"
| step_write: "arena_step st (st\<lparr>blocks := bs\<rparr>)"

inductive_cases arena_stepE: "arena_step st st'"

text \<open>Above the chunk marked by the push there are only chunks allocated since.\<close>

definition pushed :: "nat \<Rightarrow> arena_chunk list \<Rightarrow> arena_state \<Rightarrow> bool" where
  "pushed n below st \<longleftrightarrow>
     n \<le> next_block st \<and>
     (\<exists>new. arena st = new @ below \<and> new \<noteq> [] \<and> (\<forall>c \<in> set new. \<not> push_point c \<and> n \<le> ac_ptr c))"

lemma pushed_calloc:
  assumes "pushed n below st" "arena_calloc nmem len st = Inr (p, st')"
  shows "pushed n below st'"
proof -
  obtain a new where a: "arena st = a # new @ below" "\<not> push_point a" "n \<le> ac_ptr a" "n \<le> next_block st"
    "\<forall>c \<in> set new. \<not> push_point c \<and> n \<le> ac_ptr c"
    using assms(1) by (fastforce simp: pushed_def neq_Nil_conv)
  obtain before c after st1 where ch: "choose_chunk (round_size nmem len) a (new @ below) st = Inr (before, c, after, st1)"
    using assms(2) a(1) by (cases "choose_chunk (round_size nmem len) a (new @ below) st") (auto simp: arena_calloc_def)
  have st': "arena st' = before @ c\<lparr>ac_used := ac_used c + round_size nmem len\<rparr> # after" "next_block st' = next_block st1"
    using assms(2) a(1) ch by (auto simp: arena_calloc_def Let_def store_size_def split: option.splits if_splits)
  have c: "n \<le> next_block st1" "\<not> push_point c" "n \<le> ac_ptr c"
    and parts: "before = [a] \<and> after = new @ below \<or> before = [] \<and> after = a # new @ below \<or>
      before = [] \<and> after = new @ below"
    using ch a by (auto simp: choose_chunk_def alloc_arena_chunk_def Let_def split: if_splits)
  let ?c = "c\<lparr>ac_used := ac_used c + round_size nmem len\<rparr>"
  have "\<exists>new'. before @ ?c # after = new' @ below \<and> new' \<noteq> [] \<and> set new' \<subseteq> insert ?c (insert a (set new))"
    using parts
  proof (elim disjE conjE)
    assume "before = [a]" "after = new @ below"
    then show ?thesis by (intro exI [of _ "a # ?c # new"]) auto
  next
    assume "before = []" "after = a # new @ below"
    then show ?thesis by (intro exI [of _ "?c # a # new"]) auto
  next
    assume "before = []" "after = new @ below"
    then show ?thesis by (intro exI [of _ "?c # new"]) auto
  qed
  moreover have "\<not> push_point d \<and> n \<le> ac_ptr d" if "d \<in> insert ?c (insert a (set new))" for d
    using that a c by auto
  ultimately show ?thesis using c(1) unfolding pushed_def st' by blast
qed

lemma pushed_blocks [simp]: "pushed n below (st\<lparr>blocks := bs\<rparr>) = pushed n below st"
  by (simp add: pushed_def)

lemma memcpy_blocks: "memcpy d s k st = Inr st' \<Longrightarrow> \<exists>bs. st' = st\<lparr>blocks := bs\<rparr>"
  by (auto simp: memcpy_def split: option.splits if_splits)

lemma pushed_step: "arena_step st st' \<Longrightarrow> pushed n below st \<Longrightarrow> pushed n below st'"
proof (erule arena_stepE)
  fix q len p assume p: "pushed n below st" and r: "arena_realloc q len st = Inr (p, st')"
  then have "arena st \<noteq> []" by (auto simp: pushed_def)
  with r obtain st1 where c: "arena_calloc 1 len st = Inr (p, st1)" "st' = st1 \<or> (\<exists>bs. st' = st1\<lparr>blocks := bs\<rparr>)"
    unfolding arena_realloc_def
    by (cases q) (fastforce split: option.split_asm dest!: memcpy_blocks)+
  show "pushed n below st'" using pushed_calloc [OF p c(1)] c(2) by auto
qed (auto simp: pushed_calloc)

lemma pushed_steps: "arena_step\<^sup>*\<^sup>* st st' \<Longrightarrow> pushed n below st \<Longrightarrow> pushed n below st'"
  by (induction rule: rtranclp_induct) (auto intro: pushed_step)

lemma pop_chunks_app:
  assumes "\<forall>c \<in> set new. \<not> push_point c" "push_point a"
  shows "pop_chunks (new @ a # below) bs = (a # below, \<lambda>i. if i \<in> ac_ptr ` set new then None else bs i)"
  using assms by (induction new arbitrary: bs) (auto simp: fun_eq_iff)

section \<open>Properties\<close>

lemmas arena_eval = no_arena_def init_arena_def alloc_arena_chunk_def arena_calloc_def choose_chunk_def
  round_size_def store_size_def PTRDIFF_MAX_def Let_def

text \<open>
  C23: An allocation whose size does not overflow (\<open>nmem * len + 15 < 2^64\<close>) gives memory that nobody else holds: aligned
  to eight, inside its block, in use afterwards and all zero, behind a header that holds its rounded size;
  what was in use stays, with its contents.
\<close>

theorem arena_alloc_fresh:
  assumes "arena_ok st" "unat nmem * unat len + 15 < 2 ^ 64"
    and "arena_calloc nmem len st = Inr ((i, off), st')"
  shows "arena_ok st' \<and> 8 dvd off \<and> alloc_size st' (i, off) = Some (round_size nmem len - 8) \<and>
    (\<forall>x < unat nmem * unat len. \<not> in_use st (i, off + x) \<and> in_use st' (i, off + x) \<and>
       byte_at st' (i, off + x) = Some 0) \<and>
    (\<forall>y. in_use st y \<longrightarrow> in_use st' y \<and> byte_at st' y = byte_at st y)"
  using calloc_fresh [OF assms] calloc_header [OF assms(3)] by blast

theorem arena_alloc_fresh_witness:
  "\<exists>i off st'. arena_calloc 3 5 no_arena = Inr ((i, off), st') \<and> arena_ok st' \<and> byte_at st' (i, off + 14) = Some 0 \<and>
     alloc_size st' (i, off) = Some 16"
proof -
  obtain i off st' where r: "arena_calloc 3 5 no_arena = Inr ((i, off), st')"
  proof -
    have "case arena_calloc 3 5 no_arena of Inl _ \<Rightarrow> False | Inr _ \<Rightarrow> True" by (simp add: arena_eval)
    then show thesis using that by (cases "arena_calloc 3 5 no_arena") auto
  qed
  from arena_alloc_fresh [OF no_arena_ok _ r] have "arena_ok st'" "byte_at st' (i, off + 14) = Some 0"
    "alloc_size st' (i, off) = Some (round_size 3 5 - 8)" by simp_all
  with r show ?thesis by (auto simp: round_size_def)
qed

text \<open>
  C22: The regions that a successful sequence of allocations hands out are pairwise disjoint, as long as no request
  overflows \<open>size_t\<close> (\<open>request_fits\<close>).
\<close>

theorem arena_allocs_disjoint:
  assumes "arena_ok st" "arena_alloc.allocs rs st = Inr (ps, st')" "list_all request_fits rs" "i < j" "j < length rs"
  shows "arena_alloc.region (rs ! i) (ps ! i) \<inter> arena_alloc.region (rs ! j) (ps ! j) = {}"
  using arena_alloc.allocs_fresh [OF assms(2,1,3)] assms(4,5) by blast

theorem arena_allocs_disjoint_witness:
  "\<exists>ps st'. arena_alloc.allocs [(1, 10), (2, 5000000)] no_arena = Inr (ps, st') \<and>
     arena_alloc.region (1, 10) (ps ! 0) \<inter> arena_alloc.region (2, 5000000) (ps ! 1) = {}"
proof -
  let ?r = "arena_alloc.allocs [(1, 10), (2, 5000000)] no_arena"
  obtain p st1 q st2 where 1: "arena_calloc 1 10 no_arena = Inr (p, st1)" "arena_calloc 2 5000000 st1 = Inr (q, st2)"
    by (simp add: arena_eval)
  then have r: "?r = Inr ([p, q], st2)" by (simp add: calloc_of_def)
  have "list_all request_fits [(1, 10), (2, 5000000)]" by (simp add: request_fits_def request_len_def)
  from arena_allocs_disjoint [OF no_arena_ok r this, of 0 1] r show ?thesis by auto
qed

text \<open>
  C24: A pop gives back exactly the chunks that were there at the matching push, whatever has been
  allocated and written in between, keeps their blocks, and frees every block allocated since.
\<close>

theorem arena_pop_undoes_push:
  assumes "arena_ok st" "arena st = a # prev" "cmark_arena_push st = Inr st1" "arena_step\<^sup>*\<^sup>* st1 st2"
  shows "\<exists>st3. cmark_arena_pop st2 = (1, st3) \<and> arena st3 = arena st \<and>
    (\<forall>i < next_block st. blocks st3 i = blocks st2 i) \<and>
    (\<forall>c \<in> set (arena st2). next_block st \<le> ac_ptr c \<longrightarrow> blocks st3 (ac_ptr c) = None)"
proof -
  let ?a = "a\<lparr>push_point := True\<rparr>"
  have pp: "\<not> push_point a" using arena_okD(4) [OF assms(1,2)] .
  have "pushed (next_block st) (?a # prev) st1"
    using assms(2,3) by (auto simp: cmark_arena_push_def alloc_arena_chunk_def Let_def pushed_def)
  from pushed_steps [OF assms(4) this] obtain new where n: "arena st2 = new @ ?a # prev" "new \<noteq> []"
    "\<forall>c \<in> set new. \<not> push_point c \<and> next_block st \<le> ac_ptr c" by (auto simp: pushed_def)
  have old: "ac_ptr c < next_block st" if "c = ?a \<or> c \<in> set prev" for c
    using arena_okD(2) [OF assms(1)] assms(2) that by auto
  have a: "?a\<lparr>push_point := False\<rparr> = a" using pp by simp
  have pop: "pop_chunks (arena st2) (blocks st2) =
      (?a # prev, \<lambda>i. if i \<in> ac_ptr ` set new then None else blocks st2 i)"
    unfolding n(1) by (rule pop_chunks_app) (use n(3) in auto)
  have "cmark_arena_pop st2 = (1, st2\<lparr>arena := a # prev,
      blocks := \<lambda>i. if i \<in> ac_ptr ` set new then None else blocks st2 i\<rparr>)"
    unfolding cmark_arena_pop_def pop using n(1) a by simp
  then show ?thesis
    using n(1,3) old assms(2) by (intro exI conjI) (force simp: not_less [symmetric])+
qed

theorem arena_pop_undoes_push_witness:
  "\<exists>st st1 p st2 st3. arena_calloc 1 10 no_arena = Inr ((0, 8), st) \<and> cmark_arena_push st = Inr st1 \<and>
     arena_calloc 1 20000 st1 = Inr (p, st2) \<and> cmark_arena_pop st2 = (1, st3) \<and> arena st3 = arena st"
proof -
  obtain st where 1: "arena_calloc 1 10 no_arena = Inr ((0, 8), st)" by (simp add: arena_eval)
  then have ok: "arena_ok st" using arena_alloc.alloc_ok [of no_arena "(1, 10)" "(0, 8)" st] no_arena_ok
    by (simp add: calloc_of_def request_fits_def request_len_def)
  obtain a prev where a: "arena st = a # prev" using 1 by (auto simp: arena_eval)
  obtain st1 p st2 where 2: "cmark_arena_push st = Inr st1" "arena_calloc 1 20000 st1 = Inr (p, st2)"
    using 1 by (auto simp: arena_eval cmark_arena_push_def)
  have "arena_step\<^sup>*\<^sup>* st1 st2" using step_calloc [OF 2(2)] by (rule r_into_rtranclp)
  from arena_pop_undoes_push [OF ok a 2(1) this] 1 2 show ?thesis by blast
qed



text \<open>
  \<open>arena_realloc\<close> copies as many bytes as the old allocation has, even if the new one is smaller:
  shrinking an allocation can write behind the end of the block.
\<close>

theorem arena_realloc_shrinks:
  "bindr (arena_calloc 1 10 no_arena) (\<lambda>(_, st).
   bindr (cmark_arena_push st) (\<lambda>st.
   bindr (arena_calloc 1 6000 st) (\<lambda>(p, st). arena_realloc (Some p) 10 st))) = Inl Out_of_bounds"
  by (simp add: arena_eval cmark_arena_push_def arena_realloc_def memcpy_def)

end
