(* ===== verification/Registry.thy ===== *)
theory Registry
  imports Node
begin

text \<open>
  Syntax extensions, plugins and the registry: src/src/linked_list.c, src/src/syntax_extension.c,
  src/src/plugin.c, src/src/registry.c, src/extensions/core-extensions.c and the functions of the
  other files of src/extensions that create the core extensions.

  The global variables of these files are the fields of one record.  Extension objects live in a
  store of cells (\<open>None\<close> is a freed one); a callback is the name of the C function it points to,
  since nothing here calls it, except \<open>free_function\<close>, whose calls are logged.  A \<open>cmark_llist\<close> is
  the list of its data pointers.  The locks make each operation one step.
\<close>

section \<open>Linked lists\<close>

definition cmark_llist_append :: "'d list \<Rightarrow> 'd \<Rightarrow> 'd list" where
  "cmark_llist_append head d = head @ [d]"

text \<open>The memory of the list itself is not part of the state.\<close>

definition cmark_llist_free_full :: "'d list \<Rightarrow> ('d \<Rightarrow> 's \<Rightarrow> 's res) option \<Rightarrow> 's \<Rightarrow> 's res" where
  "cmark_llist_free_full head free_func s =
     (case free_func of None \<Rightarrow> Inr s | Some f \<Rightarrow> each f head s)"

definition cmark_llist_free :: "'d list \<Rightarrow> 's \<Rightarrow> 's res" where
  "cmark_llist_free head = cmark_llist_free_full head None"

section \<open>Extension objects\<close>

text \<open>A pointer to a C function, by its name.\<close>

type_synonym code_ptr = string

record ext_object =
  x_name :: "byte list"
  x_emphasis :: bool
  x_special_inline_chars :: "byte list"
  x_priv :: "nat option"
  x_free_function :: "code_ptr option"
  x_last_block_matches :: "code_ptr option"
  x_try_opening_block :: "code_ptr option"
  x_match_inline :: "code_ptr option"
  x_insert_inline_from_delim :: "code_ptr option"
  x_get_type_string_func :: "code_ptr option"
  x_can_contain_func :: "code_ptr option"
  x_contains_inlines_func :: "code_ptr option"
  x_commonmark_render_func :: "code_ptr option"
  x_plaintext_render_func :: "code_ptr option"
  x_latex_render_func :: "code_ptr option"
  x_xml_attr_func :: "code_ptr option"
  x_man_render_func :: "code_ptr option"
  x_html_render_func :: "code_ptr option"
  x_html_filter_func :: "code_ptr option"
  x_postprocess_func :: "code_ptr option"
  x_opaque_alloc_func :: "code_ptr option"
  x_opaque_free_func :: "code_ptr option"
  x_commonmark_escape_func :: "code_ptr option"

definition ext_zero :: ext_object where
  "ext_zero =
     \<lparr>x_name = [], x_emphasis = False, x_special_inline_chars = [], x_priv = None, x_free_function = None,
      x_last_block_matches = None,
      x_try_opening_block = None,
      x_match_inline = None,
      x_insert_inline_from_delim = None,
      x_get_type_string_func = None,
      x_can_contain_func = None,
      x_contains_inlines_func = None,
      x_commonmark_render_func = None,
      x_plaintext_render_func = None,
      x_latex_render_func = None,
      x_xml_attr_func = None,
      x_man_render_func = None,
      x_html_render_func = None,
      x_html_filter_func = None,
      x_postprocess_func = None,
      x_opaque_alloc_func = None,
      x_opaque_free_func = None,
      x_commonmark_escape_func = None\<rparr>"

text \<open>
  \<open>once\<close> is the latch of \<open>CMARK_RUN_ONCE\<close>, \<open>freed_priv\<close> the calls of \<open>free_function\<close>.
\<close>

record globals =
  objs :: "ext_object option list"
  syntax_extensions :: "eptr list"
  CMARK_NODE_LAST_BLOCK :: node_type
  CMARK_NODE_LAST_INLINE :: node_type
  nextflag :: "16 word"
  TABLE_VISITED :: "16 word"
  CMARK_NODE_TABLE :: node_type
  CMARK_NODE_TABLE_ROW :: node_type
  CMARK_NODE_TABLE_CELL :: node_type
  CMARK_NODE_STRIKETHROUGH :: node_type
  once :: bool
  freed_priv :: "(code_ptr \<times> nat) list"

definition start_globals :: globals where
  "start_globals =
     \<lparr>objs = [], syntax_extensions = [], CMARK_NODE_LAST_BLOCK = CMARK_NODE_FOOTNOTE_DEFINITION,
      CMARK_NODE_LAST_INLINE = CMARK_NODE_ATTRIBUTE, nextflag = 8, TABLE_VISITED = 0,
      CMARK_NODE_TABLE = 0, CMARK_NODE_TABLE_ROW = 0, CMARK_NODE_TABLE_CELL = 0,
      CMARK_NODE_STRIKETHROUGH = 0, once = False, freed_priv = []\<rparr>"

definition ext_obj :: "globals \<Rightarrow> eptr \<Rightarrow> ext_object res" where
  "ext_obj g e = (case (if e < length (objs g) then objs g ! e else None) of None \<Rightarrow> Inl Bad_pointer | Some x \<Rightarrow> Inr x)"

definition on_ext :: "eptr \<Rightarrow> (ext_object \<Rightarrow> ext_object) \<Rightarrow> globals \<Rightarrow> globals res" where
  "on_ext e f g = bindr (ext_obj g e) (\<lambda>x. Inr (g\<lparr>objs := (objs g)[e := Some (f x)]\<rparr>))"

definition cmark_syntax_extension_free :: "eptr \<Rightarrow> globals \<Rightarrow> globals res" where
  "cmark_syntax_extension_free e g =
     bindr (ext_obj g e) (\<lambda>x.
     let g = (case (x_free_function x, x_priv x) of
                (Some f, Some p) \<Rightarrow> g\<lparr>freed_priv := freed_priv g @ [(f, p)]\<rparr> | _ \<Rightarrow> g)
     in Inr (g\<lparr>objs := (objs g)[e := None]\<rparr>))"

definition cmark_syntax_extension_new :: "byte list \<Rightarrow> globals \<Rightarrow> eptr \<times> globals" where
  "cmark_syntax_extension_new name g =
     (length (objs g), g\<lparr>objs := objs g @ [Some (ext_zero\<lparr>x_name := name\<rparr>)]\<rparr>)"

text \<open>
  When the types of a class are used up, the assertion fails.  (With \<open>NDEBUG\<close> the code returns the type 0 there and changes
  nothing; like the other assertions of the library, this one is modelled as in a build with assertions.)
\<close>

definition cmark_syntax_extension_add_node :: "bool \<Rightarrow> globals \<Rightarrow> (node_type \<times> globals) res" where
  "cmark_syntax_extension_add_node is_inline g =
     (let ref = (if \<not> is_inline then CMARK_NODE_LAST_BLOCK g else CMARK_NODE_LAST_INLINE g) in
      if ref AND CMARK_NODE_VALUE_MASK = CMARK_NODE_VALUE_MASK then Inl Assert_failed
      else
        Inr (ref + 1,
          if \<not> is_inline then g\<lparr>CMARK_NODE_LAST_BLOCK := ref + 1\<rparr> else g\<lparr>CMARK_NODE_LAST_INLINE := ref + 1\<rparr>))"

definition cmark_syntax_extension_set_emphasis :: "eptr \<Rightarrow> int \<Rightarrow> globals \<Rightarrow> globals res" where
  "cmark_syntax_extension_set_emphasis e b = on_ext e (x_emphasis_update (\<lambda>_. b = 1))"

definition cmark_syntax_extension_set_match_block_func :: "eptr \<Rightarrow> code_ptr option \<Rightarrow> globals \<Rightarrow> globals res" where
  "cmark_syntax_extension_set_match_block_func e f = on_ext e (x_last_block_matches_update (\<lambda>_. f))"

definition cmark_syntax_extension_set_open_block_func :: "eptr \<Rightarrow> code_ptr option \<Rightarrow> globals \<Rightarrow> globals res" where
  "cmark_syntax_extension_set_open_block_func e f = on_ext e (x_try_opening_block_update (\<lambda>_. f))"

definition cmark_syntax_extension_set_match_inline_func :: "eptr \<Rightarrow> code_ptr option \<Rightarrow> globals \<Rightarrow> globals res" where
  "cmark_syntax_extension_set_match_inline_func e f = on_ext e (x_match_inline_update (\<lambda>_. f))"

definition cmark_syntax_extension_set_inline_from_delim_func :: "eptr \<Rightarrow> code_ptr option \<Rightarrow> globals \<Rightarrow> globals res" where
  "cmark_syntax_extension_set_inline_from_delim_func e f = on_ext e (x_insert_inline_from_delim_update (\<lambda>_. f))"

definition cmark_syntax_extension_set_get_type_string_func :: "eptr \<Rightarrow> code_ptr option \<Rightarrow> globals \<Rightarrow> globals res" where
  "cmark_syntax_extension_set_get_type_string_func e f = on_ext e (x_get_type_string_func_update (\<lambda>_. f))"

definition cmark_syntax_extension_set_can_contain_func :: "eptr \<Rightarrow> code_ptr option \<Rightarrow> globals \<Rightarrow> globals res" where
  "cmark_syntax_extension_set_can_contain_func e f = on_ext e (x_can_contain_func_update (\<lambda>_. f))"

definition cmark_syntax_extension_set_contains_inlines_func :: "eptr \<Rightarrow> code_ptr option \<Rightarrow> globals \<Rightarrow> globals res" where
  "cmark_syntax_extension_set_contains_inlines_func e f = on_ext e (x_contains_inlines_func_update (\<lambda>_. f))"

definition cmark_syntax_extension_set_commonmark_render_func :: "eptr \<Rightarrow> code_ptr option \<Rightarrow> globals \<Rightarrow> globals res" where
  "cmark_syntax_extension_set_commonmark_render_func e f = on_ext e (x_commonmark_render_func_update (\<lambda>_. f))"

definition cmark_syntax_extension_set_plaintext_render_func :: "eptr \<Rightarrow> code_ptr option \<Rightarrow> globals \<Rightarrow> globals res" where
  "cmark_syntax_extension_set_plaintext_render_func e f = on_ext e (x_plaintext_render_func_update (\<lambda>_. f))"

definition cmark_syntax_extension_set_latex_render_func :: "eptr \<Rightarrow> code_ptr option \<Rightarrow> globals \<Rightarrow> globals res" where
  "cmark_syntax_extension_set_latex_render_func e f = on_ext e (x_latex_render_func_update (\<lambda>_. f))"

definition cmark_syntax_extension_set_xml_attr_func :: "eptr \<Rightarrow> code_ptr option \<Rightarrow> globals \<Rightarrow> globals res" where
  "cmark_syntax_extension_set_xml_attr_func e f = on_ext e (x_xml_attr_func_update (\<lambda>_. f))"

definition cmark_syntax_extension_set_man_render_func :: "eptr \<Rightarrow> code_ptr option \<Rightarrow> globals \<Rightarrow> globals res" where
  "cmark_syntax_extension_set_man_render_func e f = on_ext e (x_man_render_func_update (\<lambda>_. f))"

definition cmark_syntax_extension_set_html_render_func :: "eptr \<Rightarrow> code_ptr option \<Rightarrow> globals \<Rightarrow> globals res" where
  "cmark_syntax_extension_set_html_render_func e f = on_ext e (x_html_render_func_update (\<lambda>_. f))"

definition cmark_syntax_extension_set_html_filter_func :: "eptr \<Rightarrow> code_ptr option \<Rightarrow> globals \<Rightarrow> globals res" where
  "cmark_syntax_extension_set_html_filter_func e f = on_ext e (x_html_filter_func_update (\<lambda>_. f))"

definition cmark_syntax_extension_set_postprocess_func :: "eptr \<Rightarrow> code_ptr option \<Rightarrow> globals \<Rightarrow> globals res" where
  "cmark_syntax_extension_set_postprocess_func e f = on_ext e (x_postprocess_func_update (\<lambda>_. f))"

definition cmark_syntax_extension_set_opaque_alloc_func :: "eptr \<Rightarrow> code_ptr option \<Rightarrow> globals \<Rightarrow> globals res" where
  "cmark_syntax_extension_set_opaque_alloc_func e f = on_ext e (x_opaque_alloc_func_update (\<lambda>_. f))"

definition cmark_syntax_extension_set_opaque_free_func :: "eptr \<Rightarrow> code_ptr option \<Rightarrow> globals \<Rightarrow> globals res" where
  "cmark_syntax_extension_set_opaque_free_func e f = on_ext e (x_opaque_free_func_update (\<lambda>_. f))"

definition cmark_syntax_extension_set_commonmark_escape_func :: "eptr \<Rightarrow> code_ptr option \<Rightarrow> globals \<Rightarrow> globals res" where
  "cmark_syntax_extension_set_commonmark_escape_func e f = on_ext e (x_commonmark_escape_func_update (\<lambda>_. f))"

definition cmark_syntax_extension_set_special_inline_chars :: "eptr \<Rightarrow> byte list \<Rightarrow> globals \<Rightarrow> globals res" where
  "cmark_syntax_extension_set_special_inline_chars e cs = on_ext e (x_special_inline_chars_update (\<lambda>_. cs))"

definition cmark_syntax_extension_set_private ::
  "eptr \<Rightarrow> nat option \<Rightarrow> code_ptr option \<Rightarrow> globals \<Rightarrow> globals res" where
  "cmark_syntax_extension_set_private e priv f =
     on_ext e (\<lambda>x. x\<lparr>x_priv := priv, x_free_function := f\<rparr>)"

definition cmark_syntax_extension_get_private :: "eptr \<Rightarrow> globals \<Rightarrow> nat option res" where
  "cmark_syntax_extension_get_private e g = bindr (ext_obj g e) (\<lambda>x. Inr (x_priv x))"

section \<open>Plugins\<close>

text \<open>A plugin is the list of its extensions.\<close>

type_synonym cmark_plugin = "eptr list"

definition cmark_plugin_register_syntax_extension :: "cmark_plugin \<Rightarrow> eptr \<Rightarrow> int \<times> cmark_plugin" where
  "cmark_plugin_register_syntax_extension plugin e = (1, cmark_llist_append plugin e)"

definition cmark_plugin_new :: cmark_plugin where
  "cmark_plugin_new = []"

definition cmark_plugin_free :: "cmark_plugin \<Rightarrow> globals \<Rightarrow> globals res" where
  "cmark_plugin_free plugin = cmark_llist_free_full plugin (Some cmark_syntax_extension_free)"

definition cmark_plugin_steal_syntax_extensions :: "cmark_plugin \<Rightarrow> eptr list \<times> cmark_plugin" where
  "cmark_plugin_steal_syntax_extensions plugin = (plugin, [])"

section \<open>The registry\<close>

type_synonym plugin_init = "cmark_plugin \<Rightarrow> globals \<Rightarrow> (int \<times> cmark_plugin \<times> globals) res"

definition cmark_register_plugin :: "plugin_init \<Rightarrow> globals \<Rightarrow> globals res" where
  "cmark_register_plugin reg_fn g =
     bindr (reg_fn cmark_plugin_new g) (\<lambda>(ret, plugin, g).
     if ret = 0 then cmark_plugin_free plugin g
     else
       let (xs, plugin) = cmark_plugin_steal_syntax_extensions plugin;
           g = g\<lparr>syntax_extensions := foldl cmark_llist_append (syntax_extensions g) xs\<rparr>
       in bindr (cmark_llist_free xs g) (cmark_plugin_free plugin))"

definition cmark_release_plugins :: "globals \<Rightarrow> globals res" where
  "cmark_release_plugins g =
     (if syntax_extensions g \<noteq> []
      then
        bindr (cmark_llist_free_full (syntax_extensions g) (Some cmark_syntax_extension_free) g) (\<lambda>g.
        Inr (g\<lparr>syntax_extensions := []\<rparr>))
      else Inr g)"

definition cmark_list_syntax_extensions :: "globals \<Rightarrow> eptr list" where
  "cmark_list_syntax_extensions g = foldl cmark_llist_append [] (syntax_extensions g)"

fun find_ext :: "globals \<Rightarrow> byte list \<Rightarrow> eptr list \<Rightarrow> eptr option res" where
  "find_ext g name [] = Inr None"
| "find_ext g name (e # es) =
     bindr (ext_obj g e) (\<lambda>x. if x_name x = name then Inr (Some e) else find_ext g name es)"

definition cmark_find_syntax_extension :: "byte list \<Rightarrow> globals \<Rightarrow> eptr option res" where
  "cmark_find_syntax_extension name g = find_ext g name (syntax_extensions g)"

section \<open>The core extensions\<close>

text \<open>Running setters in order.\<close>

definition seq_ext :: "(globals \<Rightarrow> globals res) list \<Rightarrow> globals \<Rightarrow> globals res" where
  "seq_ext fs = each (\<lambda>f. f) fs"

definition register_table_flag :: "globals \<Rightarrow> globals res" where
  "register_table_flag g =
     bindr (cmark_register_node_flag (TABLE_VISITED g) (nextflag g)) (\<lambda>(flag, nxt).
     Inr (g\<lparr>TABLE_VISITED := flag, nextflag := nxt\<rparr>))"

definition add_type :: "bool \<Rightarrow> (node_type \<Rightarrow> globals \<Rightarrow> globals) \<Rightarrow> globals \<Rightarrow> globals res" where
  "add_type is_inline f g = bindr (cmark_syntax_extension_add_node is_inline g) (\<lambda>(t, g). Inr (f t g))"

definition create_table_extension :: "globals \<Rightarrow> (eptr \<times> globals) res" where
  "create_table_extension g =
     (let (self, g) = cmark_syntax_extension_new (str ''table'') g in
      bindr (seq_ext
        [register_table_flag,
         cmark_syntax_extension_set_match_block_func self (Some ''matches''),
         cmark_syntax_extension_set_open_block_func self (Some ''try_opening_table_block''),
         cmark_syntax_extension_set_get_type_string_func self (Some ''get_type_string''),
         cmark_syntax_extension_set_can_contain_func self (Some ''can_contain''),
         cmark_syntax_extension_set_contains_inlines_func self (Some ''contains_inlines''),
         cmark_syntax_extension_set_commonmark_render_func self (Some ''commonmark_render''),
         cmark_syntax_extension_set_plaintext_render_func self (Some ''commonmark_render''),
         cmark_syntax_extension_set_latex_render_func self (Some ''latex_render''),
         cmark_syntax_extension_set_xml_attr_func self (Some ''xml_attr''),
         cmark_syntax_extension_set_man_render_func self (Some ''man_render''),
         cmark_syntax_extension_set_html_render_func self (Some ''html_render''),
         cmark_syntax_extension_set_opaque_alloc_func self (Some ''opaque_alloc''),
         cmark_syntax_extension_set_opaque_free_func self (Some ''opaque_free''),
         cmark_syntax_extension_set_commonmark_escape_func self (Some ''escape''),
         add_type False (\<lambda>t. CMARK_NODE_TABLE_update (\<lambda>_. t)),
         add_type False (\<lambda>t. CMARK_NODE_TABLE_ROW_update (\<lambda>_. t)),
         add_type False (\<lambda>t. CMARK_NODE_TABLE_CELL_update (\<lambda>_. t))] g) (\<lambda>g.
      Inr (self, g)))"

definition create_strikethrough_extension :: "globals \<Rightarrow> (eptr \<times> globals) res" where
  "create_strikethrough_extension g =
     (let (ext, g) = cmark_syntax_extension_new (str ''strikethrough'') g in
      bindr (seq_ext
        [cmark_syntax_extension_set_get_type_string_func ext (Some ''get_type_string''),
         cmark_syntax_extension_set_can_contain_func ext (Some ''can_contain''),
         cmark_syntax_extension_set_commonmark_render_func ext (Some ''commonmark_render''),
         cmark_syntax_extension_set_latex_render_func ext (Some ''latex_render''),
         cmark_syntax_extension_set_man_render_func ext (Some ''man_render''),
         cmark_syntax_extension_set_html_render_func ext (Some ''html_render''),
         cmark_syntax_extension_set_plaintext_render_func ext (Some ''plaintext_render''),
         add_type True (\<lambda>t. CMARK_NODE_STRIKETHROUGH_update (\<lambda>_. t)),
         cmark_syntax_extension_set_match_inline_func ext (Some ''match''),
         cmark_syntax_extension_set_inline_from_delim_func ext (Some ''insert''),
         cmark_syntax_extension_set_special_inline_chars ext (cmark_llist_append [] 0x7E),
         cmark_syntax_extension_set_emphasis ext 1] g) (\<lambda>g.
      Inr (ext, g)))"

definition create_autolink_extension :: "globals \<Rightarrow> (eptr \<times> globals) res" where
  "create_autolink_extension g =
     (let (ext, g) = cmark_syntax_extension_new (str ''autolink'') g in
      bindr (seq_ext
        [cmark_syntax_extension_set_match_inline_func ext (Some ''match''),
         cmark_syntax_extension_set_postprocess_func ext (Some ''postprocess''),
         cmark_syntax_extension_set_special_inline_chars ext
           (cmark_llist_append (cmark_llist_append [] COLON) 0x77)] g) (\<lambda>g.
      Inr (ext, g)))"

definition create_tagfilter_extension :: "globals \<Rightarrow> (eptr \<times> globals) res" where
  "create_tagfilter_extension g =
     (let (ext, g) = cmark_syntax_extension_new (str ''tagfilter'') g in
      bindr (cmark_syntax_extension_set_html_filter_func ext (Some ''filter'') g) (\<lambda>g. Inr (ext, g)))"

definition create_tasklist_extension :: "globals \<Rightarrow> (eptr \<times> globals) res" where
  "create_tasklist_extension g =
     (let (ext, g) = cmark_syntax_extension_new (str ''tasklist'') g in
      bindr (seq_ext
        [cmark_syntax_extension_set_match_block_func ext (Some ''matches''),
         cmark_syntax_extension_set_get_type_string_func ext (Some ''get_type_string''),
         cmark_syntax_extension_set_open_block_func ext (Some ''open_tasklist_item''),
         cmark_syntax_extension_set_can_contain_func ext (Some ''can_contain''),
         cmark_syntax_extension_set_commonmark_render_func ext (Some ''commonmark_render''),
         cmark_syntax_extension_set_plaintext_render_func ext (Some ''commonmark_render''),
         cmark_syntax_extension_set_html_render_func ext (Some ''html_render''),
         cmark_syntax_extension_set_xml_attr_func ext (Some ''xml_attr'')] g) (\<lambda>g.
      Inr (ext, g)))"

definition register_created ::
  "(globals \<Rightarrow> (eptr \<times> globals) res) \<Rightarrow> cmark_plugin \<times> globals \<Rightarrow> (cmark_plugin \<times> globals) res" where
  "register_created create s =
     (case s of (plugin, g) \<Rightarrow>
        bindr (create g) (\<lambda>(e, g). Inr (snd (cmark_plugin_register_syntax_extension plugin e), g)))"

definition core_extensions_registration :: plugin_init where
  "core_extensions_registration plugin g =
     bindr (each register_created
       [create_table_extension, create_strikethrough_extension, create_autolink_extension,
        create_tagfilter_extension, create_tasklist_extension] (plugin, g)) (\<lambda>(plugin, g).
     Inr (1, plugin, g))"

definition register_plugins :: "globals \<Rightarrow> globals res" where
  "register_plugins = cmark_register_plugin core_extensions_registration"

text \<open>\<open>CMARK_RUN_ONCE\<close>: the latch is set before the function runs.\<close>

definition cmark_gfm_core_extensions_ensure_registered :: "globals \<Rightarrow> globals res" where
  "cmark_gfm_core_extensions_ensure_registered g =
     (if once g then Inr g else register_plugins (g\<lparr>once := True\<rparr>))"

section \<open>Lemmas\<close>

definition ext_live :: "globals \<Rightarrow> eptr \<Rightarrow> bool" where
  "ext_live g e \<longleftrightarrow> e < length (objs g) \<and> objs g ! e \<noteq> None"

definition ext_at :: "globals \<Rightarrow> eptr \<Rightarrow> ext_object" where
  "ext_at g e = the (objs g ! e)"

lemma ext_obj_live: "ext_live g e \<Longrightarrow> ext_obj g e = Inr (ext_at g e)"
  by (auto simp: ext_live_def ext_at_def ext_obj_def)

lemma ext_obj_dead: "\<not> ext_live g e \<Longrightarrow> ext_obj g e = Inl Bad_pointer"
  by (auto simp: ext_live_def ext_obj_def)

lemma find_ext_find:
  assumes "\<forall>e \<in> set es. ext_live g e"
  shows "find_ext g name es = Inr (List.find (\<lambda>e. x_name (ext_at g e) = name) es)"
  using assms by (induction es) (auto simp: ext_obj_live)

lemma foldl_append: "foldl cmark_llist_append xs ys = xs @ ys"
  by (induction ys arbitrary: xs) (simp_all add: cmark_llist_append_def)

lemma free_live:
  assumes "ext_live g e"
  shows "\<exists>g'. cmark_syntax_extension_free e g = Inr g' \<and> objs g' = (objs g)[e := None] \<and>
    syntax_extensions g' = syntax_extensions g"
  using assms by (auto simp: cmark_syntax_extension_free_def ext_obj_live Let_def split: option.splits)

lemma free_each:
  assumes "distinct es" "\<forall>e \<in> set es. ext_live g e"
  shows "\<exists>g'. each cmark_syntax_extension_free es g = Inr g' \<and> length (objs g') = length (objs g) \<and>
    syntax_extensions g' = syntax_extensions g \<and>
    (\<forall>e. e < length (objs g) \<longrightarrow> objs g' ! e = (if e \<in> set es then None else objs g ! e))"
  using assms
proof (induction es arbitrary: g)
  case (Cons e es)
  obtain g1 where g1: "cmark_syntax_extension_free e g = Inr g1" "objs g1 = (objs g)[e := None]"
    "syntax_extensions g1 = syntax_extensions g" using free_live [of g e] Cons.prems(2) by auto
  have "ext_live g1 x" if "x \<in> set es" for x
  proof -
    have "x \<noteq> e" "ext_live g x" using Cons.prems that by auto
    then show ?thesis by (simp add: ext_live_def g1(2))
  qed
  then have "\<forall>x \<in> set es. ext_live g1 x" by blast
  from Cons.IH [OF _ this] Cons.prems(1) obtain g2 where g2: "each cmark_syntax_extension_free es g1 = Inr g2"
    "length (objs g2) = length (objs g1)" "syntax_extensions g2 = syntax_extensions g1"
    "\<forall>e. e < length (objs g1) \<longrightarrow> objs g2 ! e = (if e \<in> set es then None else objs g1 ! e)" by auto
  show ?case
  proof (intro exI conjI allI impI)
    show "each cmark_syntax_extension_free (e # es) g = Inr g2" using g1(1) g2(1) by simp
    show "length (objs g2) = length (objs g)" "syntax_extensions g2 = syntax_extensions g"
      using g1 g2 by simp_all
    show "objs g2 ! x = (if x \<in> set (e # es) then None else objs g ! x)" if "x < length (objs g)" for x
      using g2(4) that by (auto simp: g1(2) nth_list_update)
  qed
qed simp

text \<open>The class of a node type and its number are the two parts of the word.\<close>

lemma class_part: "t AND CMARK_NODE_TYPE_MASK = push_bit 14 (drop_bit 14 t)" for t :: node_type
proof -
  have m: "(0x3FFF :: int) = mask 14" by (simp add: mask_eq_exp_minus_1)
  have b: "bit (0x3FFF :: int) n \<longleftrightarrow> n < 14" for n unfolding m bit_mask_iff by auto
  have c: "(0xC000 :: node_type) = NOT 0x3FFF" by simp
  have "t AND NOT 0x3FFF = push_bit 14 (drop_bit 14 t)"
    by (rule bit_word_eqI) (auto simp: bit_simps b)
  then show ?thesis unfolding c .
qed

lemma class_nat: "unat (t AND CMARK_NODE_TYPE_MASK) = unat t div 16384 * 16384" for t :: node_type
proof -
  have "unat t div 16384 * 16384 < 65536" using unsigned_less [of t, where 'a = nat] by simp
  then show ?thesis
    unfolding class_part push_bit_eq_mult unat_word_ariths unsigned_drop_bit_eq
    by (simp add: drop_bit_eq_div take_bit_nat_eq_self [of _ 16])
qed

lemma value_nat: "unat (t AND CMARK_NODE_VALUE_MASK) = unat t mod 16384" for t :: node_type
proof -
  have "t AND CMARK_NODE_VALUE_MASK = take_bit 14 t" by (simp add: take_bit_eq_mask mask_eq_exp_minus_1)
  then show ?thesis by (simp add: take_bit_eq_mod unat_mod_distrib)
qed

definition class_nr :: "node_type \<Rightarrow> nat" where
  "class_nr t = unat t div 16384"

lemma class_iff:
  "CMARK_NODE_TYPE_BLOCK_P t \<longleftrightarrow> class_nr t = 2" "CMARK_NODE_TYPE_INLINE_P t \<longleftrightarrow> class_nr t = 3"
proof -
  have eq: "t AND CMARK_NODE_TYPE_MASK = w \<longleftrightarrow> class_nr t * 16384 = unat w" for w :: node_type
    unfolding class_nr_def class_nat [symmetric] by (simp add: word_unat_eq_iff)
  from eq [of "0x8000"] eq [of "0xC000"]
  show "CMARK_NODE_TYPE_BLOCK_P t \<longleftrightarrow> class_nr t = 2" "CMARK_NODE_TYPE_INLINE_P t \<longleftrightarrow> class_nr t = 3"
    by (auto simp: CMARK_NODE_TYPE_BLOCK_P_def CMARK_NODE_TYPE_INLINE_P_def)
qed

text \<open>The next type has the same class, unless the numbers of the class are used up.\<close>

lemma next_type:
  assumes "t AND CMARK_NODE_VALUE_MASK \<noteq> CMARK_NODE_VALUE_MASK"
  shows "unat (t + 1) = Suc (unat t)" "class_nr (t + 1) = class_nr t"
proof -
  have "unat t mod 16384 \<noteq> 16383"
    using assms unfolding word_unat_eq_iff value_nat by simp
  moreover have "unat t mod 16384 < 16384" by simp
  ultimately have m: "unat t mod 16384 < 16383" by linarith
  have "unat t < 65536" using unsigned_less [of t, where 'a = nat] by simp
  moreover have "unat t \<noteq> 65535" using m by auto
  ultimately show s: "unat (t + 1) = Suc (unat t)" by (simp add: unat_word_ariths)
  have "Suc (unat t) div 16384 = unat t div 16384" using m by (simp add: div_Suc mod_Suc)
  then show "class_nr (t + 1) = class_nr t" by (simp add: class_nr_def s)
qed

text \<open>The counters stay in their classes.\<close>

definition types_ok :: "globals \<Rightarrow> bool" where
  "types_ok g \<longleftrightarrow> class_nr (CMARK_NODE_LAST_BLOCK g) = 2 \<and> class_nr (CMARK_NODE_LAST_INLINE g) = 3"

definition last_type :: "bool \<Rightarrow> globals \<Rightarrow> node_type" where
  "last_type is_inline g = (if is_inline then CMARK_NODE_LAST_INLINE g else CMARK_NODE_LAST_BLOCK g)"

lemma start_types_ok: "types_ok start_globals"
  by (simp add: types_ok_def start_globals_def class_nr_def)

lemma add_node:
  assumes "cmark_syntax_extension_add_node b g = Inr (t, g')" "types_ok g"
  shows "types_ok g'" "class_nr t = (if b then 3 else 2)" "last_type b g < t" "last_type b g' = t"
    "last_type (\<not> b) g' = last_type (\<not> b) g"
proof -
  have l: "last_type b g AND CMARK_NODE_VALUE_MASK \<noteq> CMARK_NODE_VALUE_MASK" "t = last_type b g + 1"
    and g': "g' = (if b then g\<lparr>CMARK_NODE_LAST_INLINE := t\<rparr> else g\<lparr>CMARK_NODE_LAST_BLOCK := t\<rparr>)"
    using assms(1) by (auto simp: cmark_syntax_extension_add_node_def Let_def last_type_def split: if_splits)
  note n = next_type [OF l(1)]
  show "last_type b g < t" using n(1) l(2) by (simp add: word_less_nat_alt)
  show c: "class_nr t = (if b then 3 else 2)"
    using n(2) l(2) assms(2) by (simp add: types_ok_def last_type_def split: if_splits)
  show "types_ok g'" using c assms(2) g' by (auto simp: types_ok_def)
  show "last_type b g' = t" "last_type (\<not> b) g' = last_type (\<not> b) g" using g' by (simp_all add: last_type_def)
qed

fun add_nodes :: "bool list \<Rightarrow> globals \<Rightarrow> (node_type list \<times> globals) res" where
  "add_nodes [] g = Inr ([], g)"
| "add_nodes (b # bs) g =
     bindr (cmark_syntax_extension_add_node b g) (\<lambda>(t, g).
     bindr (add_nodes bs g) (\<lambda>(ts, g). Inr (t # ts, g)))"

lemma add_nodes_new:
  assumes "add_nodes bs g = Inr (ts, g')" "types_ok g"
  shows "length ts = length bs \<and> distinct ts \<and>
    (\<forall>i < length bs. class_nr (ts ! i) = (if bs ! i then 3 else 2) \<and> last_type (bs ! i) g < ts ! i)"
  using assms
proof (induction bs arbitrary: g ts)
  case (Cons b bs)
  obtain t g1 us where r: "cmark_syntax_extension_add_node b g = Inr (t, g1)" "add_nodes bs g1 = Inr (us, g')" "ts = t # us"
    using Cons.prems(1) by (auto split: prod.splits)
  note a = add_node [OF r(1) Cons.prems(2)]
  from Cons.IH [OF r(2) a(1)] have IH: "length us = length bs" "distinct us"
    "\<And>i. i < length bs \<Longrightarrow> class_nr (us ! i) = (if bs ! i then 3 else 2)"
    "\<And>i. i < length bs \<Longrightarrow> last_type (bs ! i) g1 < us ! i" by blast+
  have up: "last_type c g \<le> last_type c g1" for c using a(3-5) by (cases "c = b") auto
  have "t \<noteq> us ! i" if "i < length bs" for i
  proof (cases "bs ! i = b")
    case True
    then show ?thesis using IH(4) [OF that] a(4) by auto
  next
    case False
    then show ?thesis using IH(3) [OF that] a(2) by auto
  qed
  then have "t \<notin> set us" using IH(1) by (auto simp: in_set_conv_nth)
  moreover have "class_nr (ts ! i) = (if (b # bs) ! i then 3 else 2) \<and> last_type ((b # bs) ! i) g < ts ! i"
    if "i < length (b # bs)" for i
  proof (cases i)
    case 0
    then show ?thesis using a(2,3) r(3) by simp
  next
    case (Suc k)
    then show ?thesis using IH(3,4) [of k] up [of "bs ! k"] that r(3) by (auto intro: le_less_trans)
  qed
  ultimately show ?case using IH(1,2) r(3) by simp
qed simp

section \<open>Registering, releasing, and the core extensions\<close>

lemma release_frees:
  assumes "distinct (syntax_extensions g)" "\<forall>e \<in> set (syntax_extensions g). ext_live g e"
  shows "\<exists>g'. cmark_release_plugins g = Inr g' \<and> syntax_extensions g' = [] \<and>
    (\<forall>e. ext_live g' e \<longleftrightarrow> ext_live g e \<and> e \<notin> set (syntax_extensions g)) \<and>
    cmark_release_plugins g' = Inr g'"
proof (cases "syntax_extensions g = []")
  case True
  then show ?thesis by (simp add: cmark_release_plugins_def)
next
  case False
  obtain g1 where g1: "each cmark_syntax_extension_free (syntax_extensions g) g = Inr g1"
    "length (objs g1) = length (objs g)"
    "\<forall>e. e < length (objs g) \<longrightarrow> objs g1 ! e = (if e \<in> set (syntax_extensions g) then None else objs g ! e)"
    using free_each [OF assms] by blast
  have "cmark_release_plugins g = Inr (g1\<lparr>syntax_extensions := []\<rparr>)"
    using False g1(1) by (simp add: cmark_release_plugins_def cmark_llist_free_full_def)
  moreover have "ext_live (g1\<lparr>syntax_extensions := []\<rparr>) e \<longleftrightarrow> ext_live g e \<and> e \<notin> set (syntax_extensions g)" for e
    using g1(2,3) by (auto simp: ext_live_def split: if_splits)
  ultimately show ?thesis by (simp add: cmark_release_plugins_def)
qed

text \<open>What the core registration leaves behind: the names in order, and the node types.\<close>

lemma core_registered:
  "case cmark_gfm_core_extensions_ensure_registered start_globals of Inl _ \<Rightarrow> False
   | Inr g \<Rightarrow>
       map (\<lambda>e. x_name (ext_at g e)) (syntax_extensions g) =
         [str ''table'', str ''strikethrough'', str ''autolink'', str ''tagfilter'', str ''tasklist''] \<and>
       list_all (ext_live g) (syntax_extensions g) \<and> distinct (syntax_extensions g) \<and>
       [CMARK_NODE_TABLE g, CMARK_NODE_TABLE_ROW g, CMARK_NODE_TABLE_CELL g, CMARK_NODE_STRIKETHROUGH g] =
         [0x800C, 0x800D, 0x800E, 0xC00D]"
  by code_simp

text \<open>
  The latch stays set when the plugins are released: the core extensions never come back.
\<close>

lemma core_released_for_good:
  "case bindr (cmark_gfm_core_extensions_ensure_registered start_globals) (\<lambda>g.
        bindr (cmark_release_plugins g) cmark_gfm_core_extensions_ensure_registered) of
     Inl _ \<Rightarrow> False | Inr g \<Rightarrow> syntax_extensions g = []"
  by code_simp

text \<open>An extension that two plugins register is freed twice.\<close>

lemma shared_extension_freed_twice:
  "let (e, g) = cmark_syntax_extension_new (str ''x'') start_globals;
       p = (\<lambda>plugin g. Inr (1, snd (cmark_plugin_register_syntax_extension plugin e), g))
   in (case bindr (cmark_register_plugin p g) (\<lambda>g. bindr (cmark_register_plugin p g) cmark_release_plugins) of
         Inl err \<Rightarrow> err = Bad_pointer | Inr _ \<Rightarrow> False)"
  by code_simp

section \<open>Properties\<close>

text \<open>
  C30: The node types that extensions are given are new: as long as no assertion fails, any sequence of
  requests gives pairwise different types, each of the class asked for (block or inline) and
  above all types of its class that existed before.
\<close>

theorem node_types_fresh:
  assumes "types_ok g" "add_nodes bs g = Inr (ts, g')"
  shows "distinct ts \<and> (\<forall>i < length bs.
    (if bs ! i then CMARK_NODE_TYPE_INLINE_P (ts ! i) \<and> CMARK_NODE_LAST_INLINE g < ts ! i
     else CMARK_NODE_TYPE_BLOCK_P (ts ! i) \<and> CMARK_NODE_LAST_BLOCK g < ts ! i))"
  using add_nodes_new [OF assms(2,1)] by (auto simp: class_iff last_type_def split: if_splits)

theorem node_types_fresh_witness:
  "\<exists>ts g. add_nodes [False, True, False] start_globals = Inr (ts, g) \<and> distinct ts"
proof -
  have "add_nodes [False, True, False] start_globals =
    Inr ([0x800C, 0xC00D, 0x800D], start_globals\<lparr>CMARK_NODE_LAST_BLOCK := 0x800D, CMARK_NODE_LAST_INLINE := 0xC00D\<rparr>)"
    by (simp add: cmark_syntax_extension_add_node_def start_globals_def)
  then show ?thesis using node_types_fresh [OF start_types_ok, of "[False, True, False]"] by blast
qed

text \<open>
  C29: A plugin whose initialisation succeeds adds its extensions at the end of the registry, in the
  order in which it registered them, and keeps the objects alive; a lookup by name then gives the
  extension of that name that was registered first, or none.
\<close>

theorem register_then_find:
  assumes "reg_fn [] g = Inr (ret, plugin, g1)" "ret \<noteq> 0" "syntax_extensions g1 = syntax_extensions g"
    "\<forall>e \<in> set (syntax_extensions g @ plugin). ext_live g1 e"
  shows "\<exists>g'. cmark_register_plugin reg_fn g = Inr g' \<and>
    cmark_list_syntax_extensions g' = cmark_list_syntax_extensions g @ plugin \<and> objs g' = objs g1 \<and>
    (\<forall>name. cmark_find_syntax_extension name g' =
       Inr (List.find (\<lambda>e. x_name (ext_at g1 e) = name) (cmark_list_syntax_extensions g @ plugin)))"
proof -
  let ?g = "g1\<lparr>syntax_extensions := syntax_extensions g @ plugin\<rparr>"
  have "cmark_register_plugin reg_fn g = Inr ?g"
    using assms(1-3) by (simp add: cmark_register_plugin_def cmark_plugin_new_def cmark_plugin_steal_syntax_extensions_def
        foldl_append cmark_llist_free_def cmark_llist_free_full_def cmark_plugin_free_def)
  moreover have "\<forall>e \<in> set (syntax_extensions g @ plugin). ext_live ?g e"
    using assms(4) by (auto simp: ext_live_def)
  then have "cmark_find_syntax_extension name ?g =
      Inr (List.find (\<lambda>e. x_name (ext_at g1 e) = name) (syntax_extensions g @ plugin))" for name
    using find_ext_find [of "syntax_extensions g @ plugin" ?g name]
    by (simp add: cmark_find_syntax_extension_def ext_at_def)
  ultimately show ?thesis by (simp add: cmark_list_syntax_extensions_def foldl_append)
qed

theorem register_then_find_witness:
  "\<exists>g'. cmark_register_plugin core_extensions_registration start_globals = Inr g' \<and>
     cmark_find_syntax_extension (str ''tagfilter'') g' = Inr (Some 3)"
proof -
  have "case core_extensions_registration [] start_globals of Inl _ \<Rightarrow> False
    | Inr (ret, plugin, g1) \<Rightarrow> ret = 1 \<and> plugin = [0, 1, 2, 3, 4] \<and> syntax_extensions g1 = [] \<and>
        list_all (ext_live g1) [0, 1, 2, 3, 4] \<and>
        List.find (\<lambda>e. x_name (ext_at g1 e) = str ''tagfilter'') [0, 1, 2, 3, 4] = Some 3"
    by code_simp
  then obtain g1 where r: "core_extensions_registration [] start_globals = Inr (1, [0, 1, 2, 3, 4], g1)"
    "syntax_extensions g1 = []" "list_all (ext_live g1) [0, 1, 2, 3, 4]"
    "List.find (\<lambda>e. x_name (ext_at g1 e) = str ''tagfilter'') [0, 1, 2, 3, 4] = Some 3"
    by (cases "core_extensions_registration [] start_globals") auto
  have s: "syntax_extensions start_globals = []" by (simp add: start_globals_def)
  have "\<forall>e \<in> set (syntax_extensions start_globals @ [0, 1, 2, 3, 4]). ext_live g1 e"
    using r(3) unfolding s list_all_iff by simp
  moreover have "(1 :: int) \<noteq> 0" "syntax_extensions g1 = syntax_extensions start_globals" using r(2) s by simp_all
  ultimately obtain g' where
    "cmark_register_plugin core_extensions_registration start_globals = Inr g'"
    "cmark_find_syntax_extension (str ''tagfilter'') g' =
       Inr (List.find (\<lambda>e. x_name (ext_at g1 e) = str ''tagfilter'') (cmark_list_syntax_extensions start_globals @ [0, 1, 2, 3, 4]))"
    using register_then_find [of core_extensions_registration start_globals 1 "[0, 1, 2, 3, 4]" g1] r(1) by blast
  then show ?thesis using r(4) s by (simp only: cmark_list_syntax_extensions_def foldl_append) auto
qed

end
