(* ===== verification/Html.thy ===== *)
theory Html
  imports Iterator Houdini
begin

text \<open>
  The HTML renderer: src/src/html.c and src/src/include/html.h.

  All output goes to one buffer, \<open>renderer->html\<close>, and nothing in the control flow looks at it,
  except \<open>cmark_html_render_cr\<close>.  So \<open>S_render_node\<close> returns the calls that it makes on that buffer,
  in order, as a list of type \<open>emit\<close>, and \<open>run_emit\<close> is what each of these calls does.  The callbacks
  of extensions and the callback that filters HTML are fields of \<open>html_env\<close>; a renderer of an
  extension returns its calls in the same way.
\<close>

section \<open>The calls on the buffer\<close>

datatype emit =
    Puts "byte list"           \<comment> \<open>\<open>cmark_strbuf_puts(html, s)\<close>\<close>
  | Putc byte                  \<comment> \<open>\<open>cmark_strbuf_putc(html, c)\<close>\<close>
  | Put_raw "byte list" int    \<comment> \<open>\<open>cmark_strbuf_put(html, data, len)\<close>\<close>
  | Escape "byte list" int     \<comment> \<open>\<open>escape_html(html, data, len)\<close>\<close>
  | Href "byte list" int       \<comment> \<open>\<open>houdini_escape_href(html, data, len)\<close>\<close>
  | Cr                         \<comment> \<open>\<open>cmark_html_render_cr(html)\<close>\<close>

definition cmark_html_render_cr :: "cmark_strbuf \<Rightarrow> cmark_strbuf res" where
  "cmark_html_render_cr html =
     (if bsize html \<noteq> 0
      then bindr (peek (ptr html) (bsize html - 1)) (\<lambda>c. if c \<noteq> LF then cmark_strbuf_putc html LF else Inr html)
      else Inr html)"

definition escape_html :: "cmark_strbuf \<Rightarrow> byte list \<Rightarrow> int \<Rightarrow> cmark_strbuf res" where
  "escape_html dest source len = houdini_escape_html0 dest source len False"

definition run_emit :: "emit \<Rightarrow> cmark_strbuf \<Rightarrow> cmark_strbuf res" where
  "run_emit e html =
     (case e of
        Puts s \<Rightarrow> cmark_strbuf_puts html (s @ [NUL])
      | Putc c \<Rightarrow> cmark_strbuf_putc html c
      | Put_raw data len \<Rightarrow> cmark_strbuf_put html data len
      | Escape data len \<Rightarrow> escape_html html data len
      | Href data len \<Rightarrow> houdini_escape_href html data len
      | Cr \<Rightarrow> cmark_html_render_cr html)"

section \<open>The renderer\<close>

abbreviation (input) CMARK_OPT_SOURCEPOS :: "32 word" where "CMARK_OPT_SOURCEPOS \<equiv> 0x2"
abbreviation (input) CMARK_OPT_HARDBREAKS :: "32 word" where "CMARK_OPT_HARDBREAKS \<equiv> 0x4"
abbreviation (input) CMARK_OPT_NOBREAKS :: "32 word" where "CMARK_OPT_NOBREAKS \<equiv> 0x10"
abbreviation (input) CMARK_OPT_GITHUB_PRE_LANG :: "32 word" where "CMARK_OPT_GITHUB_PRE_LANG \<equiv> 0x800"
abbreviation (input) CMARK_OPT_FULL_INFO_STRING :: "32 word" where "CMARK_OPT_FULL_INFO_STRING \<equiv> 0x10000"
abbreviation (input) CMARK_OPT_UNSAFE :: "32 word" where "CMARK_OPT_UNSAFE \<equiv> 0x20000"

definition opt :: "32 word \<Rightarrow> 32 word \<Rightarrow> bool" where
  "opt options flag \<longleftrightarrow> options AND flag \<noteq> 0"

text \<open>The state that the table extension keeps behind \<open>opaque\<close>.\<close>

record html_table_state =
  need_closing_table_body :: bool
  in_table_header :: bool

record html_renderer =
  plain :: "nptr option"
  filter_extensions :: "eptr list"
  footnote_ix :: "32 word"
  written_footnote_ix :: "32 word"
  html_opaque :: "html_table_state option"

type_synonym rendered = "(html_renderer \<times> emit list) res"

type_synonym html_callback = "html_renderer \<Rightarrow> heap \<Rightarrow> nptr \<Rightarrow> cmark_event_type \<Rightarrow> 32 word \<Rightarrow> rendered"

record html_env =
  html_render_func :: "eptr \<Rightarrow> html_callback option"
  html_filter_func :: "eptr \<Rightarrow> (byte list \<Rightarrow> int \<Rightarrow> bool res) option"

text \<open>\<open>chunk.data\<close> as an argument of a function that reads nothing of a null pointer of length 0.\<close>

definition data_of :: "cmark_chunk \<Rightarrow> byte list" where
  "data_of c = (case ch_data c of None \<Rightarrow> [] | Some d \<Rightarrow> d)"

definition esc_chunk :: "cmark_chunk \<Rightarrow> emit" where
  "esc_chunk c = Escape (data_of c) (ch_len c)"

definition href_chunk :: "cmark_chunk \<Rightarrow> emit" where
  "href_chunk c = Href (data_of c) (ch_len c)"

definition raw_chunk :: "cmark_chunk \<Rightarrow> emit" where
  "raw_chunk c = Put_raw (data_of c) (ch_len c)"

definition lit :: "string \<Rightarrow> emit" where
  "lit s = Puts (str s)"

text \<open>The call of every filter, until one of them filters.\<close>

fun is_filtered :: "html_env \<Rightarrow> eptr list \<Rightarrow> byte list \<Rightarrow> int \<Rightarrow> bool res" where
  "is_filtered env [] data len = Inr False"
| "is_filtered env (e # es) data len =
     (case html_filter_func env e of
        None \<Rightarrow> Inl Null_deref
      | Some f \<Rightarrow> bindr (f data len) (\<lambda>ok. if \<not> ok then Inr True else is_filtered env es data len))"

text \<open>\<open>memchr(data, '<', len)\<close>, as the number of bytes before the match.\<close>

definition find_lt :: "byte list \<Rightarrow> int \<Rightarrow> nat option" where
  "find_lt data len =
     (let run = takeWhile (\<lambda>c. c \<noteq> LESS_THAN) (take (nat len) data)
      in if length run < length (take (nat len) data) then Some (length run) else None)"

lemma find_lt_less: "find_lt data len = Some k \<Longrightarrow> int k < len"
  by (auto simp: find_lt_def Let_def split: if_splits)

function filter_html_block :: "html_env \<Rightarrow> html_renderer \<Rightarrow> byte list \<Rightarrow> int \<Rightarrow> emit list res" where
  "filter_html_block env r data len =
     (if len \<le> 0 then Inr []
      else
        case find_lt data len of
          None \<Rightarrow> Inr [Put_raw data len]
        | Some k \<Rightarrow>
            let before = (if k \<noteq> 0 then [Put_raw data (int k)] else []);
                data = drop k data; len = len - int k
            in bindr (is_filtered env (filter_extensions r) data len) (\<lambda>filtered.
               bindr (filter_html_block env r (drop 1 data) (len - 1)) (\<lambda>rest.
               Inr (before @ [if \<not> filtered then Putc LESS_THAN else lit ''&lt;''] @ rest))))"
  by pat_completeness auto
termination
  by (relation "measure (\<lambda>(env, r, data, len). nat len)") (auto dest: find_lt_less)

declare filter_html_block.simps [simp del]

definition cmark_html_render_sourcepos :: "cmark_node \<Rightarrow> 32 word \<Rightarrow> emit list" where
  "cmark_html_render_sourcepos n options =
     (if opt options CMARK_OPT_SOURCEPOS
      then [Puts (str '' data-sourcepos=\"'' @ decimal (start_line n) @ [COLON] @ decimal (start_column n) @
              [HYPHEN] @ decimal (end_line n) @ [COLON] @ decimal (end_column n) @ [DQUOTE])]
      else [])"

definition literal_chunk :: "cmark_node \<Rightarrow> cmark_chunk res" where
  "literal_chunk n = get_chunk M_literal (n_as n)"

definition backref_arrow :: "byte list" where
  "backref_arrow = [0xE2, 0x86, 0xA9]"

definition more_backrefs :: "cmark_chunk \<Rightarrow> byte list \<Rightarrow> int \<Rightarrow> emit list" where
  "more_backrefs c m i =
     (let n = decimal i in
      [lit '' <a href=\"#fnref-'', href_chunk c, lit ''-'', Puts n,
       lit ''\" class=\"footnote-backref\" data-footnote-backref data-footnote-backref-idx=\"'',
       Puts m, lit ''-'', Puts n,
       lit ''\" aria-label=\"Back to reference '',
       Puts m, lit ''-'', Puts n,
       Puts (str ''\">'' @ backref_arrow @ str ''<sup class=\"footnote-ref\">''),
       Puts n, lit ''</sup></a>''])"

text \<open>The result (\<open>true\<close> when something was written), the renderer and the calls.\<close>

definition S_put_footnote_backref :: "html_renderer \<Rightarrow> cmark_node \<Rightarrow> (bool \<times> html_renderer \<times> emit list) res" where
  "S_put_footnote_backref r n =
     (if written_footnote_ix r \<ge> footnote_ix r then Inr (False, r, [])
      else
        let r = r\<lparr>written_footnote_ix := footnote_ix r\<rparr>; m = decimal (sint (written_footnote_ix r))
        in bindr (literal_chunk n) (\<lambda>c.
           Inr (True, r,
             [lit ''<a href=\"#fnref-'', href_chunk c,
              lit ''\" class=\"footnote-backref\" data-footnote-backref data-footnote-backref-idx=\"'', Puts m,
              lit ''\" aria-label=\"Back to reference '', Puts m,
              Puts (str ''\">'' @ backref_arrow @ str ''</a>'')] @
             (if footnote n > 1 then concat (map (more_backrefs c m) [2..footnote n]) else []))))"

section \<open>One node\<close>

text \<open>\<open>_scan_at\<close> and \<open>_scan_dangerous_url\<close>: the scanner sees the chunk from the offset on, with a NUL
  behind it.\<close>

definition scan_at :: "(byte list \<Rightarrow> int) \<Rightarrow> cmark_chunk \<Rightarrow> int \<Rightarrow> int res" where
  "scan_at scanner c offset =
     (case ch_data c of
        None \<Rightarrow> Inr 0
      | Some d \<Rightarrow>
          if offset > ch_len c then Inr 0
          else bindr (peek d (ch_len c)) (\<lambda>lim.
               Inr (scanner (drop (nat offset) (take (nat (ch_len c)) d) @ [NUL]))))"

definition lower :: "byte \<Rightarrow> byte" where
  "lower c = (if 0x41 \<le> c \<and> c \<le> 0x5A then c + 0x20 else c)"

definition ci_prefix :: "string \<Rightarrow> byte list \<Rightarrow> bool" where
  "ci_prefix p s \<longleftrightarrow> map lower (take (length p) s) = str p"

definition scan_dangerous_url_re :: "byte list \<Rightarrow> int" where
  "scan_dangerous_url_re p =
     (if list_ex (\<lambda>k. ci_prefix (''data:image/'' @ k) p) [''png'', ''gif'', ''jpeg'', ''webp''] then 0
      else if ci_prefix ''javascript:'' p then 11
      else if ci_prefix ''vbscript:'' p then 9
      else if ci_prefix ''file:'' p \<or> ci_prefix ''data:'' p then 5
      else 0)"

definition scan_dangerous_url :: "cmark_chunk \<Rightarrow> int \<Rightarrow> int res" where
  "scan_dangerous_url c n = scan_at scan_dangerous_url_re c n"

text \<open>Inside the description of an image: text only.\<close>

definition render_plain :: "cmark_node \<Rightarrow> emit list res" where
  "render_plain n =
     (if n_type n \<in> {CMARK_NODE_TEXT, CMARK_NODE_CODE, CMARK_NODE_HTML_INLINE}
      then bindr (literal_chunk n) (\<lambda>c. Inr [esc_chunk c])
      else if n_type n \<in> {CMARK_NODE_LINEBREAK, CMARK_NODE_SOFTBREAK} then Inr [Putc SPACE]
      else Inr [])"

definition render_block_quote :: "cmark_node \<Rightarrow> bool \<Rightarrow> 32 word \<Rightarrow> emit list" where
  "render_block_quote n entering options =
     (if entering then [Cr, lit ''<blockquote''] @ cmark_html_render_sourcepos n options @ [Puts (str ''>'' @ [LF])]
      else [Cr, Puts (str ''</blockquote>'' @ [LF])])"

definition render_list :: "cmark_node \<Rightarrow> bool \<Rightarrow> 32 word \<Rightarrow> emit list res" where
  "render_list n entering options =
     bindr (as_list (n_as n)) (\<lambda>l.
     let list_type = list_type l; start = list_start l; pos = cmark_html_render_sourcepos n options in
     Inr (if entering then
            [Cr] @
            (if list_type = CMARK_BULLET_LIST then [lit ''<ul''] @ pos @ [Puts (str ''>'' @ [LF])]
             else if start = 1 then [lit ''<ol''] @ pos @ [Puts (str ''>'' @ [LF])]
             else [Puts (str ''<ol start=\"'' @ decimal start @ [DQUOTE])] @ pos @ [Puts (str ''>'' @ [LF])])
          else [Puts (str (if list_type = CMARK_BULLET_LIST then ''</ul>'' else ''</ol>'') @ [LF])]))"

definition render_item :: "cmark_node \<Rightarrow> bool \<Rightarrow> 32 word \<Rightarrow> emit list" where
  "render_item n entering options =
     (if entering then [Cr, lit ''<li''] @ cmark_html_render_sourcepos n options @ [Putc GREATER_THAN]
      else [Puts (str ''</li>'' @ [LF])])"

definition render_heading :: "cmark_node \<Rightarrow> bool \<Rightarrow> 32 word \<Rightarrow> emit list res" where
  "render_heading n entering options =
     bindr (as_heading (n_as n)) (\<lambda>hd.
     let digit = word_of_int (0x30 + level hd) in
     Inr (if entering then
            [Cr, Puts (str ''<h'' @ [digit])] @ cmark_html_render_sourcepos n options @ [Putc GREATER_THAN]
          else [Puts (str ''</h'' @ [digit]), Puts (str ''>'' @ [LF])]))"

definition code_meta :: "byte list \<Rightarrow> int \<Rightarrow> int \<Rightarrow> 32 word \<Rightarrow> emit list" where
  "code_meta data first_tag len options =
     (if first_tag < len \<and> opt options CMARK_OPT_FULL_INFO_STRING
      then [lit ''\" data-meta=\"'', Escape (drop (nat first_tag + 1) data) (len - first_tag - 1)]
      else [])"

definition render_code_block :: "cmark_node \<Rightarrow> 32 word \<Rightarrow> emit list res" where
  "render_code_block n options =
     bindr (as_code (n_as n)) (\<lambda>code.
     let pos = cmark_html_render_sourcepos n options; len = ch_len (info code); data = data_of (info code)
     in bindr (scan_while (\<lambda>c. \<not> cmark_isspace c) data 0 len) (\<lambda>first_tag.
        let meta = code_meta data first_tag len options in
        Inr ([Cr] @
          (if len = 0 then [lit ''<pre''] @ pos @ [lit ''><code>'']
           else if opt options CMARK_OPT_GITHUB_PRE_LANG
           then [lit ''<pre''] @ pos @ [lit '' lang=\"'', Escape data first_tag] @ meta @ [lit ''\"><code>'']
           else [lit ''<pre''] @ pos @ [lit ''><code class=\"language-'', Escape data first_tag] @ meta @ [lit ''\">'']) @
          [esc_chunk (code_literal code), Puts (str ''</code></pre>'' @ [LF])])))"

definition render_html_block :: "html_env \<Rightarrow> html_renderer \<Rightarrow> cmark_node \<Rightarrow> 32 word \<Rightarrow> emit list res" where
  "render_html_block env r n options =
     bindr (if \<not> opt options CMARK_OPT_UNSAFE then Inr [lit ''<!-- raw HTML omitted -->'']
            else
              bindr (literal_chunk n) (\<lambda>c.
              if filter_extensions r \<noteq> [] then filter_html_block env r (data_of c) (ch_len c)
              else Inr [raw_chunk c])) (\<lambda>es.
     Inr ([Cr] @ es @ [Cr]))"

definition render_custom :: "cmark_node \<Rightarrow> bool \<Rightarrow> emit list res" where
  "render_custom n entering =
     bindr (get_chunk (if entering then M_on_enter else M_on_exit) (n_as n)) (\<lambda>c. Inr [raw_chunk c])"

definition render_custom_block :: "cmark_node \<Rightarrow> bool \<Rightarrow> emit list res" where
  "render_custom_block n entering = bindr (render_custom n entering) (\<lambda>es. Inr ([Cr] @ es @ [Cr]))"

definition render_thematic_break :: "cmark_node \<Rightarrow> 32 word \<Rightarrow> emit list" where
  "render_thematic_break n options =
     [Cr, lit ''<hr''] @ cmark_html_render_sourcepos n options @ [Puts (str '' />'' @ [LF])]"

definition render_paragraph :: "html_renderer \<Rightarrow> heap \<Rightarrow> nptr \<Rightarrow> cmark_node \<Rightarrow> bool \<Rightarrow> 32 word \<Rightarrow> rendered" where
  "render_paragraph r h p n entering options =
     bindr (cmark_node_parent h (Some p)) (\<lambda>parent.
     bindr (cmark_node_parent h parent) (\<lambda>grandparent.
     bindr (case grandparent of
              None \<Rightarrow> Inr False
            | Some g \<Rightarrow> bindr (deref h g) (\<lambda>gn.
                if n_type gn = CMARK_NODE_LIST then bindr (as_list (n_as gn)) (\<lambda>l. Inr (tight l)) else Inr False))
       (\<lambda>tight.
     if tight then Inr (r, [])
     else if entering
     then Inr (r, [Cr, lit ''<p''] @ cmark_html_render_sourcepos n options @ [Putc GREATER_THAN])
     else
       bindr (deref_opt h parent) (\<lambda>pn.
       bindr (if n_type pn = CMARK_NODE_FOOTNOTE_DEFINITION \<and> n_next n = None
              then bindr (S_put_footnote_backref r pn) (\<lambda>(_, r, es). Inr (r, Putc SPACE # es))
              else Inr (r, [])) (\<lambda>(r, es).
       Inr (r, es @ [Puts (str ''</p>'' @ [LF])]))))))"

definition render_softbreak :: "32 word \<Rightarrow> emit list" where
  "render_softbreak options =
     (if opt options CMARK_OPT_HARDBREAKS then [Puts (str ''<br />'' @ [LF])]
      else if opt options CMARK_OPT_NOBREAKS then [Putc SPACE]
      else [Putc LF])"

definition render_html_inline :: "html_env \<Rightarrow> html_renderer \<Rightarrow> cmark_node \<Rightarrow> 32 word \<Rightarrow> emit list res" where
  "render_html_inline env r n options =
     (if \<not> opt options CMARK_OPT_UNSAFE then Inr [lit ''<!-- raw HTML omitted -->'']
      else
        bindr (literal_chunk n) (\<lambda>c.
        bindr (is_filtered env (filter_extensions r) (data_of c) (ch_len c)) (\<lambda>filtered.
        if \<not> filtered then Inr [raw_chunk c]
        else Inr [lit ''&lt;'', Put_raw (drop 1 (data_of c)) (ch_len c - 1)])))"

definition render_strong :: "heap \<Rightarrow> cmark_node \<Rightarrow> bool \<Rightarrow> emit list res" where
  "render_strong h n entering =
     bindr (case n_parent n of None \<Rightarrow> Inr True
            | Some q \<Rightarrow> bindr (deref h q) (\<lambda>pn. Inr (n_type pn \<noteq> CMARK_NODE_STRONG))) (\<lambda>outer.
     Inr (if \<not> outer then [] else if entering then [lit ''<strong>''] else [lit ''</strong>'']))"

definition render_url :: "cmark_node \<Rightarrow> 32 word \<Rightarrow> emit list res" where
  "render_url n options =
     bindr (get_chunk M_link_url (n_as n)) (\<lambda>u.
     bindr (if opt options CMARK_OPT_UNSAFE then Inr True
            else bindr (scan_dangerous_url u 0) (\<lambda>k. Inr (k = 0))) (\<lambda>ok.
     Inr (if ok then [href_chunk u] else [])))"

definition render_title :: "cmark_node \<Rightarrow> emit list res" where
  "render_title n =
     bindr (get_chunk M_link_title (n_as n)) (\<lambda>t.
     Inr (if ch_len t \<noteq> 0 then [lit ''\" title=\"'', esc_chunk t] else []))"

definition render_link :: "cmark_node \<Rightarrow> bool \<Rightarrow> 32 word \<Rightarrow> emit list res" where
  "render_link n entering options =
     (if entering
      then
        bindr (render_url n options) (\<lambda>us.
        bindr (render_title n) (\<lambda>ts. Inr ([lit ''<a href=\"''] @ us @ ts @ [lit ''\">''])))
      else Inr [lit ''</a>''])"

definition render_image :: "html_renderer \<Rightarrow> nptr \<Rightarrow> cmark_node \<Rightarrow> bool \<Rightarrow> 32 word \<Rightarrow> rendered" where
  "render_image r p n entering options =
     (if entering
      then
        bindr (render_url n options) (\<lambda>us.
        Inr (r\<lparr>plain := Some p\<rparr>, [lit ''<img src=\"''] @ us @ [lit ''\" alt=\"'']))
      else bindr (render_title n) (\<lambda>ts. Inr (r, ts @ [lit ''\" />''])))"

definition render_footnote_definition :: "html_renderer \<Rightarrow> cmark_node \<Rightarrow> bool \<Rightarrow> rendered" where
  "render_footnote_definition r n entering =
     (if entering
      then
        bindr (literal_chunk n) (\<lambda>c.
        Inr (r\<lparr>footnote_ix := footnote_ix r + 1\<rparr>,
          (if footnote_ix r = 0
           then [Puts (str ''<section class=\"footnotes\" data-footnotes>'' @ [LF] @ str ''<ol>'' @ [LF])] else []) @
          [lit ''<li id=\"fn-'', href_chunk c, Puts (str ''\">'' @ [LF])]))
      else
        bindr (S_put_footnote_backref r n) (\<lambda>(written, r, es).
        Inr (r, es @ (if written then [Putc LF] else []) @ [Puts (str ''</li>'' @ [LF])])))"

definition render_footnote_reference :: "heap \<Rightarrow> cmark_node \<Rightarrow> bool \<Rightarrow> emit list res" where
  "render_footnote_reference h n entering =
     (if entering
      then
        bindr (deref_opt h (parent_footnote_def n)) (\<lambda>d.
        bindr (literal_chunk d) (\<lambda>dc.
        bindr (literal_chunk n) (\<lambda>c.
        Inr ([lit ''<sup class=\"footnote-ref\"><a href=\"#fn-'', href_chunk dc,
              lit ''\" id=\"fnref-'', href_chunk dc] @
             (if footnote n > 1 then [lit ''-'', Puts (decimal (footnote n))] else []) @
             [lit ''\" data-footnote-ref>'', href_chunk c, lit ''</a></sup>'']))))
      else Inr [])"

text \<open>The functions that leave the renderer as it is.\<close>

definition keep :: "html_renderer \<Rightarrow> emit list res \<Rightarrow> rendered" where
  "keep r m = bindr m (\<lambda>es. Inr (r, es))"

definition render_by_type ::
  "html_env \<Rightarrow> html_renderer \<Rightarrow> heap \<Rightarrow> nptr \<Rightarrow> cmark_node \<Rightarrow> bool \<Rightarrow> 32 word \<Rightarrow> rendered" where
  "render_by_type env r h p n entering options =
     (let t = n_type n in
      if t = CMARK_NODE_DOCUMENT then Inr (r, [])
      else if t = CMARK_NODE_BLOCK_QUOTE then Inr (r, render_block_quote n entering options)
      else if t = CMARK_NODE_LIST then keep r (render_list n entering options)
      else if t = CMARK_NODE_ITEM then Inr (r, render_item n entering options)
      else if t = CMARK_NODE_HEADING then keep r (render_heading n entering options)
      else if t = CMARK_NODE_CODE_BLOCK then keep r (render_code_block n options)
      else if t = CMARK_NODE_HTML_BLOCK then keep r (render_html_block env r n options)
      else if t = CMARK_NODE_CUSTOM_BLOCK then keep r (render_custom_block n entering)
      else if t = CMARK_NODE_THEMATIC_BREAK then Inr (r, render_thematic_break n options)
      else if t = CMARK_NODE_PARAGRAPH then render_paragraph r h p n entering options
      else if t = CMARK_NODE_TEXT then keep r (bindr (literal_chunk n) (\<lambda>c. Inr [esc_chunk c]))
      else if t = CMARK_NODE_LINEBREAK then Inr (r, [Puts (str ''<br />'' @ [LF])])
      else if t = CMARK_NODE_SOFTBREAK then Inr (r, render_softbreak options)
      else if t = CMARK_NODE_CODE
      then keep r (bindr (literal_chunk n) (\<lambda>c. Inr [lit ''<code>'', esc_chunk c, lit ''</code>'']))
      else if t = CMARK_NODE_HTML_INLINE then keep r (render_html_inline env r n options)
      else if t = CMARK_NODE_CUSTOM_INLINE then keep r (render_custom n entering)
      else if t = CMARK_NODE_STRONG then keep r (render_strong h n entering)
      else if t = CMARK_NODE_EMPH then Inr (r, [if entering then lit ''<em>'' else lit ''</em>''])
      else if t = CMARK_NODE_LINK then keep r (render_link n entering options)
      else if t = CMARK_NODE_IMAGE then render_image r p n entering options
      else if t = CMARK_NODE_ATTRIBUTE then Inr (r, [])
      else if t = CMARK_NODE_FOOTNOTE_DEFINITION then render_footnote_definition r n entering
      else if t = CMARK_NODE_FOOTNOTE_REFERENCE then keep r (render_footnote_reference h n entering)
      else Inl Assert_failed)"

definition S_render_node ::
  "html_env \<Rightarrow> html_renderer \<Rightarrow> heap \<Rightarrow> nptr \<Rightarrow> cmark_event_type \<Rightarrow> 32 word \<Rightarrow> rendered" where
  "S_render_node env r h p ev options =
     bindr (deref h p) (\<lambda>n.
     let entering = (ev = CMARK_EVENT_ENTER);
         r = (if plain r = Some p then r\<lparr>plain := None\<rparr> else r)
     in if plain r \<noteq> None then keep r (render_plain n)
        else
          case Option.bind (extension n) (html_render_func env) of
            Some f \<Rightarrow> f r h p ev options
          | None \<Rightarrow> render_by_type env r h p n entering options)"

section \<open>The tree\<close>

fun html_loop ::
  "nat \<Rightarrow> html_env \<Rightarrow> heap \<Rightarrow> 32 word \<Rightarrow> cmark_iter \<Rightarrow> html_renderer \<times> cmark_strbuf \<Rightarrow> (html_renderer \<times> cmark_strbuf) res" where
  "html_loop 0 env h options iter s = Inl Out_of_fuel"
| "html_loop (Suc fuel) env h options iter (r, html) =
     bindr (cmark_iter_next h iter) (\<lambda>(ev, iter).
     if ev = CMARK_EVENT_DONE then Inr (r, html)
     else
       case cmark_iter_get_node iter of
         None \<Rightarrow> Inl Null_deref
       | Some cur \<Rightarrow>
           bindr (S_render_node env r h cur ev options) (\<lambda>(r, es).
           bindr (each run_emit es html) (\<lambda>html.
           html_loop fuel env h options iter (r, html))))"

definition cmark_render_html_with_mem ::
  "nat \<Rightarrow> html_env \<Rightarrow> heap \<Rightarrow> nptr option \<Rightarrow> 32 word \<Rightarrow> eptr list \<Rightarrow> cmark_mem \<Rightarrow> byte list res" where
  "cmark_render_html_with_mem fuel env h root options extensions m =
     bindr (cmark_iter_new h root) (\<lambda>iter.
     let r = \<lparr>plain = None, filter_extensions = filter (\<lambda>e. html_filter_func env e \<noteq> None) extensions,
              footnote_ix = 0, written_footnote_ix = 0, html_opaque = None\<rparr>
     in case iter of
          None \<Rightarrow> Inl Null_deref
        | Some iter \<Rightarrow>
            bindr (html_loop fuel env h options iter (r, strbuf_empty m)) (\<lambda>(r, html).
            bindr (if footnote_ix r \<noteq> 0
                   then cmark_strbuf_puts html (str ''</ol>'' @ [LF] @ str ''</section>'' @ [LF, NUL])
                   else Inr html) (\<lambda>html.
            bindr (cmark_strbuf_detach html) (\<lambda>(result, _). Inr result))))"

definition cmark_render_html ::
  "nat \<Rightarrow> html_env \<Rightarrow> heap \<Rightarrow> nptr option \<Rightarrow> 32 word \<Rightarrow> eptr list \<Rightarrow> byte list res" where
  "cmark_render_html fuel env h root options extensions =
     bindr (deref_opt h root) (\<lambda>n.
     cmark_render_html_with_mem fuel env h root options extensions (mem (n_content n)))"

end
