(* ===== verification/Html_Tags.thy ===== *)
theory Html_Tags
  imports Html
begin

text \<open>
  What the calls of the HTML renderer write, and a scanner for the tags in it: the calls that are made
  on the output buffer append \<open>emits_out\<close>, and \<open>emit_tags\<close> computes what a scan of that output
  ends in without knowing the texts, URLs and numbers in it.
\<close>

section \<open>What the calls write\<close>

fun emit_bytes :: "emit \<Rightarrow> byte list \<Rightarrow> byte list" where
  "emit_bytes (Puts s) o' = s"
| "emit_bytes (Putc c) o' = [c]"
| "emit_bytes (Put_raw d n) o' = take (nat n) d"
| "emit_bytes (Escape d n) o' = html_escape False (take (nat n) d)"
| "emit_bytes (Href d n) o' = href_escape (take (nat n) d)"
| "emit_bytes Cr o' = (if o' = [] \<or> last o' = LF then [] else [LF])"

fun emit_ok :: "emit \<Rightarrow> bool" where
  "emit_ok (Puts s) \<longleftrightarrow> NUL \<notin> set s"
| "emit_ok (Put_raw d n) \<longleftrightarrow> 0 \<le> n \<and> n \<le> int (length d)"
| "emit_ok (Escape d n) \<longleftrightarrow> 0 \<le> n \<and> n \<le> int (length d)"
| "emit_ok (Href d n) \<longleftrightarrow> 0 \<le> n \<and> n \<le> int (length d)"
| "emit_ok _ \<longleftrightarrow> True"

definition emits_out :: "emit list \<Rightarrow> byte list \<Rightarrow> byte list" where
  "emits_out es o' = foldl (\<lambda>o' e. o' @ emit_bytes e o') o' es"

lemma emits_out_simps [simp]:
  "emits_out [] o' = o'"
  "emits_out (e # es) o' = emits_out es (o' @ emit_bytes e o')"
  "emits_out (es @ fs) o' = emits_out fs (emits_out es o')"
  by (simp_all add: emits_out_def)

lemma emits_out_prefix: "\<exists>t. emits_out es o' = o' @ t"
  by (induction es arbitrary: o') (simp, metis append.assoc emits_out_simps(2))

lemma emits_out_length: "length o' \<le> length (emits_out es o')"
  using emits_out_prefix [of es o'] by auto

lemma run_cr:
  assumes "strbuf_inv b"
  shows "cmark_html_render_cr b = (if contents b = [] \<or> last (contents b) = LF then Inr b else cmark_strbuf_putc b LF)"
proof (cases "bsize b = 0")
  case True
  then show ?thesis by (simp add: cmark_html_render_cr_def contents_def)
next
  case False
  have inv: "0 \<le> bsize b" "bsize b \<le> int (length (ptr b))" using assms by (auto simp: strbuf_inv_def split: if_splits)
  have ne: "contents b \<noteq> []" using False inv by (auto simp: contents_def)
  have "last (contents b) = ptr b ! nat (bsize b - 1)"
    unfolding last_conv_nth [OF ne] using False inv
    by (simp add: contents_def nat_diff_distrib min_absorb2 nat_le_iff)
  note c = ne this
  have "peek (ptr b) (bsize b - 1) = Inr (ptr b ! nat (bsize b - 1))" using inv False by (simp add: peek_def)
  then show ?thesis using False c by (simp add: cmark_html_render_cr_def)
qed

lemma app_cases:
  assumes "appends f bs" "strbuf_inv b"
  shows "case f b of
      Inr b' \<Rightarrow> strbuf_inv b' \<and> contents b' = contents b @ bs \<and> (strbuf_good b \<longrightarrow> strbuf_good b')
    | Inl x \<Rightarrow> x \<in> {Abort, Int_overflow} \<and> grow_limit < int (length (contents b) + length bs)"
  using assms unfolding appends_def appends_to_def by (cases "f b") (fastforce split: sum.splits)+

lemma run_emit_cases:
  assumes b: "strbuf_inv b" and e: "emit_ok e"
  shows "case run_emit e b of
      Inr b' \<Rightarrow> strbuf_inv b' \<and> contents b' = contents b @ emit_bytes e (contents b) \<and> (strbuf_good b \<longrightarrow> strbuf_good b')
    | Inl x \<Rightarrow> x \<in> {Abort, Int_overflow} \<and> grow_limit < int (length (contents b) + length (emit_bytes e (contents b)))"
proof (cases e)
  case (Puts s)
  then show ?thesis using app_cases [OF app_puts [of s] b] e by (simp add: run_emit_def split: sum.splits)
next
  case (Putc c)
  then show ?thesis using app_cases [OF app_putc b, of c] by (simp add: run_emit_def split: sum.splits)
next
  case (Put_raw d n)
  have "cmark_strbuf_put b d n = put_bytes b (take (nat n) d)" using Put_raw e
    by (auto simp: cmark_strbuf_put_def read_range_def)
  then show ?thesis using app_cases [OF app_put [of "take (nat n) d"] b] Put_raw by (simp add: run_emit_def split: sum.splits)
next
  case (Escape d n)
  then show ?thesis using app_cases [OF escape_html_appends [of n d False] b] e
    by (simp add: run_emit_def escape_html_def split: sum.splits)
next
  case (Href d n)
  then show ?thesis using app_cases [OF escape_href_appends [of n d] b] e by (simp add: run_emit_def split: sum.splits)
next
  case Cr
  then show ?thesis
    using app_cases [OF app_putc b, of LF] b
    by (cases "contents b = [] \<or> last (contents b) = LF") (auto simp add: run_emit_def run_cr split: sum.splits)
qed

text \<open>A call that writes nothing leaves the buffer alone.\<close>

lemma concat_map_Nil: "(\<And>c. f c \<noteq> []) \<Longrightarrow> concat (map f s) = [] \<longleftrightarrow> s = []"
  by (cases s) auto

lemma run_emit_none:
  assumes "emit_ok e" "emit_bytes e (contents b) = []" "strbuf_inv b"
  shows "run_emit e b = Inr b"
proof (cases e)
  case (Puts s)
  then show ?thesis using assms by (simp add: run_emit_def cmark_strbuf_puts_def strlen_i32_def strlen_def add_i32_def int32_def INT32_MIN_def INT32_MAX_def cmark_strbuf_put_def)
next
  case (Put_raw d n)
  then have "n = 0" using assms by auto
  then show ?thesis using Put_raw by (simp add: run_emit_def cmark_strbuf_put_def)
next
  case (Escape d n)
  have "html_enc False c \<noteq> []" for c by (simp add: html_enc_def)
  then have "n = 0" using Escape assms by (auto simp: html_escape_def concat_map_Nil)
  then show ?thesis using Escape by (simp add: run_emit_def escape_html_def houdini_escape_html0_def escape_html_loop.simps)
next
  case (Href d n)
  have "href_enc c \<noteq> []" for c by (simp add: href_enc_def)
  then have "n = 0" using Href assms by (auto simp: href_escape_def concat_map_Nil)
  then show ?thesis using Href by (simp add: run_emit_def houdini_escape_href_def escape_href_loop.simps)
next
  case Cr
  then show ?thesis using assms by (auto simp: run_emit_def run_cr split: if_splits)
qed (use assms in simp)

text \<open>The buffer of a renderer: it has no block of memory as long as nothing was written.\<close>

definition output_buf :: "cmark_mem \<Rightarrow> cmark_strbuf \<Rightarrow> bool" where
  "output_buf m b \<longleftrightarrow> strbuf_good b \<and> (contents b = [] \<longrightarrow> b = strbuf_empty m)"

text \<open>
  Writing ends with the bytes \<open>out\<close> in the buffer, or the program stops because they are more than a
  buffer can hold.
\<close>

definition writes :: "cmark_mem \<Rightarrow> byte list \<Rightarrow> cmark_strbuf res \<Rightarrow> bool" where
  "writes m out r \<longleftrightarrow>
     (case r of
        Inr b \<Rightarrow> output_buf m b \<and> contents b = out
      | Inl e \<Rightarrow> e \<in> {Abort, Int_overflow} \<and> grow_limit < int (length out))"

lemma writes_fault: "writes m out (Inl e) \<Longrightarrow> length out \<le> length out' \<Longrightarrow> writes m out' (Inl e)"
  by (auto simp: writes_def)

lemma writes_seq:
  assumes "writes m out r" "length out \<le> length out'" "\<And>b. output_buf m b \<Longrightarrow> contents b = out \<Longrightarrow> writes m out' (f b)"
  shows "writes m out' (bindr r f)"
  using assms by (cases r) (auto simp: writes_def)

lemma emit_writes:
  assumes b: "output_buf m b" and e: "emit_ok e"
  shows "writes m (contents b @ emit_bytes e (contents b)) (run_emit e b)"
proof -
  have inv: "strbuf_inv b" using b by (simp add: output_buf_def strbuf_good_def)
  show ?thesis
  proof (cases "run_emit e b")
    case (Inl x)
    then show ?thesis using run_emit_cases [OF inv e] by (simp add: writes_def)
  next
    case (Inr b')
    then have b': "contents b' = contents b @ emit_bytes e (contents b)" "strbuf_good b'"
      using run_emit_cases [OF inv e] b by (simp_all add: output_buf_def)
    have "b' = strbuf_empty m" if "contents b' = []"
    proof -
      have "emit_bytes e (contents b) = []" "contents b = []" using that b'(1) by auto
      then show ?thesis using run_emit_none [OF e _ inv] Inr b by (auto simp: output_buf_def)
    qed
    then show ?thesis using Inr b' by (auto simp: writes_def output_buf_def)
  qed
qed

lemma emits_writes:
  "output_buf m b \<Longrightarrow> list_all emit_ok es \<Longrightarrow> writes m (emits_out es (contents b)) (each run_emit es b)"
proof (induction es arbitrary: b)
  case (Cons e es)
  let ?o = "contents b @ emit_bytes e (contents b)"
  have "writes m ?o (run_emit e b)" using emit_writes [OF Cons.prems(1)] Cons.prems(2) by simp
  then have "writes m (emits_out es ?o) (bindr (run_emit e b) (each run_emit es))"
  proof (rule writes_seq)
    show "length ?o \<le> length (emits_out es ?o)" by (rule emits_out_length)
    fix b' assume "output_buf m b'" "contents b' = ?o"
    then show "writes m (emits_out es ?o) (each run_emit es b')" using Cons.IH [of b'] Cons.prems(2) by simp
  qed
  then show ?case by simp
qed (simp add: writes_def)

lemma output_buf_detach:
  assumes "output_buf m b"
  shows "\<exists>rest b'. cmark_strbuf_detach b = Inr (contents b @ NUL # rest, b')"
proof (cases "contents b = []")
  case True
  then show ?thesis using assms by (auto simp: output_buf_def cmark_strbuf_detach_def strbuf_empty_def)
next
  case False
  then have "bsize b \<noteq> 0" by (auto simp: contents_def)
  then have "strbuf_ok b" using assms by (auto simp: output_buf_def strbuf_good_def strbuf_ok_def)
  then show ?thesis using detach_contents [of b] False by auto
qed

section \<open>Tags\<close>

text \<open>
  A scanner for tags: it reads the output byte by byte and keeps the names of the open elements.
  \<open>Bad\<close> is reached by anything that is not plain text, a start tag, an end tag of the innermost open
  element, a void tag (that ends in a slash), a comment, a declaration or a processing instruction
  (all three end with the next closing bracket here): in particular by an angle bracket
  or an unbalanced quote inside a tag.
\<close>

datatype tmode =
    Text
  | Lt                          \<comment> \<open>behind \<open>&lt;\<close>\<close>
  | Name bool "byte list"       \<comment> \<open>in the name of an end tag, or of a start tag\<close>
  | Attrs "byte list" bool      \<comment> \<open>behind the name; the last byte was a slash\<close>
  | Quote "byte list"           \<comment> \<open>in an attribute value\<close>
  | Comment
  | Bad

abbreviation QUESTION :: byte where "QUESTION \<equiv> 0x3F"

definition name_byte :: "byte \<Rightarrow> bool" where
  "name_byte c \<longleftrightarrow> (0x61 \<le> c \<and> c \<le> 0x7A) \<or> (DIGIT0 \<le> c \<and> c \<le> 0x39) \<or> c = UNDERSCORE"

fun tag_step :: "tmode \<times> byte list list \<Rightarrow> byte \<Rightarrow> tmode \<times> byte list list" where
  "tag_step (Text, st) c = (if c = LESS_THAN then (Lt, st) else if c = GREATER_THAN then (Bad, st) else (Text, st))"
| "tag_step (Lt, st) c =
     (if c = SLASH then (Name True [], st) else if c = BANG \<or> c = QUESTION then (Comment, st)
      else if name_byte c then (Name False [c], st) else (Bad, st))"
| "tag_step (Name closing n, st) c =
     (if name_byte c then (Name closing (n @ [c]), st)
      else if c = GREATER_THAN
      then (if \<not> closing then (Text, n # st)
            else case st of [] \<Rightarrow> (Bad, st) | m # st' \<Rightarrow> if m = n then (Text, st') else (Bad, st))
      else if c = SPACE \<and> \<not> closing then (Attrs n False, st)
      else (Bad, st))"
| "tag_step (Attrs n slash, st) c =
     (if c = DQUOTE then (Quote n, st)
      else if c = GREATER_THAN then (Text, if slash then st else n # st)
      else if c = LESS_THAN then (Bad, st)
      else (Attrs n (c = SLASH), st))"
| "tag_step (Quote n, st) c =
     (if c = DQUOTE then (Attrs n False, st)
      else if c = LESS_THAN \<or> c = GREATER_THAN then (Bad, st) else (Quote n, st))"
| "tag_step (Comment, st) c = (if c = GREATER_THAN then (Text, st) else (Comment, st))"
| "tag_step (Bad, st) c = (Bad, st)"

abbreviation scan_tags :: "tmode \<times> byte list list \<Rightarrow> byte list \<Rightarrow> tmode \<times> byte list list" where
  "scan_tags \<equiv> foldl tag_step"

definition well_nested :: "byte list \<Rightarrow> bool" where
  "well_nested s \<longleftrightarrow> scan_tags (Text, []) s = (Text, [])"

definition emit_tag :: "emit \<Rightarrow> tmode \<times> byte list list \<Rightarrow> tmode \<times> byte list list" where
  "emit_tag e s =
     (case e of
        Cr \<Rightarrow> if fst s = Text then s else (Bad, snd s)
      | _ \<Rightarrow> scan_tags s (emit_bytes e []))"

definition emit_tags :: "emit list \<Rightarrow> tmode \<times> byte list list \<Rightarrow> tmode \<times> byte list list" where
  "emit_tags es s = foldl (\<lambda>s e. emit_tag e s) s es"

lemma emit_tags_simps [simp]:
  "emit_tags [] s = s"
  "emit_tags (e # es) s = emit_tags es (emit_tag e s)"
  "emit_tags (es @ fs) s = emit_tags fs (emit_tags es s)"
  by (simp_all add: emit_tags_def)

lemma scan_bad: "scan_tags (Bad, st) s = (Bad, st)"
  by (induction s) simp_all

lemma emit_tag_bad: "emit_tag e (Bad, st) = (Bad, st)"
  by (cases e) (simp_all add: emit_tag_def scan_bad)

lemma emit_tags_bad: "emit_tags es (Bad, st) = (Bad, st)"
  by (induction es) (simp_all add: emit_tag_bad)

lemma emit_tags_scan:
  assumes "emit_tags es (scan_tags s0 o') = (m, st)" "m \<noteq> Bad"
  shows "scan_tags s0 (emits_out es o') = (m, st)"
  using assms
proof (induction es arbitrary: o')
  case (Cons e es)
  let ?s = "scan_tags s0 o'"
  show ?case
  proof (cases e)
    case Cr
    have "fst ?s = Text"
    proof (rule ccontr)
      assume "fst ?s \<noteq> Text"
      then have "emit_tag e ?s = (Bad, snd ?s)" using Cr by (simp add: emit_tag_def)
      then show False using Cons.prems by (simp add: emit_tags_bad)
    qed
    then obtain st' where "?s = (Text, st')" by (cases ?s) auto
    then have "emit_tag e ?s = scan_tags s0 (o' @ emit_bytes e o')" using Cr by (simp add: emit_tag_def)
    then show ?thesis using Cons.IH [of "o' @ emit_bytes e o'"] Cons.prems by simp
  qed (use Cons.IH [of "o' @ emit_bytes e o'"] Cons.prems in \<open>simp add: emit_tag_def\<close>)+
qed simp

text \<open>Text without brackets, and text without brackets and quotes.\<close>

lemma scan_text: "{LESS_THAN, GREATER_THAN} \<inter> set s = {} \<Longrightarrow> scan_tags (Text, st) s = (Text, st)"
  by (induction s) auto

lemma scan_quote: "{DQUOTE, LESS_THAN, GREATER_THAN} \<inter> set s = {} \<Longrightarrow> scan_tags (Quote n, st) s = (Quote n, st)"
  by (induction s) auto

lemma href_escape_clean: "{DQUOTE, LESS_THAN, GREATER_THAN} \<inter> set (href_escape s) = {}"
  unfolding href_escape_def
proof (rule concat_map_avoids)
  fix c show "{DQUOTE, LESS_THAN, GREATER_THAN} \<inter> set (href_enc c) = {}"
    using href_clean(1) [of c] by (auto simp: list_all_iff url_byte_def)
qed

lemma digits_clean: "set (digits n) \<subseteq> {c. DIGIT0 \<le> c \<and> c \<le> 0x39}"
proof (induction n rule: digits.induct)
  case (1 n)
  have "n mod 10 < 10" by simp
  then have "DIGIT0 + of_nat (n mod 10) \<in> {c :: byte. DIGIT0 \<le> c \<and> c \<le> 0x39}"
    by (simp add: word_le_nat_alt unat_word_ariths unat_of_nat)
  then show ?case using 1 by (subst digits.simps) auto
qed

lemma decimal_clean: "{NUL, DQUOTE, LESS_THAN, GREATER_THAN, SLASH} \<inter> set (decimal i) = {}"
proof -
  have "c \<notin> {NUL, DQUOTE, LESS_THAN, GREATER_THAN, SLASH}" if "c \<in> set (digits n)" for c n
    using subsetD [OF digits_clean that] by (auto simp: word_le_nat_alt)
  then show ?thesis by (auto simp: decimal_def)
qed

text \<open>The effect of the calls that write data.\<close>

lemma tag_Escape [simp]:
  "emit_tag (Escape d n) (Text, st) = (Text, st)" "emit_tag (Escape d n) (Quote q, st) = (Quote q, st)"
  using escape_clean(1) [of False "take (nat n) d"] by (auto simp: emit_tag_def intro!: scan_text scan_quote)

lemma tag_Href [simp]:
  "emit_tag (Href d n) (Text, st) = (Text, st)" "emit_tag (Href d n) (Quote q, st) = (Quote q, st)"
  using href_escape_clean [of "take (nat n) d"] by (auto simp: emit_tag_def intro!: scan_text scan_quote)

lemma tag_esc_chunk [simp]:
  "emit_tag (esc_chunk c) (Text, st) = (Text, st)" "emit_tag (esc_chunk c) (Quote q, st) = (Quote q, st)"
  by (simp_all add: esc_chunk_def)

lemma tag_href_chunk [simp]:
  "emit_tag (href_chunk c) (Text, st) = (Text, st)" "emit_tag (href_chunk c) (Quote q, st) = (Quote q, st)"
  by (simp_all add: href_chunk_def)

lemma tag_decimal [simp]:
  "emit_tag (Puts (decimal i)) (Quote q, st) = (Quote q, st)" "emit_tag (Puts (decimal i)) (Text, st) = (Text, st)"
  "scan_tags (Quote q, st) (decimal i) = (Quote q, st)" "scan_tags (Text, st) (decimal i) = (Text, st)"
  using decimal_clean [of i] by (auto simp: emit_tag_def intro!: scan_text scan_quote)

lemma tag_Cr [simp]: "emit_tag Cr (Text, st) = (Text, st)"
  by (simp add: emit_tag_def)

lemma tag_sourcepos [simp]:
  "emit_tags (cmark_html_render_sourcepos n options) (Name False t, st) =
     (if opt options CMARK_OPT_SOURCEPOS then (Attrs t False, st) else (Name False t, st))"
  by (simp add: cmark_html_render_sourcepos_def emit_tag_def foldl_append name_byte_def)

lemma ok_sourcepos [simp]: "list_all emit_ok (cmark_html_render_sourcepos n options)"
  using decimal_clean by (auto simp: cmark_html_render_sourcepos_def)

end
