(* ===== verification/Render_Walk.thy ===== *)
theory Render_Walk
  imports Html_Tags
begin

text \<open>
  What the renderers have in common: a loop over the iterator that calls a function for every event.
  \<open>visit_all\<close> makes the same calls for a list of events; the locale \<open>event_renderer\<close> is the shape of the
  loop, and in it the loop is shown to append what \<open>visit_all\<close> says.
\<close>

fun visit_all ::
  "('s \<Rightarrow> cmark_event_type \<Rightarrow> nptr \<Rightarrow> ('s \<times> emit list) res) \<Rightarrow> 's \<Rightarrow> (bool \<times> nptr) list \<Rightarrow> ('s \<times> emit list) res" where
  "visit_all step s [] = Inr (s, [])"
| "visit_all step s (v # vs) =
     bindr (step s (fst (event_of v)) (snd v)) (\<lambda>(s, es).
     bindr (visit_all step s vs) (\<lambda>(s, fs). Inr (s, es @ fs)))"

lemma visit_all_append:
  assumes "visit_all step s vs = Inr (s1, es)" "visit_all step s1 ws = Inr (s2, fs)"
  shows "visit_all step s (vs @ ws) = Inr (s2, es @ fs)"
  using assms
proof (induction vs arbitrary: s es)
  case (Cons v vs)
  then obtain s' xs where s: "step s (fst (event_of v)) (snd v) = Inr (s', xs)"
    by (cases "step s (fst (event_of v)) (snd v)") auto
  with Cons.prems(1) obtain ys where ys: "visit_all step s' vs = Inr (s1, ys)" "es = xs @ ys"
    by (cases "visit_all step s' vs") auto
  show ?case using s ys Cons.IH [OF ys(1) Cons.prems(2)] by simp
qed simp

lemma event_of_sel: "event_of v = (ev, q) \<Longrightarrow> ev \<noteq> CMARK_EVENT_DONE \<and> q = Some (snd v) \<and> ev = fst (event_of v)"
  by (auto simp: event_of_def split: if_splits)

text \<open>
  A rendering returns \<open>out\<close> as a C string, or the program stops because \<open>out\<close> is more than a buffer
  can hold.
\<close>

definition renders :: "byte list \<Rightarrow> byte list res \<Rightarrow> bool" where
  "renders out r \<longleftrightarrow>
     (case r of
        Inr s \<Rightarrow> \<exists>rest. s = out @ NUL # rest
      | Inl e \<Rightarrow> e \<in> {Abort, Int_overflow} \<and> grow_limit < int (length out))"

lemma renders_small: "renders out r \<Longrightarrow> int (length out) \<le> grow_limit \<Longrightarrow> \<exists>rest. r = Inr (out @ NUL # rest)"
  by (cases r) (auto simp: renders_def)

lemma writes_renders:
  assumes "writes m o' r" "length o' \<le> length out"
    "\<And>b. output_buf m b \<Longrightarrow> contents b = o' \<Longrightarrow> renders out (f b)"
  shows "renders out (bindr r f)"
  using assms by (cases r) (auto simp: writes_def renders_def)

lemma detach_renders:
  assumes "output_buf m b" "contents b = out"
  shows "renders out (bindr (cmark_strbuf_detach b) (\<lambda>(result, _). Inr result))"
  using output_buf_detach [OF assms(1)] assms(2) by (auto simp: renders_def)

locale event_renderer =
  fixes h :: heap
    and step :: "'s \<Rightarrow> cmark_event_type \<Rightarrow> nptr \<Rightarrow> ('s \<times> emit list) res"
    and loop :: "nat \<Rightarrow> cmark_iter \<Rightarrow> 's \<times> cmark_strbuf \<Rightarrow> ('s \<times> cmark_strbuf) res"
  assumes loop_done: "cmark_iter_next h iter = Inr (CMARK_EVENT_DONE, it) \<Longrightarrow> loop (Suc fuel) iter (s, b) = Inr (s, b)"
    and loop_step: "cmark_iter_next h iter = Inr (ev, it) \<Longrightarrow> ev \<noteq> CMARK_EVENT_DONE \<Longrightarrow>
      cmark_iter_get_node it = Some p \<Longrightarrow> step s ev p = Inr (s', es) \<Longrightarrow> each run_emit es b = Inr b' \<Longrightarrow>
      loop (Suc fuel) iter (s, b) = loop fuel it (s', b')"
    and loop_fault: "cmark_iter_next h iter = Inr (ev, it) \<Longrightarrow> ev \<noteq> CMARK_EVENT_DONE \<Longrightarrow>
      cmark_iter_get_node it = Some p \<Longrightarrow> step s ev p = Inr (s', es) \<Longrightarrow> each run_emit es b = Inl x \<Longrightarrow>
      loop (Suc fuel) iter (s, b) = Inl x"
begin

lemma loop_visits:
  assumes "iter_events fuel h iter = Inr (map event_of vs)" "visit_all step s vs = Inr (s', es)"
    "output_buf m b" "list_all emit_ok es"
  shows "case loop fuel iter (s, b) of
      Inr (t, b') \<Rightarrow> t = s' \<and> writes m (emits_out es (contents b)) (Inr b')
    | Inl x \<Rightarrow> writes m (emits_out es (contents b)) (Inl x)"
  using assms
proof (induction fuel arbitrary: iter vs s es b)
  case (Suc fuel)
  obtain ev it where n: "cmark_iter_next h iter = Inr (ev, it)"
    using Suc.prems(1) by (cases "cmark_iter_next h iter") auto
  show ?case
  proof (cases "ev = CMARK_EVENT_DONE")
    case True
    then have "vs = []" using Suc.prems(1) n by simp
    then show ?thesis using Suc.prems n True loop_done by (auto simp: writes_def)
  next
    case False
    then obtain fs where fs: "iter_events fuel h it = Inr fs" "map event_of vs = (ev, cmark_iter_get_node it) # fs"
      using Suc.prems(1) n by (cases "iter_events fuel h it") auto
    then obtain v ws where v: "vs = v # ws" "event_of v = (ev, cmark_iter_get_node it)" "fs = map event_of ws"
      by auto
    have q: "cmark_iter_get_node it = Some (snd v)" "ev = fst (event_of v)" using event_of_sel [OF v(2)] by auto
    obtain s1 es1 where s1: "step s ev (snd v) = Inr (s1, es1)"
      using Suc.prems(2) v(1) q(2) by (cases "step s ev (snd v)") auto
    then obtain es2 where s2: "visit_all step s1 ws = Inr (s', es2)" "es = es1 @ es2"
      using Suc.prems(2) v(1) q(2) by (cases "visit_all step s1 ws") auto
    have ok: "list_all emit_ok es1" "list_all emit_ok es2" using Suc.prems(4) s2(2) by auto
    note w = emits_writes [OF Suc.prems(3) ok(1)]
    show ?thesis
    proof (cases "each run_emit es1 b")
      case (Inl x)
      then show ?thesis
        using loop_fault [OF n False q(1) s1 Inl, of fuel] w s2(2) emits_out_length [of "emits_out es1 (contents b)" es2]
        by (auto intro: writes_fault)
    next
      case (Inr b1)
      then have b1: "output_buf m b1" "contents b1 = emits_out es1 (contents b)" using w by (simp_all add: writes_def)
      have o: "emits_out es (contents b) = emits_out es2 (contents b1)" using b1(2) s2(2) by simp
      have "iter_events fuel h it = Inr (map event_of ws)" using fs(1) v(3) by simp
      from Suc.IH [OF this s2(1) b1(1) ok(2)] show ?thesis
        unfolding o loop_step [OF n False q(1) s1 Inr] .
    qed
  qed
qed simp

text \<open>What the caller of the loop does with the buffer at the end.\<close>

lemma loop_then:
  assumes "iter_events fuel h iter = Inr (map event_of vs)" "visit_all step s vs = Inr (s', es)"
    "output_buf m b" "list_all emit_ok es" "emits_out es (contents b) = o'" "length o' \<le> length out"
    "\<And>b'. output_buf m b' \<Longrightarrow> contents b' = o' \<Longrightarrow> renders out (f (s', b'))"
  shows "renders out (bindr (loop fuel iter (s, b)) f)"
  using loop_visits [OF assms(1-4)] assms(5-7)
  by (cases "loop fuel iter (s, b)") (auto simp: writes_def renders_def split: prod.splits)

end

definition quiet :: "emit list \<Rightarrow> byte list list \<Rightarrow> byte list list \<Rightarrow> bool" where
  "quiet es ns ms \<longleftrightarrow> list_all emit_ok es \<and> (\<forall>st. emit_tags es (Text, ns @ st) = (Text, ms @ st))"

lemma quiet_Nil [simp]: "quiet [] ns ms \<longleftrightarrow> ns = ms"
  by (simp add: quiet_def)

lemma quiet_append: "quiet es ns ms \<Longrightarrow> quiet fs ms ks \<Longrightarrow> quiet (es @ fs) ns ks"
  by (simp add: quiet_def)

lemma quiet_frame: "quiet es ns ms \<Longrightarrow> quiet es (ns @ st) (ms @ st)"
  by (simp add: quiet_def)

text \<open>Calls that keep the tags balanced write a well nested output.\<close>

lemma quiet_well_nested: "quiet es [] [] \<Longrightarrow> well_nested (emits_out es [])"
  using emit_tags_scan [of es "(Text, [])" "[]" Text "[]"] by (simp add: quiet_def well_nested_def)

end
