(* ===== verification/Html_Nesting.thy ===== *)
theory Html_Nesting
  imports Render_Walk Node_Samples
begin

text \<open>
  The output of the HTML renderer is well nested: what each node type contributes on entering and
  leaving, the trees by induction, the footnotes at the end, and the loop over the iterator, which
  makes the calls in the order of \<open>render_visits\<close>.  \<open>html_heap\<close> says which documents are meant.
\<close>

section \<open>Nodes that can be rendered\<close>

definition holds :: "'a res \<Rightarrow> ('a \<Rightarrow> bool) \<Rightarrow> bool" where
  "holds m P \<longleftrightarrow> (case m of Inl _ \<Rightarrow> False | Inr x \<Rightarrow> P x)"

definition good_chunk :: "chunk_member \<Rightarrow> cmark_node \<Rightarrow> bool" where
  "good_chunk m n \<longleftrightarrow> holds (get_chunk m (n_as n)) chunk_ok"

lemma holds_iff: "holds m P \<longleftrightarrow> (\<exists>x. m = Inr x \<and> P x)"
  by (cases m) (simp_all add: holds_def)

lemma good_chunk_iff: "good_chunk m n \<longleftrightarrow> (\<exists>c. get_chunk m (n_as n) = Inr c \<and> chunk_ok c)"
  by (simp add: good_chunk_def holds_iff)

text \<open>The scanner that looks for dangerous URLs reads the byte behind the chunk.\<close>

definition readable_behind :: "cmark_chunk \<Rightarrow> bool" where
  "readable_behind c \<longleftrightarrow> (case ch_data c of None \<Rightarrow> True | Some d \<Rightarrow> ch_len c < int (length d))"

definition html_types :: "node_type set" where
  "html_types =
     {CMARK_NODE_DOCUMENT, CMARK_NODE_BLOCK_QUOTE, CMARK_NODE_LIST, CMARK_NODE_ITEM, CMARK_NODE_CODE_BLOCK,
      CMARK_NODE_HTML_BLOCK, CMARK_NODE_PARAGRAPH, CMARK_NODE_HEADING, CMARK_NODE_THEMATIC_BREAK,
      CMARK_NODE_FOOTNOTE_DEFINITION, CMARK_NODE_TEXT, CMARK_NODE_SOFTBREAK, CMARK_NODE_LINEBREAK,
      CMARK_NODE_CODE, CMARK_NODE_HTML_INLINE, CMARK_NODE_EMPH, CMARK_NODE_STRONG, CMARK_NODE_LINK,
      CMARK_NODE_IMAGE, CMARK_NODE_FOOTNOTE_REFERENCE, CMARK_NODE_ATTRIBUTE}"

definition html_ready :: "html_env \<Rightarrow> heap \<Rightarrow> cmark_node \<Rightarrow> bool" where
  "html_ready env h n \<longleftrightarrow>
     (let t = n_type n in
      Option.bind (extension n) (html_render_func env) = None \<and> t \<in> html_types \<and>
      (t \<in> {CMARK_NODE_TEXT, CMARK_NODE_CODE, CMARK_NODE_HTML_INLINE, CMARK_NODE_FOOTNOTE_DEFINITION,
        CMARK_NODE_FOOTNOTE_REFERENCE} \<longrightarrow> good_chunk M_literal n) \<and>
      (t = CMARK_NODE_LIST \<longrightarrow> \<not> isl (as_list (n_as n))) \<and>
      (t = CMARK_NODE_HEADING \<longrightarrow> holds (as_heading (n_as n)) (\<lambda>hd. 1 \<le> level hd \<and> level hd \<le> 6)) \<and>
      (t = CMARK_NODE_CODE_BLOCK \<longrightarrow>
        holds (as_code (n_as n)) (\<lambda>code. chunk_ok (info code) \<and> chunk_ok (code_literal code))) \<and>
      (t \<in> {CMARK_NODE_LINK, CMARK_NODE_IMAGE} \<longrightarrow>
        good_chunk M_link_title n \<and>
        holds (get_chunk M_link_url (n_as n)) (\<lambda>u. chunk_ok u \<and> readable_behind u)) \<and>
      (t = CMARK_NODE_PARAGRAPH \<longrightarrow> n_parent n \<noteq> None) \<and>
      (t = CMARK_NODE_FOOTNOTE_REFERENCE \<longrightarrow>
        holds (deref_opt h (parent_footnote_def n)) (good_chunk M_literal)))"

lemma html_ready_iff:
  "html_ready env h n \<longleftrightarrow>
     (let t = n_type n in
      Option.bind (extension n) (html_render_func env) = None \<and> t \<in> html_types \<and>
      (t \<in> {CMARK_NODE_TEXT, CMARK_NODE_CODE, CMARK_NODE_HTML_INLINE, CMARK_NODE_FOOTNOTE_DEFINITION,
        CMARK_NODE_FOOTNOTE_REFERENCE} \<longrightarrow> good_chunk M_literal n) \<and>
      (t = CMARK_NODE_LIST \<longrightarrow> \<not> isl (as_list (n_as n))) \<and>
      (t = CMARK_NODE_HEADING \<longrightarrow> (\<exists>hd. as_heading (n_as n) = Inr hd \<and> 1 \<le> level hd \<and> level hd \<le> 6)) \<and>
      (t = CMARK_NODE_CODE_BLOCK \<longrightarrow>
        (\<exists>code. as_code (n_as n) = Inr code \<and> chunk_ok (info code) \<and> chunk_ok (code_literal code))) \<and>
      (t \<in> {CMARK_NODE_LINK, CMARK_NODE_IMAGE} \<longrightarrow>
        good_chunk M_link_title n \<and>
        (\<exists>u. get_chunk M_link_url (n_as n) = Inr u \<and> chunk_ok u \<and> readable_behind u)) \<and>
      (t = CMARK_NODE_PARAGRAPH \<longrightarrow> n_parent n \<noteq> None) \<and>
      (t = CMARK_NODE_FOOTNOTE_REFERENCE \<longrightarrow>
        (\<exists>d dn. parent_footnote_def n = Some d \<and> cell h d = Some dn \<and> good_chunk M_literal dn)))"
proof -
  have "(\<exists>d dn. parent_footnote_def n = Some d \<and> cell h d = Some dn \<and> good_chunk M_literal dn) \<longleftrightarrow>
      holds (deref_opt h (parent_footnote_def n)) (good_chunk M_literal)"
    by (auto simp: holds_iff deref_opt_def deref_def split: option.splits)
  then show ?thesis unfolding html_ready_def holds_iff Let_def by simp
qed

text \<open>A heap in which every node can be rendered.\<close>

definition html_heap :: "html_env \<Rightarrow> heap \<Rightarrow> bool" where
  "html_heap env h \<longleftrightarrow> (\<forall>p n. cell h p = Some n \<longrightarrow> html_ready env h n)"

lemma chunk_ok_data: "chunk_ok c \<Longrightarrow> 0 \<le> ch_len c \<and> ch_len c \<le> int (length (data_of c))"
  by (auto simp: chunk_ok_def data_of_def split: option.splits)

lemma ok_chunk [simp]:
  "chunk_ok c \<Longrightarrow> emit_ok (esc_chunk c)" "chunk_ok c \<Longrightarrow> emit_ok (href_chunk c)"
  by (simp_all add: esc_chunk_def href_chunk_def chunk_ok_data)

lemma tag_lit [simp]: "emit_tag (lit s) x = scan_tags x (str s)"
  by (simp add: lit_def emit_tag_def)

lemma tag_Puts [simp]: "emit_tag (Puts s) x = scan_tags x s"
  by (simp add: emit_tag_def)

lemma tag_Putc [simp]: "emit_tag (Putc c) x = tag_step x c"
  by (simp add: emit_tag_def)

lemma ok_lit [simp]: "emit_ok (lit s) \<longleftrightarrow> NUL \<notin> set (str s)"
  by (simp add: lit_def)

lemma ok_decimal [simp]: "NUL \<notin> set (decimal i)"
  using decimal_clean [of i] by auto

declare emit_ok.simps(2-4) [simp del]

lemma render_known:
  assumes "cell h p = Some n" "html_ready env h n" "plain r = None"
  shows "S_render_node env r h p ev options = render_by_type env r h p n (ev = CMARK_EVENT_ENTER) options"
  using assms by (simp add: S_render_node_def deref_heap html_ready_iff Let_def split del: if_split)

text \<open>The footnote back references are text and complete elements.\<close>

lemma more_backrefs_ok:
  assumes "chunk_ok c"
  shows "list_all emit_ok (more_backrefs c (decimal m) i)"
    "emit_tags (more_backrefs c (decimal m) i) (Text, st) = (Text, st)"
  using assms by (simp_all add: more_backrefs_def Let_def backref_arrow_def name_byte_def)

lemma concat_quiet:
  assumes "\<And>i. list_all emit_ok (f i) \<and> emit_tags (f i) s = s"
  shows "list_all emit_ok (concat (map f is)) \<and> emit_tags (concat (map f is)) s = s"
  using assms by (induction "is") auto

lemma backref_ok:
  assumes "good_chunk M_literal n"
  shows "\<exists>b r' es. S_put_footnote_backref r n = Inr (b, r', es) \<and> plain r' = plain r \<and>
    footnote_ix r' = footnote_ix r \<and> list_all emit_ok es \<and> (\<forall>st. emit_tags es (Text, st) = (Text, st))"
proof -
  obtain c where c: "literal_chunk n = Inr c" "chunk_ok c"
    using assms by (auto simp: good_chunk_iff literal_chunk_def)
  note more = concat_quiet [of "more_backrefs c (decimal m)" "(Text, st)" for m st,
      OF conjI [OF more_backrefs_ok [OF c(2)]]]
  show ?thesis
    using c more
    by (auto simp: S_put_footnote_backref_def Let_def backref_arrow_def name_byte_def)
qed

section \<open>What a node contributes\<close>

text \<open>
  \<open>opens h p ns\<close>: entering \<open>p\<close> opens the elements \<open>ns\<close>, and leaving it, in whatever state of the
  footnotes, closes them.
\<close>

definition leaves :: "html_env \<Rightarrow> heap \<Rightarrow> 32 word \<Rightarrow> nptr \<Rightarrow> byte list list \<Rightarrow> html_renderer \<Rightarrow> bool" where
  "leaves env h options p ns r \<longleftrightarrow>
     (\<exists>r' es. S_render_node env r h p CMARK_EVENT_EXIT options = Inr (r', es) \<and> plain r' = None \<and>
        footnote_ix r' = footnote_ix r \<and> quiet es ns [])"

definition opens :: "html_env \<Rightarrow> heap \<Rightarrow> 32 word \<Rightarrow> nptr \<Rightarrow> byte list list \<Rightarrow> html_renderer \<Rightarrow> bool" where
  "opens env h options p ns r \<longleftrightarrow>
     (\<exists>es. S_render_node env r h p CMARK_EVENT_ENTER options = Inr (r, es) \<and> quiet es [] ns)"

lemma scan_unsafe_url:
  assumes "chunk_ok u" "readable_behind u"
  shows "\<exists>k. scan_dangerous_url u 0 = Inr k"
proof (cases "ch_data u")
  case (Some d)
  then show ?thesis using assms chunk_ok_data [OF assms(1)]
    by (simp add: scan_dangerous_url_def scan_at_def readable_behind_def peek_def)
qed (simp add: scan_dangerous_url_def scan_at_def)

lemma url_title:
  assumes "html_ready env h n" "n_type n \<in> {CMARK_NODE_LINK, CMARK_NODE_IMAGE}"
  shows "\<exists>us. render_url n options = Inr us \<and> list_all emit_ok us \<and>
      (\<forall>q st. emit_tags us (Quote q, st) = (Quote q, st))"
    "\<exists>ts. render_title n = Inr ts \<and> list_all emit_ok ts \<and>
      (\<forall>q st. emit_tags ts (Quote q, st) = (Quote q, st))"
proof -
  obtain u t where u: "get_chunk M_link_url (n_as n) = Inr u" "chunk_ok u" "readable_behind u"
    and t: "get_chunk M_link_title (n_as n) = Inr t" "chunk_ok t"
  proof -
    have "good_chunk M_link_title n \<and> (\<exists>u. get_chunk M_link_url (n_as n) = Inr u \<and> chunk_ok u \<and> readable_behind u)"
      using assms unfolding html_ready_iff Let_def by blast
    then show ?thesis using that unfolding good_chunk_iff by blast
  qed
  obtain k where "scan_dangerous_url u 0 = Inr k" using scan_unsafe_url [OF u(2,3)] by blast
  then have r: "render_url n options = Inr (if opt options CMARK_OPT_UNSAFE \<or> k = 0 then [href_chunk u] else [])"
    using u(1) by (auto simp: render_url_def)
  show "\<exists>us. render_url n options = Inr us \<and> list_all emit_ok us \<and>
      (\<forall>q st. emit_tags us (Quote q, st) = (Quote q, st))"
    unfolding r using u(2) by (cases "opt options CMARK_OPT_UNSAFE \<or> k = 0") simp_all
  have r: "render_title n = Inr (if ch_len t \<noteq> 0 then [lit ''\" title=\"'', esc_chunk t] else [])"
    by (simp add: render_title_def t(1))
  show "\<exists>ts. render_title n = Inr ts \<and> list_all emit_ok ts \<and>
      (\<forall>q st. emit_tags ts (Quote q, st) = (Quote q, st))"
    unfolding r using t(2) by (cases "ch_len t = 0") simp_all
qed

lemma enter_leave_simple:
  assumes c: "cell h p = Some n" "html_ready env h n"
    and t: "n_type n \<in> {CMARK_NODE_DOCUMENT, CMARK_NODE_BLOCK_QUOTE, CMARK_NODE_ITEM, CMARK_NODE_EMPH, CMARK_NODE_ATTRIBUTE}"
  shows "\<exists>ns. \<forall>r. plain r = None \<longrightarrow> opens env h options p ns r \<and> leaves env h options p ns r"
proof -
  note R = render_known [OF c]
  consider "n_type n = CMARK_NODE_DOCUMENT \<or> n_type n = CMARK_NODE_ATTRIBUTE" | "n_type n = CMARK_NODE_BLOCK_QUOTE"
    | "n_type n = CMARK_NODE_ITEM" | "n_type n = CMARK_NODE_EMPH" using t by auto
  then show ?thesis
  proof cases
    case 1
    then show ?thesis
      by (intro exI [of _ "[]"]) (auto simp: opens_def leaves_def quiet_def R render_by_type_def Let_def)
  next
    case 2
    then show ?thesis
      by (intro exI [of _ "[str ''blockquote'']"])
        (simp add: opens_def leaves_def quiet_def R render_by_type_def Let_def render_block_quote_def name_byte_def)
  next
    case 3
    then show ?thesis
      by (intro exI [of _ "[str ''li'']"])
        (simp add: opens_def leaves_def quiet_def R render_by_type_def Let_def render_item_def name_byte_def)
  next
    case 4
    then show ?thesis
      by (intro exI [of _ "[str ''em'']"])
        (simp add: opens_def leaves_def quiet_def R render_by_type_def Let_def name_byte_def)
  qed
qed

lemma tag_sourcepos_attrs [simp]:
  "emit_tags (cmark_html_render_sourcepos n options) (Attrs t False, st) = (Attrs t False, st)"
  by (simp add: cmark_html_render_sourcepos_def emit_tag_def foldl_append)

lemma ready_simple:
  assumes "html_ready env h n"
  shows "n_type n \<in> html_types"
    "n_type n = CMARK_NODE_LIST \<Longrightarrow> \<exists>l. as_list (n_as n) = Inr l"
    "n_type n = CMARK_NODE_HEADING \<Longrightarrow> \<exists>hd. as_heading (n_as n) = Inr hd \<and> 1 \<le> level hd \<and> level hd \<le> 6"
    "n_type n = CMARK_NODE_CODE_BLOCK \<Longrightarrow> \<exists>code. as_code (n_as n) = Inr code \<and> chunk_ok (info code) \<and> chunk_ok (code_literal code)"
    "n_type n = CMARK_NODE_PARAGRAPH \<Longrightarrow> n_parent n \<noteq> None"
    "n_type n \<in> {CMARK_NODE_TEXT, CMARK_NODE_CODE, CMARK_NODE_HTML_INLINE, CMARK_NODE_FOOTNOTE_DEFINITION,
        CMARK_NODE_FOOTNOTE_REFERENCE} \<Longrightarrow> \<exists>c. literal_chunk n = Inr c \<and> chunk_ok c"
    "n_type n = CMARK_NODE_FOOTNOTE_REFERENCE \<Longrightarrow>
       \<exists>d dn dc. parent_footnote_def n = Some d \<and> deref h d = Inr dn \<and> literal_chunk dn = Inr dc \<and> chunk_ok dc"
proof -
  note A = assms [unfolded html_ready_iff Let_def]
  show "n_type n \<in> html_types" using A by blast
  show "\<exists>l. as_list (n_as n) = Inr l" if "n_type n = CMARK_NODE_LIST"
    using A that by (cases "as_list (n_as n)") simp_all
  show "\<exists>hd. as_heading (n_as n) = Inr hd \<and> 1 \<le> level hd \<and> level hd \<le> 6" if "n_type n = CMARK_NODE_HEADING"
    using A that by blast
  show "\<exists>code. as_code (n_as n) = Inr code \<and> chunk_ok (info code) \<and> chunk_ok (code_literal code)"
    if "n_type n = CMARK_NODE_CODE_BLOCK" using A that by blast
  show "n_parent n \<noteq> None" if "n_type n = CMARK_NODE_PARAGRAPH" using A that by blast
  show "\<exists>c. literal_chunk n = Inr c \<and> chunk_ok c"
    if "n_type n \<in> {CMARK_NODE_TEXT, CMARK_NODE_CODE, CMARK_NODE_HTML_INLINE, CMARK_NODE_FOOTNOTE_DEFINITION,
        CMARK_NODE_FOOTNOTE_REFERENCE}"
    using A that unfolding good_chunk_iff literal_chunk_def by blast
  show "\<exists>d dn dc. parent_footnote_def n = Some d \<and> deref h d = Inr dn \<and> literal_chunk dn = Inr dc \<and> chunk_ok dc"
    if "n_type n = CMARK_NODE_FOOTNOTE_REFERENCE"
  proof -
    note n = that
    obtain d dn where "parent_footnote_def n = Some d" "cell h d = Some dn" "good_chunk M_literal dn"
      using A n by blast
    then show ?thesis unfolding good_chunk_iff literal_chunk_def using deref_heap by blast
  qed
qed

lemma heading_digit:
  assumes "1 \<le> l" "l \<le> 6"
  shows "name_byte (word_of_int (0x30 + l))" "(word_of_int (0x30 + l) :: byte) \<noteq> NUL"
proof -
  have "l \<in> {1, 2, 3, 4, 5, 6}" using assms by auto
  then show "name_byte (word_of_int (0x30 + l))" "(word_of_int (0x30 + l) :: byte) \<noteq> NUL"
    by (auto simp: name_byte_def)
qed

lemma name_byte_neq: "name_byte c \<Longrightarrow> c \<noteq> LESS_THAN \<and> c \<noteq> GREATER_THAN \<and> c \<noteq> DQUOTE \<and> c \<noteq> SLASH \<and> c \<noteq> SPACE \<and> c \<noteq> BANG \<and> c \<noteq> QUESTION"
  by (auto simp: name_byte_def)

lemma enter_leave_list:
  assumes c: "cell h p = Some n" "html_ready env h n" and t: "n_type n = CMARK_NODE_LIST"
  shows "\<exists>ns. \<forall>r. plain r = None \<longrightarrow> opens env h options p ns r \<and> leaves env h options p ns r"
proof -
  note R = render_known [OF c]
  obtain l where l: "as_list (n_as n) = Inr l" using ready_simple(2) [OF c(2) t] by blast
  show ?thesis
  proof (cases "list_type l = CMARK_BULLET_LIST")
    case True
    then show ?thesis
      by (intro exI [of _ "[str ''ul'']"])
        (simp add: opens_def leaves_def quiet_def R render_by_type_def t render_list_def l keep_def name_byte_def)
  next
    case False
    then show ?thesis
      using decimal_clean [of "list_start l"]
      by (intro exI [of _ "[str ''ol'']"], cases "list_start l = 1")
        (simp_all add: opens_def leaves_def quiet_def R render_by_type_def t render_list_def l keep_def name_byte_def
          Let_def foldl_append)
  qed
qed

lemma enter_leave_heading:
  assumes c: "cell h p = Some n" "html_ready env h n" and t: "n_type n = CMARK_NODE_HEADING"
  shows "\<exists>ns. \<forall>r. plain r = None \<longrightarrow> opens env h options p ns r \<and> leaves env h options p ns r"
proof -
  note R = render_known [OF c]
  obtain l where l: "as_heading (n_as n) = Inr l" "1 \<le> level l" "level l \<le> 6" using ready_simple(3) [OF c(2) t] by blast
  note d = heading_digit [OF l(2,3)]
  note e = name_byte_neq [OF d(1)]
  have h: "name_byte 0x68" "\<not> name_byte GREATER_THAN" "\<not> name_byte SPACE" "\<not> name_byte SLASH" by (simp_all add: name_byte_def)
  show ?thesis
    using d e h
    by (intro exI [of _ "[str ''h'' @ [word_of_int (0x30 + level l)]]"])
      (simp add: opens_def leaves_def quiet_def R render_by_type_def t render_heading_def l keep_def)
qed

lemma enter_leave_strong:
  assumes "links h kids" and c: "cell h p = Some n" "html_ready env h n" and t: "n_type n = CMARK_NODE_STRONG"
  shows "\<exists>ns. \<forall>r. plain r = None \<longrightarrow> opens env h options p ns r \<and> leaves env h options p ns r"
proof -
  note R = render_known [OF c]
  have "\<exists>b. (case n_parent n of None \<Rightarrow> Inr True
            | Some q \<Rightarrow> bindr (deref h q) (\<lambda>pn. Inr (n_type pn \<noteq> CMARK_NODE_STRONG))) = Inr b"
  proof (cases "n_parent n")
    case (Some q)
    then have "live (view h) p" "pa (view h) p = Some q" using c by (auto simp: view_def)
    then have "live (view h) q" using links_live [OF assms(1)] by blast
    then show ?thesis using Some by (auto simp add: node_live)
  qed auto
  then obtain b where b: "(case n_parent n of None \<Rightarrow> Inr True
            | Some q \<Rightarrow> bindr (deref h q) (\<lambda>pn. Inr (n_type pn \<noteq> CMARK_NODE_STRONG))) = Inr b" by blast
  show ?thesis
    by (intro exI [of _ "if b then [str ''strong''] else []"])
      (cases b; simp add: opens_def leaves_def quiet_def R render_by_type_def t render_strong_def b keep_def name_byte_def)
qed

lemma enter_leave_link:
  assumes c: "cell h p = Some n" "html_ready env h n" and t: "n_type n = CMARK_NODE_LINK"
  shows "\<exists>ns. \<forall>r. plain r = None \<longrightarrow> opens env h options p ns r \<and> leaves env h options p ns r"
proof -
  note R = render_known [OF c]
  obtain us ts where u: "render_url n options = Inr us" "list_all emit_ok us" "\<And>q st. emit_tags us (Quote q, st) = (Quote q, st)"
    and v: "render_title n = Inr ts" "list_all emit_ok ts" "\<And>q st. emit_tags ts (Quote q, st) = (Quote q, st)"
    using url_title(1) [OF c(2), of options] url_title(2) [OF c(2)] t by auto
  show ?thesis
    by (intro exI [of _ "[str ''a'']"])
      (simp add: opens_def leaves_def quiet_def R render_by_type_def t render_link_def u v keep_def name_byte_def)
qed

lemma enter_leave_reference:
  assumes c: "cell h p = Some n" "html_ready env h n" and t: "n_type n = CMARK_NODE_FOOTNOTE_REFERENCE"
  shows "\<exists>ns. \<forall>r. plain r = None \<longrightarrow> opens env h options p ns r \<and> leaves env h options p ns r"
proof -
  note R = render_known [OF c]
  obtain d dn dc where d: "parent_footnote_def n = Some d" "deref h d = Inr dn" "literal_chunk dn = Inr dc" "chunk_ok dc"
    using ready_simple(7) [OF c(2) t] by blast
  obtain lc where l: "literal_chunk n = Inr lc" "chunk_ok lc" using ready_simple(6) [OF c(2)] t by auto
  show ?thesis
    by (intro exI [of _ "[]"])
      (simp add: opens_def leaves_def quiet_def R render_by_type_def t render_footnote_reference_def d l keep_def
        deref_opt_def name_byte_def)
qed

lemma parent_chain:
  assumes "links h kids" "cell h p = Some n" "n_parent n = Some q"
  shows "\<exists>qn. cell h q = Some qn"
proof -
  have "live (view h) p" "pa (view h) p = Some q" using assms by (auto simp: view_def)
  then have "live (view h) q" using links_live [OF assms(1)] by blast
  then show ?thesis by (auto simp: view_def)
qed

lemma html_ready_heap: "html_heap env h \<Longrightarrow> cell h p = Some n \<Longrightarrow> html_ready env h n"
  by (simp add: html_heap_def)

lemma enter_leave_paragraph:
  assumes ln: "links h kids" and hh: "html_heap env h" and c: "cell h p = Some n" and t: "n_type n = CMARK_NODE_PARAGRAPH"
  shows "\<exists>ns. \<forall>r. plain r = None \<longrightarrow> opens env h options p ns r \<and> leaves env h options p ns r"
proof -
  note rd = html_ready_heap [OF hh]
  note R = render_known [OF c rd [OF c]]
  obtain q qn where q: "n_parent n = Some q" "cell h q = Some qn"
    using ready_simple(5) [OF rd [OF c] t] parent_chain [OF ln c] by (cases "n_parent n") auto
  have tight: "\<exists>b. (case n_parent qn of None \<Rightarrow> Inr False
            | Some g \<Rightarrow> bindr (deref h g) (\<lambda>gn.
                if n_type gn = CMARK_NODE_LIST then bindr (as_list (n_as gn)) (\<lambda>l. Inr (tight l)) else Inr False)) = Inr b"
  proof (cases "n_parent qn")
    case (Some g)
    then obtain gn where g: "cell h g = Some gn" using parent_chain [OF ln q(2)] by blast
    show ?thesis
    proof (cases "n_type gn = CMARK_NODE_LIST")
      case True
      then obtain l where "as_list (n_as gn) = Inr l" using ready_simple(2) [OF rd [OF g]] by blast
      then show ?thesis using True Some g by (auto simp: deref_heap)
    qed (use Some g in \<open>auto simp: deref_heap\<close>)
  qed auto
  then obtain b where b: "(case n_parent qn of None \<Rightarrow> Inr False
            | Some g \<Rightarrow> bindr (deref h g) (\<lambda>gn.
                if n_type gn = CMARK_NODE_LIST then bindr (as_list (n_as gn)) (\<lambda>l. Inr (tight l)) else Inr False)) = Inr b" by blast
  have para: "S_render_node env r h p ev options =
      (if b then Inr (r, [])
       else if ev = CMARK_EVENT_ENTER
       then Inr (r, [Cr, lit ''<p''] @ cmark_html_render_sourcepos n options @ [Putc GREATER_THAN])
       else
         bindr (if n_type qn = CMARK_NODE_FOOTNOTE_DEFINITION \<and> n_next n = None
              then bindr (S_put_footnote_backref r qn) (\<lambda>(_, r, es). Inr (r, Putc SPACE # es))
              else Inr (r, [])) (\<lambda>(r, es).
       Inr (r, es @ [Puts (str ''</p>'' @ [LF])])))" if "plain r = None" for r :: html_renderer and ev
    using q b c unfolding R [OF that] render_by_type_def render_paragraph_def t
    by (simp add: cmark_node_parent_def on_node_def deref_heap deref_opt_def)
  show ?thesis
  proof (intro exI [of _ "if b then [] else [str ''p'']"] allI impI conjI)
    fix r :: html_renderer assume r: "plain r = None"
    show "opens env h options p (if b then [] else [str ''p'']) r"
      by (cases b) (simp_all add: opens_def quiet_def para [OF r] name_byte_def)
    show "leaves env h options p (if b then [] else [str ''p'']) r"
    proof (cases "\<not> b \<and> n_type qn = CMARK_NODE_FOOTNOTE_DEFINITION \<and> n_next n = None")
      case True
      have "good_chunk M_literal qn" using rd [OF q(2)] True unfolding html_ready_iff Let_def by blast
      then obtain w r' es where "S_put_footnote_backref r qn = Inr (w, r', es)" "plain r' = plain r"
        "footnote_ix r' = footnote_ix r" "list_all emit_ok es" "\<forall>st. emit_tags es (Text, st) = (Text, st)"
        using backref_ok [of qn r] by blast
      then show ?thesis using True r by (simp add: leaves_def quiet_def para [OF r] name_byte_def)
    next
      case False
      then show ?thesis using r by (cases b) (auto simp add: leaves_def quiet_def para [OF r] name_byte_def)
    qed
  qed
qed

lemma enter_leave:
  assumes ln: "links h kids" and hh: "html_heap env h" and c: "cell h p = Some n"
    and t: "\<not> leaf_type (n_type n)" "n_type n \<noteq> CMARK_NODE_IMAGE" "n_type n \<noteq> CMARK_NODE_FOOTNOTE_DEFINITION"
  shows "\<exists>ns. \<forall>r. plain r = None \<longrightarrow> opens env h options p ns r \<and> leaves env h options p ns r"
proof -
  note rd = html_ready_heap [OF hh c]
  have "n_type n \<in> html_types" using ready_simple(1) [OF rd] .
  then consider "n_type n \<in> {CMARK_NODE_DOCUMENT, CMARK_NODE_BLOCK_QUOTE, CMARK_NODE_ITEM, CMARK_NODE_EMPH, CMARK_NODE_ATTRIBUTE}"
    | "n_type n = CMARK_NODE_LIST" | "n_type n = CMARK_NODE_HEADING" | "n_type n = CMARK_NODE_STRONG"
    | "n_type n = CMARK_NODE_LINK" | "n_type n = CMARK_NODE_FOOTNOTE_REFERENCE" | "n_type n = CMARK_NODE_PARAGRAPH"
    using t unfolding html_types_def leaf_type_def by auto
  then show ?thesis
  proof cases
    case 1 then show ?thesis using enter_leave_simple [OF c rd] by blast
  next
    case 2 then show ?thesis using enter_leave_list [OF c rd] by blast
  next
    case 3 then show ?thesis using enter_leave_heading [OF c rd] by blast
  next
    case 4 then show ?thesis using enter_leave_strong [OF ln c rd] by blast
  next
    case 5 then show ?thesis using enter_leave_link [OF c rd] by blast
  next
    case 6 then show ?thesis using enter_leave_reference [OF c rd] by blast
  next
    case 7 then show ?thesis using enter_leave_paragraph [OF ln hh c] by blast
  qed
qed

lemma first_tag_range:
  assumes "0 \<le> len" "len \<le> int (length data)"
  shows "\<exists>k. scan_while P data 0 len = Inr k \<and> 0 \<le> k \<and> k \<le> len"
proof -
  have len: "len = int (length (take (nat len) data))" using assms by simp
  have "scan_while P ([] @ take (nat len) data @ drop (nat len) data) (int (length ([] :: byte list)))
      (int (length ([] :: byte list) + length (take (nat len) data))) =
    Inr (int (length ([] :: byte list) + length (takeWhile P (take (nat len) data))))"
    by (rule scan_while_eq)
  then have "scan_while P data 0 len = Inr (int (length (takeWhile P (take (nat len) data))))"
    using len by simp
  moreover have "length (takeWhile P (take (nat len) data)) \<le> nat len"
    using length_takeWhile_le [of P "take (nat len) data"] by simp
  ultimately show ?thesis using assms by auto
qed

lemma enter_code_block:
  assumes c: "cell h p = Some n" "html_ready env h n" and t: "n_type n = CMARK_NODE_CODE_BLOCK" and r: "plain r = None"
  shows "opens env h options p [] r"
proof -
  note R = render_known [OF c r]
  obtain cb where cb: "as_code (n_as n) = Inr cb" "chunk_ok (info cb)" "chunk_ok (code_literal cb)"
    using ready_simple(4) [OF c(2) t] by blast
  note d = chunk_ok_data [OF cb(2)]
  obtain k where k: "scan_while (\<lambda>c. \<not> cmark_isspace c) (data_of (info cb)) 0 (ch_len (info cb)) = Inr k"
    "0 \<le> k" "k \<le> ch_len (info cb)"
    using first_tag_range d by metis
  have meta: "list_all emit_ok (code_meta (data_of (info cb)) k (ch_len (info cb)) options)"
    "\<And>q st. emit_tags (code_meta (data_of (info cb)) k (ch_len (info cb)) options) (Quote q, st) = (Quote q, st)"
    using d k by (auto simp: code_meta_def name_byte_def emit_ok.simps)
  have e: "emit_ok (Escape (data_of (info cb)) k)" using d k by (simp add: emit_ok.simps)
  show ?thesis
    using e meta cb
    by (simp add: opens_def quiet_def R render_by_type_def t render_code_block_def cb k keep_def Let_def name_byte_def)
qed

lemma enter_leaf:
  assumes c: "cell h p = Some n" "html_ready env h n" and t: "leaf_type (n_type n)" and r: "plain r = None"
    and o: "\<not> opt options CMARK_OPT_UNSAFE"
  shows "opens env h options p [] r"
proof -
  note R = render_known [OF c r]
  have l: "n_type n \<in> {CMARK_NODE_TEXT, CMARK_NODE_CODE} \<Longrightarrow> \<exists>c. literal_chunk n = Inr c \<and> chunk_ok c"
    using ready_simple(6) [OF c(2)] by auto
  consider "n_type n = CMARK_NODE_HTML_BLOCK" | "n_type n = CMARK_NODE_THEMATIC_BREAK" | "n_type n = CMARK_NODE_CODE_BLOCK"
    | "n_type n = CMARK_NODE_TEXT" | "n_type n = CMARK_NODE_SOFTBREAK" | "n_type n = CMARK_NODE_LINEBREAK"
    | "n_type n = CMARK_NODE_CODE" | "n_type n = CMARK_NODE_HTML_INLINE"
    using t unfolding leaf_type_def by auto
  then show ?thesis
  proof cases
    case 3
    then show ?thesis using enter_code_block [OF c _ r] by blast
  next
    case 4
    then obtain ch where "literal_chunk n = Inr ch" "chunk_ok ch" using l by auto
    then show ?thesis using 4 by (simp add: opens_def quiet_def R render_by_type_def keep_def)
  next
    case 7
    then obtain ch where "literal_chunk n = Inr ch" "chunk_ok ch" using l by auto
    then show ?thesis using 7 by (simp add: opens_def quiet_def R render_by_type_def keep_def name_byte_def)
  next
    case 1
    then show ?thesis using o by (simp add: opens_def quiet_def R render_by_type_def keep_def name_byte_def render_html_block_def)
  next
    case 2
    then show ?thesis by (simp add: opens_def quiet_def R render_by_type_def keep_def name_byte_def render_thematic_break_def)
  next
    case 5
    then show ?thesis by (simp add: opens_def quiet_def R render_by_type_def keep_def name_byte_def render_softbreak_def)
  next
    case 6
    then show ?thesis by (simp add: opens_def quiet_def R render_by_type_def keep_def name_byte_def)
  next
    case 8
    then show ?thesis using o by (simp add: opens_def quiet_def R render_by_type_def keep_def name_byte_def render_html_inline_def)
  qed
qed

section \<open>Rendering a tree\<close>

text \<open>The calls that are made for a sequence of events.\<close>

abbreviation render_visits :: "html_env \<Rightarrow> heap \<Rightarrow> 32 word \<Rightarrow> html_renderer \<Rightarrow> (bool \<times> nptr) list \<Rightarrow> rendered" where
  "render_visits env h options \<equiv> visit_all (\<lambda>r ev p. S_render_node env r h p ev options)"

interpretation html: event_renderer h "\<lambda>r ev p. S_render_node env r h p ev options"
  "\<lambda>fuel. html_loop fuel env h options" for env h options
  by unfold_locales auto

text \<open>From the open elements \<open>ns\<close> to the open elements \<open>ms\<close>, with \<open>k\<close> more footnotes.\<close>

definition balanced :: "html_env \<Rightarrow> heap \<Rightarrow> 32 word \<Rightarrow> html_renderer \<Rightarrow> (bool \<times> nptr) list \<Rightarrow>
    byte list list \<Rightarrow> byte list list \<Rightarrow> 32 word \<Rightarrow> bool" where
  "balanced env h options r vs ns ms k \<longleftrightarrow>
     (\<exists>r' es. render_visits env h options r vs = Inr (r', es) \<and> plain r' = None \<and>
        footnote_ix r' = footnote_ix r + k \<and> quiet es ns ms)"

lemma balanced_append:
  assumes "balanced env h options r vs ns ms k"
    "\<And>r'. plain r' = None \<Longrightarrow> footnote_ix r' = footnote_ix r + k \<Longrightarrow> balanced env h options r' ws ms ls l"
  shows "balanced env h options r (vs @ ws) ns ls (k + l)"
proof -
  obtain r' es where a: "render_visits env h options r vs = Inr (r', es)" "plain r' = None"
    "footnote_ix r' = footnote_ix r + k" "quiet es ns ms" using assms(1) by (auto simp: balanced_def)
  obtain r2 fs where b: "render_visits env h options r' ws = Inr (r2, fs)" "plain r2 = None"
    "footnote_ix r2 = footnote_ix r' + l" "quiet fs ms ls" using assms(2) [OF a(2,3)] by (auto simp: balanced_def)
  show ?thesis
    using visit_all_append [OF a(1) b(1)] a(3) b(2,3) quiet_append [OF a(4) b(4)]
    by (auto simp: balanced_def add.assoc)
qed

lemma balanced_frame:
  assumes "balanced env h options r vs ns ms k"
  shows "balanced env h options r vs (ns @ st) (ms @ st) k"
  using assms by (auto simp: balanced_def quiet_def)

lemma opens_balanced:
  "opens env h options p ns r \<Longrightarrow> plain r = None \<Longrightarrow> balanced env h options r [(True, p)] [] ns 0"
  by (auto simp: opens_def balanced_def event_of_def)

lemma leaves_balanced:
  "leaves env h options p ns r \<Longrightarrow> balanced env h options r [(False, p)] ns [] 0"
  by (auto simp: leaves_def balanced_def event_of_def)

text \<open>The description of an image.\<close>

lemma plain_ok:
  assumes "cell h q = Some n" "html_ready env h n" "plain r = Some p" "q \<noteq> p"
  shows "\<exists>es. S_render_node env r h q ev options = Inr (r, es) \<and> list_all emit_ok es \<and>
    (\<forall>t st. emit_tags es (Quote t, st) = (Quote t, st))"
proof -
  have s: "S_render_node env r h q ev options = keep r (render_plain n)"
    using assms by (simp add: S_render_node_def deref_heap Let_def)
  show ?thesis
  proof (cases "n_type n \<in> {CMARK_NODE_TEXT, CMARK_NODE_CODE, CMARK_NODE_HTML_INLINE}")
    case True
    then obtain c where "literal_chunk n = Inr c" "chunk_ok c" using ready_simple(6) [OF assms(2)] by auto
    then show ?thesis unfolding s using True by (simp add: render_plain_def keep_def)
  next
    case False
    then show ?thesis unfolding s
      by (cases "n_type n \<in> {CMARK_NODE_LINEBREAK, CMARK_NODE_SOFTBREAK}")
        (auto simp add: render_plain_def keep_def)
  qed
qed

lemma plain_visits:
  assumes "html_heap env h" "plain r = Some p" "\<And>b q. (b, q) \<in> set vs \<Longrightarrow> q \<noteq> p \<and> live (view h) q"
  shows "\<exists>es. render_visits env h options r vs = Inr (r, es) \<and> list_all emit_ok es \<and>
    (\<forall>t st. emit_tags es (Quote t, st) = (Quote t, st))"
  using assms(3)
proof (induction vs)
  case (Cons v vs)
  obtain b q where v: "v = (b, q)" by (cases v)
  have q: "q \<noteq> p" "live (view h) q" using Cons.prems [of b q] v by auto
  obtain n where n: "cell h q = Some n" using node_live(7) [OF q(2)] by blast
  obtain es where "S_render_node env r h q (fst (event_of v)) options = Inr (r, es)" "list_all emit_ok es"
    "\<forall>t st. emit_tags es (Quote t, st) = (Quote t, st)"
    using plain_ok [OF n html_ready_heap [OF assms(1) n] assms(2) q(1)] by blast
  moreover obtain fs where "render_visits env h options r vs = Inr (r, fs)" "list_all emit_ok fs"
    "\<forall>t st. emit_tags fs (Quote t, st) = (Quote t, st)" using Cons by fastforce
  ultimately show ?case using v by simp
qed simp

lemma image_balanced:
  assumes hh: "html_heap env h" and c: "cell h p = Some n" and t: "n_type n = CMARK_NODE_IMAGE" and r: "plain r = None"
    and vs: "\<And>b q. (b, q) \<in> set vs \<Longrightarrow> q \<noteq> p \<and> live (view h) q"
  shows "balanced env h options r ((True, p) # vs @ [(False, p)]) [] [] 0"
proof -
  note rd = html_ready_heap [OF hh c]
  obtain us ts where u: "render_url n options = Inr us" "list_all emit_ok us" "\<And>q st. emit_tags us (Quote q, st) = (Quote q, st)"
    and v: "render_title n = Inr ts" "list_all emit_ok ts" "\<And>q st. emit_tags ts (Quote q, st) = (Quote q, st)"
    using url_title(1) [OF rd, of options] url_title(2) [OF rd] t by auto
  let ?r = "r\<lparr>plain := Some p\<rparr>"
  obtain es where es: "render_visits env h options ?r vs = Inr (?r, es)" "list_all emit_ok es"
    "\<And>t st. emit_tags es (Quote t, st) = (Quote t, st)"
    using plain_visits [OF hh, of ?r p vs options] vs by auto
  have i: "S_render_node env r h p CMARK_EVENT_ENTER options =
      Inr (?r, [lit ''<img src=\"''] @ us @ [lit ''\" alt=\"''])"
    unfolding render_known [OF c rd r] by (simp add: render_by_type_def t render_image_def u)
  have "S_render_node env ?r h p CMARK_EVENT_EXIT options = S_render_node env r h p CMARK_EVENT_EXIT options"
  proof -
    have same: "r\<lparr>plain := None\<rparr> = r" using r by (cases r) simp
    show ?thesis using c r by (simp add: S_render_node_def deref_heap Let_def same)
  qed
  also have "\<dots> = Inr (r, ts @ [lit ''\" />''])"
    unfolding render_known [OF c rd r] by (simp add: render_by_type_def t render_image_def v)
  finally have o: "S_render_node env ?r h p CMARK_EVENT_EXIT options = Inr (r, ts @ [lit ''\" />''])" .
  have one: "render_visits env h options ?r [(False, p)] = Inr (r, ts @ [lit ''\" />''])"
    using o by (simp add: event_of_def)
  have tail: "render_visits env h options ?r (vs @ [(False, p)]) = Inr (r, es @ ts @ [lit ''\" />''])"
    using visit_all_append [OF es(1) one] by simp
  show ?thesis
    using i tail r u(2,3) v(2,3) es(2,3)
    by (simp add: balanced_def event_of_def quiet_def name_byte_def)
qed

definition is_footnote :: "heap \<Rightarrow> nptr \<Rightarrow> bool" where
  "is_footnote h p \<longleftrightarrow> n_type (the_node h p) = CMARK_NODE_FOOTNOTE_DEFINITION"

lemma concat_balanced:
  assumes "\<And>t r. t \<in> set ts \<Longrightarrow> plain r = None \<Longrightarrow> balanced env h options r (f t) [] [] 0" "plain r = None"
  shows "balanced env h options r (concat (map f ts)) [] [] 0"
  using assms
proof (induction ts arbitrary: r)
  case (Cons t ts)
  have "balanced env h options r (f t @ concat (map f ts)) [] [] (0 + 0)"
    using Cons by (intro balanced_append) auto
  then show ?case by simp
qed (simp add: balanced_def)

lemma tree_balanced:
  assumes ln: "links h kids" and hh: "html_heap env h" and o: "\<not> opt options CMARK_OPT_UNSAFE"
  shows "tree_at kids t \<Longrightarrow> live (view h) (ntree_root t) \<Longrightarrow> distinct (preorder t) \<Longrightarrow>
    \<forall>q \<in> set (preorder t). \<not> is_footnote h q \<Longrightarrow> plain r = None \<Longrightarrow>
    balanced env h options r (visits (node_leaf h) t) [] [] 0"
proof (induction t arbitrary: r)
  case (NTree p ts)
  have p: "live (view h) p" using NTree.prems(2) by simp
  have live: "live (view h) q" if "q \<in> set (preorder (NTree p ts))" for q
    using tree_at_live [OF ln NTree.prems(1) NTree.prems(2) that] .
  have c: "cell h p = Some (the_node h p)" using node_live(7) [OF p] .
  note rd = html_ready_heap [OF hh c]
  let ?vs = "concat (map (visits (node_leaf h)) ts)"
  have kids: "balanced env h options r ?vs [] [] 0" if "plain r = None" for r
  proof (rule concat_balanced [OF _ that])
    fix t r assume t: "t \<in> set ts" "plain (r :: html_renderer) = None"
    then have "ntree_root t \<in> set (preorder (NTree p ts))" by (auto intro!: bexI [of _ t])
    moreover have "distinct (preorder t)" using NTree.prems(3) t(1) by (auto simp: distinct_concat_iff)
    ultimately show "balanced env h options r (visits (node_leaf h) t) [] [] 0"
      using NTree.IH [OF t(1) _ _ _ _ t(2)] NTree.prems(1,4) t(1) live by (auto simp: list_all_iff)
  qed
  show ?case
  proof (cases "node_leaf h p")
    case True
    then have "leaf_type (n_type (the_node h p))" by (simp add: node_leaf_def)
    then have "opens env h options p [] r" using enter_leaf [OF c rd _ NTree.prems(5) o] by blast
    then show ?thesis using True opens_balanced NTree.prems(5) by simp
  next
    case False
    then have nl: "\<not> leaf_type (n_type (the_node h p))" by (simp add: node_leaf_def)
    show ?thesis
    proof (cases "n_type (the_node h p) = CMARK_NODE_IMAGE")
      case True
      have "q \<noteq> p \<and> live (view h) q" if bq: "(b, q) \<in> set ?vs" for b q
      proof -
        obtain t where t: "t \<in> set ts" "(b, q) \<in> set (visits (node_leaf h) t)" using bq by auto
        then have "q \<in> set (preorder t)" using visits_preorder by blast
        then have "q \<noteq> p" "q \<in> set (preorder (NTree p ts))" using NTree.prems(3) t(1) by auto
        then show ?thesis using live by blast
      qed
      then have "balanced env h options r ((True, p) # ?vs @ [(False, p)]) [] [] 0"
        by (intro image_balanced [OF hh c True NTree.prems(5)]) blast
      then show ?thesis using False by simp
    next
      case ni: False
      have "\<not> is_footnote h p" using NTree.prems(4) by simp
      then obtain ns where ns: "\<forall>r. plain r = None \<longrightarrow> opens env h options p ns r \<and> leaves env h options p ns r"
        using enter_leave [OF ln hh c nl ni] by (auto simp: is_footnote_def)
      have a: "balanced env h options r [(True, p)] [] ns 0"
        using ns NTree.prems(5) opens_balanced by blast
      have b: "balanced env h options r ?vs ns ns 0" if "plain r = None" for r
        using balanced_frame [OF kids [OF that], of ns] by simp
      have d: "balanced env h options r [(False, p)] ns [] 0" if "plain r = None" for r
        using ns that leaves_balanced by blast
      have bd: "balanced env h options r (?vs @ [(False, p)]) ns [] (0 + 0)" if "plain r = None" for r
        using balanced_append [OF b [OF that] d] by blast
      have "balanced env h options r ([(True, p)] @ ?vs @ [(False, p)]) [] [] (0 + (0 + 0))"
        using balanced_append [OF a bd] by blast
      then show ?thesis using False by simp
    qed
  qed
qed

section \<open>Footnotes\<close>

definition note_tags :: "32 word \<Rightarrow> byte list list" where
  "note_tags ix = (if ix = 0 then [] else [str ''ol'', str ''section''])"

lemma footnote_balanced:
  assumes c: "cell h p = Some n" and hh: "html_heap env h" and t: "n_type n = CMARK_NODE_FOOTNOTE_DEFINITION"
    and vs: "\<And>r. plain r = None \<Longrightarrow> balanced env h options r vs [] [] 0" and r: "plain r = None"
    and ix: "footnote_ix r + 1 \<noteq> 0"
  shows "balanced env h options r ((True, p) # vs @ [(False, p)]) (note_tags (footnote_ix r)) (note_tags (footnote_ix r + 1)) 1"
proof -
  note rd = html_ready_heap [OF hh c]
  let ?ns = "str ''li'' # note_tags (footnote_ix r + 1)"
  obtain ch where ch: "literal_chunk n = Inr ch" "chunk_ok ch" using ready_simple(6) [OF rd] t by auto
  have a: "balanced env h options r [(True, p)] (note_tags (footnote_ix r)) ?ns 1"
    using render_known [OF c rd r, of CMARK_EVENT_ENTER options] ix ch(2) r
    by (cases "footnote_ix r = 0")
      (simp_all add: balanced_def event_of_def render_by_type_def t render_footnote_definition_def ch quiet_def
        note_tags_def name_byte_def)
  have b: "balanced env h options r1 vs ?ns ?ns 0" if "plain r1 = None" for r1
    using balanced_frame [OF vs [OF that], of ?ns] by simp
  have d: "balanced env h options r1 [(False, p)] ?ns (note_tags (footnote_ix r + 1)) 0" if r1: "plain r1 = None" for r1
  proof -
    have "good_chunk M_literal n" using rd t unfolding html_ready_iff Let_def by blast
    then obtain w r' es where "S_put_footnote_backref r1 n = Inr (w, r', es)" "plain r' = plain r1"
      "footnote_ix r' = footnote_ix r1" "list_all emit_ok es" "\<forall>st. emit_tags es (Text, st) = (Text, st)"
      using backref_ok [of n r1] by blast
    then show ?thesis
      using render_known [OF c rd r1, of CMARK_EVENT_EXIT options] r1
      by (simp add: balanced_def event_of_def render_by_type_def t render_footnote_definition_def quiet_def name_byte_def)
  qed
  have bd: "balanced env h options r1 (vs @ [(False, p)]) ?ns (note_tags (footnote_ix r + 1)) (0 + 0)" if "plain r1 = None" for r1
    using balanced_append [OF b [OF that] d] by blast
  have "balanced env h options r ([(True, p)] @ vs @ [(False, p)]) (note_tags (footnote_ix r)) (note_tags (footnote_ix r + 1)) (1 + (0 + 0))"
    using balanced_append [OF a bd] by blast
  then show ?thesis by simp
qed

lemma footnotes_balanced:
  assumes ln: "links h kids" and hh: "html_heap env h" and o: "\<not> opt options CMARK_OPT_UNSAFE"
  shows "\<forall>d \<in> set ds. tree_at kids d \<and> live (view h) (ntree_root d) \<and> distinct (preorder d) \<and>
      is_footnote h (ntree_root d) \<and> (\<forall>q \<in> set (preorder d) - {ntree_root d}. \<not> is_footnote h q) \<Longrightarrow>
    plain r = None \<Longrightarrow> unat (footnote_ix r) + length ds < 2 ^ 32 \<Longrightarrow>
    balanced env h options r (concat (map (visits (node_leaf h)) ds)) (note_tags (footnote_ix r))
      (note_tags (footnote_ix r + of_nat (length ds))) (of_nat (length ds))"
proof (induction ds arbitrary: r)
  case (Cons d ds)
  obtain p ts where d: "d = NTree p ts" by (cases d)
  have D: "tree_at kids d" "live (view h) p" "distinct (preorder d)" "is_footnote h p"
    "\<forall>q \<in> set (concat (map preorder ts)). \<not> is_footnote h q"
    using Cons.prems(1) d by auto
  have c: "cell h p = Some (the_node h p)" using node_live(7) [OF D(2)] .
  have t: "n_type (the_node h p) = CMARK_NODE_FOOTNOTE_DEFINITION" using D(4) by (simp add: is_footnote_def)
  have nl: "\<not> node_leaf h p" using t by (simp add: node_leaf_def leaf_type_def)
  have vs: "balanced env h options r (concat (map (visits (node_leaf h)) ts)) [] [] 0" if "plain r = None" for r
  proof (rule concat_balanced [OF _ that])
    fix u r assume u: "u \<in> set ts" "plain (r :: html_renderer) = None"
    have "ntree_root u \<in> set (preorder d)" using u(1) d by (auto intro!: bexI [of _ u])
    then have "live (view h) (ntree_root u)" using tree_at_live [OF ln D(1)] D(2) d by simp
    then show "balanced env h options r (visits (node_leaf h) u) [] [] 0"
      using tree_balanced [OF ln hh o, of u r] D(1,3,5) u d by (auto simp: distinct_concat_iff list_all_iff)
  qed
  have ux: "unat (footnote_ix r + 1) = unat (footnote_ix r) + 1"
    using Cons.prems(3) by (simp add: unat_word_ariths)
  then have ix: "footnote_ix r + 1 \<noteq> 0" by (metis Suc_eq_plus1 nat.distinct(1) unat_0)
  have a: "balanced env h options r (visits (node_leaf h) d) (note_tags (footnote_ix r)) (note_tags (footnote_ix r + 1)) 1"
    using footnote_balanced [OF c hh t vs Cons.prems(2) ix] nl d by simp
  have b: "balanced env h options r' (concat (map (visits (node_leaf h)) ds)) (note_tags (footnote_ix r + 1))
      (note_tags (footnote_ix r + 1 + of_nat (length ds))) (of_nat (length ds))"
    if "plain r' = None" "footnote_ix r' = footnote_ix r + 1" for r'
    using Cons.IH [of r'] Cons.prems(1,3) that ux by simp
  have "balanced env h options r (visits (node_leaf h) d @ concat (map (visits (node_leaf h)) ds)) (note_tags (footnote_ix r))
      (note_tags (footnote_ix r + 1 + of_nat (length ds))) (1 + of_nat (length ds))"
    using balanced_append [OF a b] by blast
  then show ?case by (simp add: ac_simps)
qed (simp add: balanced_def)

section \<open>The loop\<close>

definition new_renderer :: "html_env \<Rightarrow> eptr list \<Rightarrow> html_renderer" where
  "new_renderer env extensions = \<lparr>plain = None, filter_extensions = filter (\<lambda>e. html_filter_func env e \<noteq> None) extensions,
              footnote_ix = 0, written_footnote_ix = 0, html_opaque = None\<rparr>"

lemma each_single: "each f [x] s = f x s"
  by (cases "f x s") simp_all

text \<open>The calls that close the section of the footnotes.\<close>

definition section_end :: "html_renderer \<Rightarrow> emit list" where
  "section_end r = (if footnote_ix r \<noteq> 0 then [Puts (str ''</ol>'' @ [LF] @ str ''</section>'' @ [LF])] else [])"

lemma render_with_mem:
  assumes it: "cmark_iter_new h root = Inr (Some iter)"
    and ev: "iter_events fuel h iter = Inr (map event_of vs)"
    and r: "render_visits env h options (new_renderer env extensions) vs = Inr (r', es)"
    and ok: "list_all emit_ok es"
  shows "renders (emits_out (es @ section_end r') []) (cmark_render_html_with_mem fuel env h root options extensions m)"
proof -
  let ?out = "emits_out (es @ section_end r') []"
  have e: "contents (strbuf_empty m) = []" by simp
  have e2: "output_buf m (strbuf_empty m)" using strbuf_empty_ok [of m]
    by (simp add: output_buf_def strbuf_good_def strbuf_ok_def)
  have l: "length (emits_out es []) \<le> length ?out"
    using emits_out_length [of "emits_out es []" "section_end r'"] by simp
  have tail: "renders ?out (bindr (if footnote_ix r' \<noteq> 0
      then cmark_strbuf_puts b (str ''</ol>'' @ [LF] @ str ''</section>'' @ [LF, NUL]) else Inr b)
      (\<lambda>html. bindr (cmark_strbuf_detach html) (\<lambda>(result, _). Inr result)))"
    if b: "output_buf m b" "contents b = emits_out es []" for b
  proof -
    have "each run_emit (section_end r') b = (if footnote_ix r' \<noteq> 0
        then cmark_strbuf_puts b (str ''</ol>'' @ [LF] @ str ''</section>'' @ [LF, NUL]) else Inr b)"
      by (simp add: section_end_def each_single run_emit_def del: each.simps(2))
    moreover have "list_all emit_ok (section_end r')" by (simp add: section_end_def)
    ultimately have "writes m ?out (if footnote_ix r' \<noteq> 0
        then cmark_strbuf_puts b (str ''</ol>'' @ [LF] @ str ''</section>'' @ [LF, NUL]) else Inr b)"
      using emits_writes [OF b(1), of "section_end r'"] b(2) by simp
    then show ?thesis by (rule writes_renders) (auto intro: detach_renders)
  qed
  have "renders ?out (bindr (html_loop fuel env h options iter (new_renderer env extensions, strbuf_empty m)) (\<lambda>(r, html).
      bindr (if footnote_ix r \<noteq> 0
        then cmark_strbuf_puts html (str ''</ol>'' @ [LF] @ str ''</section>'' @ [LF, NUL]) else Inr html)
      (\<lambda>html. bindr (cmark_strbuf_detach html) (\<lambda>(result, _). Inr result))))"
    by (rule html.loop_then [OF ev r e2 ok _ l]) (use tail in simp_all)
  then show ?thesis
    using it by (simp add: cmark_render_html_with_mem_def new_renderer_def)
qed

section \<open>The output is well nested\<close>

definition footnotes_last :: "heap \<Rightarrow> (nptr \<Rightarrow> nptr list) \<Rightarrow> nptr \<Rightarrow> bool" where
  "footnotes_last h kids p \<longleftrightarrow>
     (\<exists>as bs. kids p = as @ bs \<and> (\<forall>q. live (view h) q \<longrightarrow> (is_footnote h q \<longleftrightarrow> q \<in> set bs)))"

lemma map_eq_appendD: "map f xs = as @ bs \<Longrightarrow> \<exists>us vs. xs = us @ vs \<and> map f us = as \<and> map f vs = bs"
  by (metis append_eq_map_conv)

lemma roots_length: "length vs \<le> length (concat (map preorder vs))"
proof (induction vs)
  case (Cons v vs)
  have "1 \<le> length (preorder v)" by (cases v) simp
  then show ?case using Cons by simp
qed simp

lemma preorder_parent_in:
  assumes "links h kids"
  shows "tree_at kids t \<Longrightarrow> q \<in> set (preorder t) \<Longrightarrow> q \<noteq> ntree_root t \<Longrightarrow> \<exists>x \<in> set (preorder t). pa (view h) q = Some x"
proof (induction t)
  case (NTree p ts)
  then obtain t where t: "t \<in> set ts" "q \<in> set (preorder t)" by auto
  have lb: "links_but {} (view h) kids" using assms by (simp add: links_def)
  show ?case
  proof (cases "q = ntree_root t")
    case True
    then have "q \<in> set (kids p)" using NTree.prems(1) t(1) by (metis image_eqI list.set_map tree_at.simps)
    then have "pa (view h) q = Some p" using links_butD(6) [OF lb] by blast
    then show ?thesis by simp
  next
    case False
    have "tree_at kids t" using NTree.prems(1) t(1) by (auto simp: list_all_iff)
    then show ?thesis using NTree.IH [OF t(1) _ t(2) False] t(1) by auto
  qed
qed

lemma document_balanced:
  assumes f: "forest h kids" and hh: "html_heap env h" and o: "\<not> opt options CMARK_OPT_UNSAFE"
    and t: "tree_at kids t" "ntree_root t = p" and p: "live (view h) p" "n_type (the_node h p) = CMARK_NODE_DOCUMENT"
    and fl: "footnotes_last h kids p" and n: "length h < 2 ^ 32" and r: "plain r = None" "footnote_ix r = 0"
  shows "\<exists>k. balanced env h options r (visits (node_leaf h) t) [] (note_tags k) k"
proof -
  have ln: "links h kids" using f by (simp add: forest_def)
  have lb: "links_but {} (view h) kids" using ln by (simp add: links_def)
  obtain ts where tt: "t = NTree p ts" using t(2) by (cases t) auto
  have d: "distinct (preorder t)" using preorder_distinct [OF f t(1)] .
  have live: "live (view h) q" if "q \<in> set (preorder t)" for q
    using tree_at_live [OF ln t(1)] t(2) p(1) that by simp
  obtain as bs where ab: "kids p = as @ bs" "\<And>q. live (view h) q \<Longrightarrow> is_footnote h q \<longleftrightarrow> q \<in> set bs"
    using fl by (auto simp: footnotes_last_def)
  obtain us vs where uv: "ts = us @ vs" "map ntree_root us = as" "map ntree_root vs = bs"
    using t(1) tt ab(1) map_eq_appendD [of ntree_root ts as bs] by auto
  have sub: "tree_at kids u \<and> distinct (preorder u) \<and> live (view h) (ntree_root u) \<and> set (preorder u) \<subseteq> set (preorder t)"
    if "u \<in> set ts" for u
  proof -
    have s: "set (preorder u) \<subseteq> set (preorder t)" using that tt by auto
    then have "live (view h) (ntree_root u)" using live root_in_preorder by blast
    then show ?thesis using s that t(1) d tt by (auto simp: distinct_concat_iff list_all_iff)
  qed
  have D: "distinct (as @ bs)" using links_butD(3) [OF lb, of p] ab(1) by simp
  have below: "\<not> is_footnote h q" if u: "u \<in> set ts" "q \<in> set (preorder u)" "q \<noteq> ntree_root u" for u q
  proof
    assume fn: "is_footnote h q"
    have q: "live (view h) q" using live sub [OF u(1)] u(2) by blast
    then have "q \<in> set (kids p)" using ab fn by simp
    then have "pa (view h) q = Some p" using links_butD(6) [OF lb] by blast
    then have "p \<in> set (preorder u)"
      using preorder_parent_in [OF ln _ u(2,3)] sub [OF u(1)] by auto
    then show False using d tt u(1) by auto
  qed
  have A: "balanced env h options r' (concat (map (visits (node_leaf h)) us)) [] [] 0" if r': "plain r' = None" for r'
  proof (rule concat_balanced [OF _ r'])
    fix u r assume u: "u \<in> set us" "plain (r :: html_renderer) = None"
    have ts: "u \<in> set ts" using u(1) uv(1) by simp
    have "ntree_root u \<in> set as" using u(1) uv(2) by auto
    then have "ntree_root u \<notin> set bs" using D by auto
    then have "\<forall>q \<in> set (preorder u). \<not> is_footnote h q"
      using below [OF ts] ab(2) sub [OF ts] by metis
    then show "balanced env h options r (visits (node_leaf h) u) [] [] 0"
      using tree_balanced [OF ln hh o, of u r] sub [OF ts] u(2) by blast
  qed
  have fnv: "\<forall>d \<in> set vs. tree_at kids d \<and> live (view h) (ntree_root d) \<and> distinct (preorder d) \<and>
      is_footnote h (ntree_root d) \<and> (\<forall>q \<in> set (preorder d) - {ntree_root d}. \<not> is_footnote h q)"
  proof
    fix u assume u: "u \<in> set vs"
    then have ts: "u \<in> set ts" using uv(1) by simp
    have "ntree_root u \<in> set bs" using u uv(3) by auto
    then show "tree_at kids u \<and> live (view h) (ntree_root u) \<and> distinct (preorder u) \<and>
      is_footnote h (ntree_root u) \<and> (\<forall>q \<in> set (preorder u) - {ntree_root u}. \<not> is_footnote h q)"
      using below [OF ts] ab(2) sub [OF ts] by blast
  qed
  have "length vs \<le> length (concat (map preorder vs))" by (rule roots_length)
  then have "length vs < length (preorder t)" using tt uv(1) by simp
  then have "length vs < 2 ^ 32" using preorder_length [OF f t(1)] t(2) p(1) n by simp
  then have B: "balanced env h options r' (concat (map (visits (node_leaf h)) vs)) []
      (note_tags (of_nat (length vs))) (of_nat (length vs))" if "plain r' = None" "footnote_ix r' = 0" for r'
    using footnotes_balanced [OF ln hh o fnv that(1)] that(2) by (simp add: note_tags_def)
  let ?us = "concat (map (visits (node_leaf h)) us)" and ?vs = "concat (map (visits (node_leaf h)) vs)"
    and ?k = "of_nat (length vs) :: 32 word"
  have doc: "balanced env h options r' [(b, p)] ns ns 0" if "plain r' = None" for r' b ns
    using render_known [OF node_live(7) [OF p(1)] html_ready_heap [OF hh node_live(7) [OF p(1)]] that] p(2) that
    by (simp add: balanced_def render_by_type_def)
  have VD: "balanced env h options r' (?vs @ [(False, p)]) [] (note_tags ?k) (?k + 0)"
    if "plain r' = None" "footnote_ix r' = 0" for r'
    by (rule balanced_append [OF B [OF that] doc])
  have UVD: "balanced env h options r' (?us @ ?vs @ [(False, p)]) [] (note_tags ?k) (0 + (?k + 0))"
    if "plain r' = None" "footnote_ix r' = 0" for r'
    by (rule balanced_append [OF A [OF that(1)] VD]) (use that in simp_all)
  have "balanced env h options r ([(True, p)] @ ?us @ ?vs @ [(False, p)]) [] (note_tags ?k) (0 + (0 + (?k + 0)))"
    by (rule balanced_append [OF doc [OF r(1)] UVD]) (use r in simp_all)
  moreover have "\<not> node_leaf h p" using p(2) by (simp add: node_leaf_def leaf_type_def)
  ultimately show ?thesis using tt uv(1) by auto
qed

section \<open>A sample\<close>

text \<open>A document with the paragraph \<open>a&lt;b\<close> and a footnote whose label holds a quote.\<close>

definition note_sample :: heap where
  "note_sample =
     [Some ((sample_node CMARK_NODE_DOCUMENT As_zero)\<lparr>n_first := Some 1, n_last := Some 3\<rparr>),
      Some ((sample_node CMARK_NODE_PARAGRAPH As_zero)
        \<lparr>n_parent := Some 0, n_next := Some 3, n_first := Some 2, n_last := Some 2\<rparr>),
      Some ((sample_node CMARK_NODE_TEXT (literal_of ''a<b''))\<lparr>n_parent := Some 1\<rparr>),
      Some ((sample_node CMARK_NODE_FOOTNOTE_DEFINITION (literal_of ''\"''))
        \<lparr>n_parent := Some 0, n_prev := Some 1, n_first := Some 4, n_last := Some 4\<rparr>),
      Some ((sample_node CMARK_NODE_PARAGRAPH As_zero)\<lparr>n_parent := Some 3\<rparr>)]"

definition bare_env :: html_env where
  "bare_env = \<lparr>html_render_func = (\<lambda>_. None), html_filter_func = (\<lambda>_. None)\<rparr>"

lemma note_sample_ready: "html_heap bare_env note_sample"
proof -
  have "all_nodes (html_ready bare_env note_sample) note_sample" by code_simp
  then show ?thesis by (auto simp: html_heap_def dest: all_nodesD)
qed

lemma note_sample_last: "footnotes_last note_sample (kids_of [[1, 3], [2], [], [4], []]) 0"
proof -
  have all: "list_all (\<lambda>q. is_footnote note_sample q \<longleftrightarrow> q = 3) [0..<length note_sample]" by code_simp
  have "is_footnote note_sample q \<longleftrightarrow> q = 3" if "live (view note_sample) q" for q
    using all live_length [OF that] by (simp add: list_all_iff)
  moreover have "kids_of [[1, 3], [2], [], [4], []] 0 = [1] @ [3]" by code_simp
  ultimately show ?thesis
    unfolding footnotes_last_def by (intro exI [of _ "[1]"] exI [of _ "[3]"]) auto
qed

section \<open>Properties\<close>



text \<open>
  Leaving a paragraph that has no parent reads the type of its parent: rendering a paragraph node
  that was made with \<open>cmark_node_new\<close> and never linked dereferences a null pointer.
\<close>

theorem render_lone_paragraph:
  assumes "cell h p = Some n" "n_type n = CMARK_NODE_PARAGRAPH" "n_parent n = None" "extension n = None" "plain r = None"
  shows "S_render_node env r h p CMARK_EVENT_EXIT options = Inl Null_deref"
  using assms
  by (simp add: S_render_node_def deref_heap Let_def render_by_type_def render_paragraph_def cmark_node_parent_def
      on_node_def deref_opt_def)

end
