(* ===== verification/Feed.thy ===== *)
theory Feed
  imports Houdini
begin

text \<open>
  How the input reaches the block parser: \<open>S_parser_feed\<close>, \<open>cmark_parser_feed\<close>,
  \<open>cmark_parser_feed_reentrant\<close>, and the feeding done by \<open>cmark_parse_document\<close>, \<open>cmark_parse_file\<close> and
  \<open>cmark_parser_finish\<close>, of src/src/blocks.c.

  Feeding cuts the input into lines and hands each of them to \<open>S_process_line\<close>, which does not touch
  the members of the parser that feeding uses.  (An extension may call \<open>cmark_parser_feed_reentrant\<close>
  from there; that function is modelled on its own.)  So the functions return the calls of
  \<open>S_process_line\<close> that they make, in order: the bytes of the line, and whether it must end in a line
  ending.

  The members of \<open>document_lines\<close> are the lines of a text; \<open>feed_byte\<close> computes them byte by byte, and
  the loop \<open>feed_loop\<close>, which jumps from line end to line end, is shown to do the same.
\<close>

section \<open>The code\<close>

text \<open>The members of \<open>cmark_parser\<close> that feeding uses.\<close>

record cmark_parser =
  linebuf :: cmark_strbuf
  pr_options :: "32 word"
  last_buffer_ended_with_cr :: bool
  total_size :: "64 word"

type_synonym process_line = "byte list \<times> bool"

abbreviation (input) CMARK_OPT_PRESERVE_WHITESPACE :: "32 word" where
  "CMARK_OPT_PRESERVE_WHITESPACE \<equiv> 0xC0000"

definition preserve_whitespace :: "cmark_parser \<Rightarrow> bool" where
  "preserve_whitespace p \<longleftrightarrow> pr_options p AND CMARK_OPT_PRESERVE_WHITESPACE \<noteq> 0"

definition S_is_line_end_char :: "byte \<Rightarrow> bool" where
  "S_is_line_end_char c \<longleftrightarrow> c = LF \<or> c = CR"

definition UINT_MAX :: "64 word" where "UINT_MAX = 0xFFFFFFFF"

text \<open>The cast of a \<open>ptrdiff_t\<close> to \<open>bufsize_t\<close>.\<close>

definition bufsize_cast :: "int \<Rightarrow> int" where
  "bufsize_cast i = sint (word_of_int i :: 32 word)"

definition repl_nul :: "byte list" where
  "repl_nul = [239, 191, 189]"

definition count_total :: "64 word \<Rightarrow> 64 word \<Rightarrow> 64 word" where
  "count_total so_far len = (if len > UINT_MAX - so_far then UINT_MAX else so_far + len)"

text \<open>The end of the next piece: a line ending, a NUL, or the end of the chunk.\<close>

definition find_eol :: "byte list \<Rightarrow> int \<Rightarrow> int \<Rightarrow> int res" where
  "find_eol data buffer fin = scan_while (\<lambda>c. \<not> S_is_line_end_char c \<and> c \<noteq> NUL) data buffer fin"

text \<open>One piece: a line is handed over, or the piece is kept in \<open>linebuf\<close>.\<close>

definition feed_piece ::
  "byte list \<Rightarrow> int \<Rightarrow> int \<Rightarrow> bool \<Rightarrow> int \<Rightarrow> cmark_parser \<Rightarrow> (cmark_parser \<times> process_line list) res" where
  "feed_piece data buffer fin eof eol p =
     (let chunk = drop (nat buffer) data; chunk_len = bufsize_cast (eol - buffer);
          ensure = (\<not> preserve_whitespace p \<or> \<not> eof \<or> eol < fin)
      in bindr (if eol < fin then bindr (peek data eol) (\<lambda>c. Inr (S_is_line_end_char c)) else Inr eof) (\<lambda>process.
         if process
         then
           if bsize (linebuf p) > 0
           then
             bindr (cmark_strbuf_put (linebuf p) chunk chunk_len) (\<lambda>b.
             bindr (read_range (ptr b) (bsize b)) (\<lambda>line.
             bindr (cmark_strbuf_clear b) (\<lambda>b. Inr (p\<lparr>linebuf := b\<rparr>, [(line, ensure)]))))
           else bindr (read_range chunk chunk_len) (\<lambda>line. Inr (p, [(line, ensure)]))
         else
           bindr (cmark_strbuf_put (linebuf p) chunk chunk_len) (\<lambda>b.
           bindr (if eol < fin then bindr (peek data eol) (\<lambda>c. Inr (c = NUL)) else Inr False) (\<lambda>nul.
           bindr (if nul then cmark_strbuf_put b repl_nul 3 else Inr b) (\<lambda>b.
           Inr (p\<lparr>linebuf := b\<rparr>, []))))))"

text \<open>The position behind the NUL or the line ending, and whether a carriage return ended the chunk.\<close>

definition skip_end :: "byte list \<Rightarrow> int \<Rightarrow> int \<Rightarrow> (int \<times> bool) res" where
  "skip_end data buffer fin =
     (if buffer < fin
      then
        bindr (peek data buffer) (\<lambda>c.
        if c = NUL then Inr (buffer + 1, False)
        else
          let buffer = (if c = CR then buffer + 1 else buffer); ended = (c = CR \<and> buffer = fin) in
          bindr (if buffer < fin then bindr (peek data buffer) (\<lambda>d. Inr (d = LF)) else Inr False) (\<lambda>lf.
          Inr (if lf then buffer + 1 else buffer, ended)))
      else Inr (buffer, False))"

fun feed_loop ::
  "nat \<Rightarrow> byte list \<Rightarrow> int \<Rightarrow> bool \<Rightarrow> int \<Rightarrow> cmark_parser \<Rightarrow> (cmark_parser \<times> process_line list) res" where
  "feed_loop 0 data fin eof buffer p = Inl Out_of_fuel"
| "feed_loop (Suc fuel) data fin eof buffer p =
     (if \<not> buffer < fin then Inr (p, [])
      else
        bindr (find_eol data buffer fin) (\<lambda>eol.
        bindr (feed_piece data buffer fin eof eol p) (\<lambda>(p, calls).
        bindr (skip_end data (buffer + bufsize_cast (eol - buffer)) fin) (\<lambda>(buffer, ended).
        bindr (feed_loop fuel data fin eof buffer (if ended then p\<lparr>last_buffer_ended_with_cr := True\<rparr> else p))
          (\<lambda>(p, more). Inr (p, calls @ more))))))"

text \<open>\<open>data\<close> is the memory from \<open>buffer\<close> on, \<open>len\<close> bytes of which are the argument.\<close>

definition S_parser_feed ::
  "nat \<Rightarrow> cmark_parser \<Rightarrow> byte list \<Rightarrow> nat \<Rightarrow> bool \<Rightarrow> (cmark_parser \<times> process_line list) res" where
  "S_parser_feed fuel p data len eof =
     (let p = p\<lparr>total_size := count_total (total_size p) (of_nat len)\<rparr> in
      bindr (if last_buffer_ended_with_cr p then bindr (peek data 0) (\<lambda>c. Inr (c = LF)) else Inr False) (\<lambda>skip.
      feed_loop fuel data (int len) eof (if skip then 1 else 0) (p\<lparr>last_buffer_ended_with_cr := False\<rparr>)))"

definition cmark_parser_feed :: "nat \<Rightarrow> cmark_parser \<Rightarrow> byte list \<Rightarrow> nat \<Rightarrow> (cmark_parser \<times> process_line list) res" where
  "cmark_parser_feed fuel p buffer len = S_parser_feed fuel p buffer len False"

definition cmark_strbuf_cstr :: "cmark_strbuf \<Rightarrow> byte list" where
  "cmark_strbuf_cstr buf = ptr buf"

definition cmark_parser_feed_reentrant ::
  "nat \<Rightarrow> cmark_mem \<Rightarrow> cmark_parser \<Rightarrow> byte list \<Rightarrow> nat \<Rightarrow> (cmark_parser \<times> process_line list) res" where
  "cmark_parser_feed_reentrant fuel m p buffer len =
     bindr (cmark_strbuf_init m 0) (\<lambda>saved_linebuf.
     bindr (cmark_strbuf_puts saved_linebuf (cmark_strbuf_cstr (linebuf p))) (\<lambda>saved_linebuf.
     bindr (cmark_strbuf_clear (linebuf p)) (\<lambda>b.
     bindr (S_parser_feed fuel (p\<lparr>linebuf := b\<rparr>) buffer len True) (\<lambda>(p, calls).
     bindr (cmark_strbuf_sets (linebuf p) (Some (cmark_strbuf_cstr saved_linebuf))) (\<lambda>b.
     bindr (cmark_strbuf_free saved_linebuf) (\<lambda>_.
     Inr (p\<lparr>linebuf := b\<rparr>, calls)))))))"

text \<open>The line that \<open>cmark_parser_finish\<close> hands over before it finalizes the document.\<close>

definition finish_line :: "cmark_parser \<Rightarrow> (cmark_parser \<times> process_line list) res" where
  "finish_line p =
     (if bsize (linebuf p) \<noteq> 0
      then
        bindr (read_range (ptr (linebuf p)) (bsize (linebuf p))) (\<lambda>line.
        bindr (cmark_strbuf_clear (linebuf p)) (\<lambda>b.
        Inr (p\<lparr>linebuf := b\<rparr>, [(line, \<not> preserve_whitespace p)])))
      else Inr (p, []))"

definition new_parser :: "32 word \<Rightarrow> cmark_mem \<Rightarrow> cmark_parser" where
  "new_parser options m =
     \<lparr>linebuf = strbuf_empty m, pr_options = options, last_buffer_ended_with_cr = False, total_size = 0\<rparr>"

text \<open>What \<open>cmark_parse_document\<close> and \<open>cmark_parse_file\<close> hand over to \<open>S_process_line\<close>.\<close>

definition document_calls :: "nat \<Rightarrow> 32 word \<Rightarrow> cmark_mem \<Rightarrow> byte list \<Rightarrow> nat \<Rightarrow> process_line list res" where
  "document_calls fuel options m buffer len =
     bindr (S_parser_feed fuel (new_parser options m) buffer len True) (\<lambda>(p, calls).
     bindr (finish_line p) (\<lambda>(p, last_call). Inr (calls @ last_call)))"

fun file_loop :: "nat \<Rightarrow> cmark_parser \<Rightarrow> byte list list \<Rightarrow> (cmark_parser \<times> process_line list) res" where
  "file_loop fuel p [] = Inr (p, [])"
| "file_loop fuel p (block # blocks) =
     (if block = [] then Inr (p, [])
      else
        let eof = (length block < 4096) in
        bindr (S_parser_feed fuel p block (length block) eof) (\<lambda>(p, calls).
        if eof then Inr (p, calls)
        else bindr (file_loop fuel p blocks) (\<lambda>(p, more). Inr (p, calls @ more))))"

text \<open>The results of \<open>fread\<close> are the blocks.\<close>

definition file_calls :: "nat \<Rightarrow> 32 word \<Rightarrow> cmark_mem \<Rightarrow> byte list list \<Rightarrow> process_line list res" where
  "file_calls fuel options m blocks =
     bindr (file_loop fuel (new_parser options m) blocks) (\<lambda>(p, calls).
     bindr (finish_line p) (\<lambda>(p, last_call). Inr (calls @ last_call)))"

text \<open>Feeding piece by piece, then finishing.\<close>

fun feed_all :: "nat \<Rightarrow> cmark_parser \<Rightarrow> byte list list \<Rightarrow> (cmark_parser \<times> process_line list) res" where
  "feed_all fuel p [] = finish_line p"
| "feed_all fuel p (chunk # chunks) =
     bindr (cmark_parser_feed fuel p chunk (length chunk)) (\<lambda>(p, calls).
     bindr (feed_all fuel p chunks) (\<lambda>(p, more). Inr (p, calls @ more)))"

section \<open>The specification\<close>

text \<open>Text without its NUL bytes, and the lines of a document.\<close>

definition replace_nul :: "byte list \<Rightarrow> byte list" where
  "replace_nul s = concat (map (\<lambda>c. if c = NUL then repl_nul else [c]) s)"

lemma replace_nul_simps [simp]:
  "replace_nul [] = []"
  "replace_nul (c # s) = (if c = NUL then repl_nul else [c]) @ replace_nul s"
  by (simp_all add: replace_nul_def)

lemma replace_nul_Nil [simp]: "replace_nul s = [] \<longleftrightarrow> s = []"
  by (cases s) (simp_all add: repl_nul_def)

fun drop_ending :: "byte list \<Rightarrow> byte list" where
  "drop_ending (c # s) = (if c = CR \<and> s \<noteq> [] \<and> hd s = LF then tl s else s)"
| "drop_ending [] = []"

lemma drop_ending_length: "s \<noteq> [] \<Longrightarrow> length (drop_ending s) < length s"
  by (cases s) auto

function document_lines :: "bool \<Rightarrow> byte list \<Rightarrow> process_line list" where
  "document_lines pw s =
     (if s = [] then []
      else
        let line = takeWhile (\<lambda>c. \<not> S_is_line_end_char c) s; rest = dropWhile (\<lambda>c. \<not> S_is_line_end_char c) s
        in if rest = [] then [(replace_nul line, \<not> pw)]
           else (replace_nul line, True) # document_lines pw (drop_ending rest))"
  by pat_completeness auto
termination
proof (relation "measure (\<lambda>(pw, s). length s)")
  fix pw s line rest
  assume "s \<noteq> []" "rest = dropWhile (\<lambda>c. \<not> S_is_line_end_char c) s" "rest \<noteq> []"
  then have "length (drop_ending rest) < length rest" "length rest \<le> length s"
    using drop_ending_length length_dropWhile_le by blast+
  then show "((pw, drop_ending rest), pw, s) \<in> measure (\<lambda>(pw, s). length s)" by simp
qed simp

declare document_lines.simps [simp del]

text \<open>The same, byte by byte: what is pending, whether the last byte was a carriage return, the lines.\<close>

type_synonym feed_state = "byte list \<times> bool \<times> process_line list"

fun feed_byte :: "feed_state \<Rightarrow> byte \<Rightarrow> feed_state" where
  "feed_byte (pending, cr, out) c =
     (if c = LF \<and> cr then (pending, False, out)
      else if S_is_line_end_char c then ([], c = CR, out @ [(pending, True)])
      else (pending @ (if c = NUL then repl_nul else [c]), False, out))"

definition feed_end :: "bool \<Rightarrow> feed_state \<Rightarrow> process_line list" where
  "feed_end pw s = (case s of (pending, cr, out) \<Rightarrow> out @ (if pending = [] then [] else [(pending, \<not> pw)]))"

abbreviation feed_bytes :: "feed_state \<Rightarrow> byte list \<Rightarrow> feed_state" where
  "feed_bytes \<equiv> foldl feed_byte"

lemma feed_out: "feed_bytes (q, cr, out) s = (case feed_bytes (q, cr, []) s of (q', cr', o') \<Rightarrow> (q', cr', out @ o'))"
proof (induction s arbitrary: q cr out)
  case (Cons c s)
  obtain q1 cr1 o1 where b: "feed_byte (q, cr, []) c = (q1, cr1, o1)" by (cases "feed_byte (q, cr, []) c")
  then have b2: "feed_byte (q, cr, out) c = (q1, cr1, out @ o1)" by (auto split: if_splits)
  have "feed_bytes (q, cr, out) (c # s) = feed_bytes (q1, cr1, out @ o1) s" by (simp only: foldl_Cons b2)
  moreover have "feed_bytes (q, cr, []) (c # s) = feed_bytes (q1, cr1, o1) s" by (simp only: foldl_Cons b)
  ultimately show ?case
    using Cons.IH [of q1 cr1 "out @ o1"] Cons.IH [of q1 cr1 o1] by (simp del: foldl_Cons split: prod.splits)
qed simp

lemma feed_cr: "s = [] \<or> hd s \<noteq> LF \<Longrightarrow> s \<noteq> [] \<Longrightarrow> feed_bytes (q, True, out) s = feed_bytes (q, False, out) s"
  by (cases s) auto

lemma feed_run: "\<forall>c \<in> set s. \<not> S_is_line_end_char c \<Longrightarrow>
    feed_bytes (q, cr, out) s = (q @ replace_nul s, if s = [] then cr else False, out)"
proof (induction s arbitrary: q cr)
  case (Cons c s)
  then have "feed_byte (q, cr, out) c = (q @ (if c = NUL then repl_nul else [c]), False, out)"
    by (auto simp: S_is_line_end_char_def)
  then show ?case using Cons by (simp del: feed_byte.simps)
qed simp

lemma feed_end_document:
  "feed_end pw (feed_bytes ([], False, []) s) = document_lines pw s"
proof (induction s rule: length_induct)
  case (1 s)
  show ?case
  proof (cases "s = []")
    case True
    then show ?thesis by (simp add: document_lines.simps feed_end_def)
  next
    case s: False
    let ?P = "\<lambda>c. \<not> S_is_line_end_char c"
    let ?l = "takeWhile ?P s" and ?r = "dropWhile ?P s"
    have l: "\<forall>c \<in> set ?l. ?P c" using set_takeWhileD by metis
    have sp: "s = ?l @ ?r" by simp
    have run: "feed_bytes ([], False, []) ?l = (replace_nul ?l, False, [])"
      using feed_run [OF l, of "[]" False "[]"] by simp
    show ?thesis
    proof (cases ?r)
      case Nil
      then have e: "?l = s" using sp by simp
      have "document_lines pw s = [(replace_nul ?l, \<not> pw)]"
        using s Nil by (subst document_lines.simps) (simp only: Let_def if_False if_True simp_thms)
      moreover have "feed_bytes ([], False, []) s = (replace_nul s, False, [])" using run unfolding e .
      ultimately show ?thesis using s unfolding e by (simp add: feed_end_def)
    next
      case (Cons c t)
      then have c: "S_is_line_end_char c" using hd_dropWhile [of ?P s] by auto
      have t: "length (drop_ending ?r) < length s"
        using drop_ending_length [of ?r] length_dropWhile_le [of ?P s] Cons by auto
      then have IH: "feed_end pw (feed_bytes ([], False, []) (drop_ending ?r)) = document_lines pw (drop_ending ?r)"
        using 1 by blast
      have "feed_bytes (replace_nul ?l, False, []) ?r = feed_bytes ([], False, [(replace_nul ?l, True)]) (drop_ending ?r) \<or>
          (t = [] \<and> feed_bytes (replace_nul ?l, False, []) ?r = ([], True, [(replace_nul ?l, True)]))"
      proof (cases "c = CR")
        case True
        show ?thesis
        proof (cases t)
          case Nil
          then show ?thesis using Cons True by (auto simp: S_is_line_end_char_def)
        next
          case t: (Cons d u)
          show ?thesis
            using Cons True t feed_cr [of t "[]" "[(replace_nul ?l, True)]"]
            by (cases "d = LF") (simp_all add: S_is_line_end_char_def)
        qed
      next
        case False
        then have "c = LF" using c by (simp add: S_is_line_end_char_def)
        then show ?thesis using Cons by (simp add: S_is_line_end_char_def)
      qed
      moreover have "feed_bytes ([], False, []) s = feed_bytes (replace_nul ?l, False, []) ?r"
        using run by (metis foldl_append sp)
      moreover have "feed_end pw (feed_bytes ([], False, [(replace_nul ?l, True)]) u) =
          (replace_nul ?l, True) # feed_end pw (feed_bytes ([], False, []) u)" for u
        unfolding feed_out [of "[]" False "[(replace_nul ?l, True)]" u]
        by (cases "feed_bytes ([], False, []) u") (simp add: feed_end_def)
      ultimately have "feed_end pw (feed_bytes ([], False, []) s) = (replace_nul ?l, True) # document_lines pw (drop_ending ?r)"
        using IH
      proof (elim disjE)
        assume e: "t = [] \<and> feed_bytes (replace_nul ?l, False, []) ?r = ([], True, [(replace_nul ?l, True)])"
        have "drop_ending ?r = []" using e Cons by simp
        then show "feed_end pw (feed_bytes ([], False, []) s) = (replace_nul ?l, True) # document_lines pw (drop_ending ?r)"
          using e \<open>feed_bytes ([], False, []) s = feed_bytes (replace_nul ?l, False, []) ?r\<close>
          by (simp add: feed_end_def document_lines.simps [of pw "[]"])
      qed simp
      moreover have "document_lines pw s = (replace_nul ?l, True) # document_lines pw (drop_ending ?r)"
        using s Cons by (subst document_lines.simps) (simp only: Let_def if_False list.distinct simp_thms)
      ultimately show ?thesis by simp
    qed
  qed
qed

section \<open>The loop\<close>

lemma bufsize_cast_eq: "0 \<le> i \<Longrightarrow> i < 2 ^ 31 \<Longrightarrow> bufsize_cast i = i"
  by (simp add: bufsize_cast_def signed_of_int signed_take_bit_int_eq_self_iff)

lemma put_run:
  assumes "strbuf_ok b" "int (length (contents b) + length run) \<le> grow_limit"
  shows "\<exists>b'. cmark_strbuf_put b (run @ rest) (int (length run)) = Inr b' \<and> strbuf_ok b' \<and> contents b' = contents b @ run"
proof -
  have "cmark_strbuf_put b (run @ rest) (int (length run)) = cmark_strbuf_put b run (int (length run))"
    by (simp add: cmark_strbuf_put_def read_range_def)
  moreover have "appends_to strbuf_ok contents grow_limit (\<lambda>b. cmark_strbuf_put b run (int (length run))) run"
    by (rule sbt.appends_put)
  then have "case put_bytes b run of Inr s' \<Rightarrow> strbuf_ok s' \<and> contents s' = contents b @ run
      | Inl e \<Rightarrow> e \<in> {Abort, Int_overflow} \<and> grow_limit < int (length (contents b) + length run)"
    using assms(1) unfolding appends_to_def by blast
  ultimately show ?thesis using assms(2) by (auto split: sum.splits)
qed

lemma read_contents: "strbuf_ok b \<Longrightarrow> read_range (ptr b) (bsize b) = Inr (contents b)"
  by (auto simp: read_range_def contents_def strbuf_ok_def strbuf_inv_def split: if_splits)

lemma size_contents: "strbuf_ok b \<Longrightarrow> bsize b > 0 \<longleftrightarrow> contents b \<noteq> []" "strbuf_ok b \<Longrightarrow> bsize b \<noteq> 0 \<longleftrightarrow> contents b \<noteq> []"
  by (auto simp: contents_def strbuf_ok_def strbuf_inv_def split: if_splits)

lemma piece_at:
  "drop (nat (int (length pre))) (pre @ s) = s" "int (length pre + n) - int (length pre) = int n"
  by simp_all

text \<open>A piece that completes a line.\<close>

lemma piece_line:
  assumes b: "strbuf_ok (linebuf p)" and l: "int (length (contents (linebuf p)) + length run) \<le> grow_limit" "length run < 2 ^ 31"
    and fin: "fin = int (length pre + length run + length rest)"
    and e: "rest \<noteq> [] \<and> S_is_line_end_char (hd rest) \<or> rest = [] \<and> eof"
  shows "\<exists>b'. feed_piece (pre @ run @ rest @ post) (int (length pre)) fin eof (int (length pre + length run)) p =
      Inr (p\<lparr>linebuf := b'\<rparr>, [(contents (linebuf p) @ run, rest \<noteq> [] \<or> \<not> preserve_whitespace p)]) \<and>
    strbuf_ok b' \<and> contents b' = []"
proof -
  let ?data = "pre @ run @ rest @ post"
  have cl: "bufsize_cast (int (length run)) = int (length run)" using l(2) by (intro bufsize_cast_eq) auto
  have pr: "(if int (length pre + length run) < fin
      then bindr (peek ?data (int (length pre + length run))) (\<lambda>c. Inr (S_is_line_end_char c)) else Inr eof) = Inr True"
  proof (cases rest)
    case Nil
    then show ?thesis using e fin by simp
  next
    case (Cons c t)
    have "peek ((pre @ run) @ c # (t @ post)) (int (length (pre @ run))) = Inr c" by (rule peek_at)
    then show ?thesis using e fin Cons by simp
  qed
  have en: "\<not> preserve_whitespace p \<or> \<not> eof \<or> int (length pre + length run) < fin \<longleftrightarrow> rest \<noteq> [] \<or> \<not> preserve_whitespace p"
    using e fin by (cases rest) auto
  show ?thesis
  proof (cases "bsize (linebuf p) > 0")
    case True
    obtain b1 where b1: "cmark_strbuf_put (linebuf p) (run @ rest @ post) (int (length run)) = Inr b1"
      "strbuf_ok b1" "contents b1 = contents (linebuf p) @ run" using put_run [OF b l(1)] by blast
    obtain b2 where "cmark_strbuf_clear b1 = Inr b2" "strbuf_ok b2" "contents b2 = []"
      using clear_becomes [OF b1(2)] by (auto simp: becomes_def)
    then show ?thesis
      unfolding feed_piece_def Let_def piece_at cl pr en using True b1(1,3) read_contents [OF b1(2)]
      by (intro exI [of _ b2]) simp
  next
    case False
    then have c: "contents (linebuf p) = []" using size_contents(1) [OF b] by simp
    have "read_range (run @ rest @ post) (int (length run)) = Inr run" by (simp add: read_range_def)
    then show ?thesis
      unfolding feed_piece_def Let_def piece_at cl pr en using False c b
      by (intro exI [of _ "linebuf p"]) simp
  qed
qed

text \<open>A piece that is kept.\<close>

lemma piece_kept:
  assumes b: "strbuf_ok (linebuf p)"
    and l: "int (length (contents (linebuf p)) + length run + 3 * length rest) \<le> grow_limit" "length run < 2 ^ 31"
    and fin: "fin = int (length pre + length run + length rest)"
    and e: "rest \<noteq> [] \<and> hd rest = NUL \<or> rest = [] \<and> \<not> eof"
  shows "\<exists>b'. feed_piece (pre @ run @ rest @ post) (int (length pre)) fin eof (int (length pre + length run)) p =
      Inr (p\<lparr>linebuf := b'\<rparr>, []) \<and>
    strbuf_ok b' \<and> contents b' = contents (linebuf p) @ run @ (if rest = [] then [] else repl_nul)"
proof -
  let ?data = "pre @ run @ rest @ post"
  have cl: "bufsize_cast (int (length run)) = int (length run)" using l(2) by (intro bufsize_cast_eq) auto
  obtain b1 where b1: "cmark_strbuf_put (linebuf p) (run @ rest @ post) (int (length run)) = Inr b1"
    "strbuf_ok b1" "contents b1 = contents (linebuf p) @ run" using put_run [OF b, of run "rest @ post"] l(1) by auto
  show ?thesis
  proof (cases rest)
    case Nil
    have f: "\<not> int (length pre + length run) < fin" "eof = False" using Nil fin e by auto
    show ?thesis
      unfolding feed_piece_def Let_def piece_at cl using Nil f b1
      by (intro exI [of _ b1]) simp
  next
    case (Cons c t)
    have pk: "peek ((pre @ run) @ c # (t @ post)) (int (length (pre @ run))) = Inr c" by (rule peek_at)
    have c: "c = NUL" using e Cons by simp
    obtain b2 where "cmark_strbuf_put b1 (repl_nul @ []) (int (length repl_nul)) = Inr b2" "strbuf_ok b2"
      "contents b2 = contents b1 @ repl_nul"
      using put_run [OF b1(2), of repl_nul "[]"] l(1) b1(3) Cons by (auto simp: repl_nul_def)
    moreover have f: "int (length pre + length run) < fin" using Cons fin by simp
    moreover have "peek ?data (int (length pre + length run)) = Inr NUL" using pk Cons c by simp
    ultimately show ?thesis
      unfolding feed_piece_def Let_def piece_at cl using Cons b1
      by (intro exI [of _ b2]) (simp add: S_is_line_end_char_def repl_nul_def del: of_nat_add)
  qed
qed

lemma skip_end_eq:
  assumes "fin = int (length pre + length rest)" "rest \<noteq> [] \<longrightarrow> S_is_line_end_char (hd rest) \<or> hd rest = NUL"
  shows "skip_end (pre @ rest @ post) (int (length pre)) fin =
    Inr (int (length pre + length rest - length (drop_ending rest)), rest = [CR])"
proof (cases rest)
  case Nil
  then show ?thesis using assms by (simp add: skip_end_def)
next
  case (Cons c t)
  have p1: "peek (pre @ c # t @ post) (int (length pre)) = Inr c" by (rule peek_at)
  show ?thesis
  proof (cases "c = CR")
    case cr: True
    show ?thesis
    proof (cases t)
      case Nil
      then show ?thesis using Cons cr assms p1 by (simp add: skip_end_def)
    next
      case t: (Cons d u)
      have "peek ((pre @ [c]) @ d # (u @ post)) (int (length (pre @ [c]))) = Inr d" by (rule peek_at)
      then have p2: "peek (pre @ c # t @ post) (int (length pre) + 1) = Inr d" using t by (simp add: add.commute)
      have "int (length pre) < fin" "int (length pre) + 1 < fin" using assms(1) Cons t by simp_all
      then show ?thesis unfolding skip_end_def using Cons cr t assms(1) p1 p2 by (cases "d = LF") simp_all
    qed
  next
    case False
    then show ?thesis using Cons assms p1 by (auto simp: skip_end_def S_is_line_end_char_def)
  qed
qed

definition fed :: "bool \<Rightarrow> cmark_parser \<Rightarrow> feed_state \<Rightarrow> cmark_parser \<Rightarrow> process_line list \<Rightarrow> bool" where
  "fed eof p st p' calls \<longleftrightarrow>
     strbuf_ok (linebuf p') \<and> pr_options p' = pr_options p \<and> total_size p' = total_size p \<and>
     (if eof
      then feed_end (preserve_whitespace p) (contents (linebuf p'), False, calls) = feed_end (preserve_whitespace p) st
      else (contents (linebuf p'), last_buffer_ended_with_cr p', calls) = st)"

lemma feed_loop_end: "\<not> buffer < fin \<Longrightarrow> 0 < fuel \<Longrightarrow> feed_loop fuel data fin eof buffer p = Inr (p, [])"
  by (cases fuel) auto

lemma feed_end_out: "feed_end pw (q, cr, out @ o') = out @ feed_end pw (q, cr, o')"
  by (simp add: feed_end_def)

lemma fed_after:
  assumes "fed eof p1 (feed_bytes (q, False, []) s) p' rest_calls" "pr_options p1 = pr_options p" "total_size p1 = total_size p"
  shows "fed eof p (feed_bytes (q, False, calls) s) p' (calls @ rest_calls)"
proof -
  obtain q' cr' o' where f: "feed_bytes (q, False, []) s = (q', cr', o')" by (cases "feed_bytes (q, False, []) s")
  then have "feed_bytes (q, False, calls) s = (q', cr', calls @ o')" using feed_out [of q False calls s] by simp
  then show ?thesis using assms f by (auto simp: fed_def feed_end_out preserve_whitespace_def)
qed

lemma piece_split:
  obtains run rest where "s = run @ rest" "\<forall>c \<in> set run. \<not> S_is_line_end_char c \<and> c \<noteq> NUL"
    "rest \<noteq> [] \<longrightarrow> S_is_line_end_char (hd rest) \<or> hd rest = NUL"
    "find_eol (pre @ s @ post) (int (length pre)) (int (length pre + length s)) = Inr (int (length pre + length run))"
proof -
  let ?P = "\<lambda>c. \<not> S_is_line_end_char c \<and> c \<noteq> NUL"
  have "s = takeWhile ?P s @ dropWhile ?P s" by simp
  moreover have "\<forall>c \<in> set (takeWhile ?P s). ?P c" using set_takeWhileD [of _ ?P s] by blast
  moreover have "dropWhile ?P s \<noteq> [] \<longrightarrow> S_is_line_end_char (hd (dropWhile ?P s)) \<or> hd (dropWhile ?P s) = NUL"
    using hd_dropWhile [of ?P s] by blast
  moreover have "find_eol (pre @ s @ post) (int (length pre)) (int (length pre + length s)) =
      Inr (int (length pre + length (takeWhile ?P s)))"
    unfolding find_eol_def by (rule scan_while_eq)
  ultimately show ?thesis using that by blast
qed

lemma feed_run_safe: "\<forall>c \<in> set s. \<not> S_is_line_end_char c \<and> c \<noteq> NUL \<Longrightarrow>
    feed_bytes (q, False, out) s = (q @ s, False, out)"
proof -
  assume s: "\<forall>c \<in> set s. \<not> S_is_line_end_char c \<and> c \<noteq> NUL"
  then have "replace_nul s = s" by (induction s) auto
  then show ?thesis using feed_run [of s q False out] s by simp
qed

lemma drop_ending_suffix: "\<exists>u. s = u @ drop_ending s"
proof (cases s)
  case (Cons c t)
  show ?thesis
  proof (cases "c = CR \<and> t \<noteq> [] \<and> hd t = LF")
    case True
    then have "s = [c, hd t] @ drop_ending s" using Cons by (cases t) auto
    then show ?thesis by blast
  next
    case False
    then have "s = [c] @ drop_ending s" using Cons by auto
    then show ?thesis by blast
  qed
qed simp

lemma feed_loop_ok:
  assumes "strbuf_ok (linebuf p)" "\<not> last_buffer_ended_with_cr p"
    "int (length (contents (linebuf p)) + 3 * length s) \<le> grow_limit" "length s < 2 ^ 31" "length s < fuel"
  shows "\<exists>p' calls. feed_loop fuel (pre @ s @ post) (int (length pre + length s)) eof (int (length pre)) p = Inr (p', calls) \<and>
    fed eof p (feed_bytes (contents (linebuf p), False, []) s) p' calls"
  using assms
proof (induction fuel arbitrary: pre s p)
  case (Suc fuel)
  show ?case
  proof (cases "s = []")
    case True
    then show ?thesis using Suc.prems by (simp add: fed_def)
  next
    case s: False
    let ?q = "contents (linebuf p)" and ?fin = "int (length pre + length s)"
    obtain run rest where r: "s = run @ rest" "\<forall>c \<in> set run. \<not> S_is_line_end_char c \<and> c \<noteq> NUL"
      "rest \<noteq> [] \<longrightarrow> S_is_line_end_char (hd rest) \<or> hd rest = NUL"
      "find_eol (pre @ s @ post) (int (length pre)) ?fin = Inr (int (length pre + length run))"
      by (rule piece_split [of s pre post])
    have cl: "bufsize_cast (int (length run)) = int (length run)" using Suc.prems(4) r(1) by (intro bufsize_cast_eq) auto
    have pos: "int (length pre) + int (length run) = int (length (pre @ run))" by simp
    have lt: "int (length pre) < ?fin" using s by simp
    have sk: "skip_end (pre @ s @ post) (int (length (pre @ run))) ?fin =
        Inr (int (length (pre @ run) + length rest - length (drop_ending rest)), rest = [CR])"
      using skip_end_eq [of ?fin "pre @ run" rest post] r(1,3) by simp
    have step: "feed_loop (Suc fuel) (pre @ s @ post) ?fin eof (int (length pre)) p =
        bindr (feed_loop fuel (pre @ s @ post) ?fin eof (int (length (pre @ run) + length rest - length (drop_ending rest)))
          (if rest = [CR] then p1\<lparr>last_buffer_ended_with_cr := True\<rparr> else p1)) (\<lambda>(p, rest_calls). Inr (p, calls @ rest_calls))"
      if "feed_piece (pre @ s @ post) (int (length pre)) ?fin eof (int (length pre + length run)) p = Inr (p1, calls)" for p1 calls
      using lt r(4) that sk unfolding feed_loop.simps by (simp only: piece_at cl pos bindr_Inr if_False simp_thms prod.case)
    have run: "feed_bytes (?q, False, []) s = feed_bytes (?q @ run, False, []) rest"
      using feed_run_safe [OF r(2)] r(1) by simp
    have fuel: "0 < fuel" using Suc.prems(5) s by (cases s) auto
    have l: "int (length ?q + length run) \<le> grow_limit" "length run < 2 ^ 31" using Suc.prems(3,4) r(1) by simp_all
    show ?thesis
    proof (cases "rest \<noteq> [] \<and> S_is_line_end_char (hd rest) \<or> rest = [] \<and> eof")
      case line: True
      obtain b1 where b1: "feed_piece (pre @ s @ post) (int (length pre)) ?fin eof (int (length pre + length run)) p =
          Inr (p\<lparr>linebuf := b1\<rparr>, [(?q @ run, rest \<noteq> [] \<or> \<not> preserve_whitespace p)])" "strbuf_ok b1" "contents b1 = []"
        using piece_line [OF Suc.prems(1) l _ line, of ?fin pre post] r(1) by auto
      show ?thesis
      proof (cases "rest = [] \<or> rest = [CR]")
        case True
        then have "\<not> int (length (pre @ run) + length rest - length (drop_ending rest)) < ?fin" using r(1) by auto
        then have loop: "feed_loop (Suc fuel) (pre @ s @ post) ?fin eof (int (length pre)) p =
            Inr (if rest = [CR] then p\<lparr>linebuf := b1\<rparr>\<lparr>last_buffer_ended_with_cr := True\<rparr> else p\<lparr>linebuf := b1\<rparr>,
              [(?q @ run, rest \<noteq> [] \<or> \<not> preserve_whitespace p)])"
          unfolding step [OF b1(1)] using feed_loop_end [OF _ fuel] by simp
        show ?thesis
        proof (cases "rest = []")
          case True
          then have "eof" "run \<noteq> []" using line s r(1) by auto
          then show ?thesis unfolding loop run using True b1(2,3) by (simp add: fed_def feed_end_def)
        next
          case False
          then have "rest = [CR]" using \<open>rest = [] \<or> rest = [CR]\<close> by simp
          then show ?thesis unfolding loop run using b1(2,3) by (simp add: fed_def feed_end_def S_is_line_end_char_def)
        qed
      next
        case False
        then have ne: "rest \<noteq> []" "rest \<noteq> [CR]" by auto
        have dl: "length (drop_ending rest) < length rest" using drop_ending_length [OF ne(1)] .
        obtain used where ud: "rest = used @ drop_ending rest" using drop_ending_suffix by blast
        have lu: "length used = length rest - length (drop_ending rest)" using arg_cong [OF ud, of length] by simp
        let ?p1 = "p\<lparr>linebuf := b1\<rparr>"
        have lens: "length s = length run + length rest" using r(1) by simp
        have ih0: "\<exists>p' calls. feed_loop fuel ((pre @ run @ used) @ drop_ending rest @ post)
            (int (length (pre @ run @ used) + length (drop_ending rest))) eof (int (length (pre @ run @ used))) ?p1 = Inr (p', calls) \<and>
            fed eof ?p1 (feed_bytes (contents (linebuf ?p1), False, []) (drop_ending rest)) p' calls"
        proof (rule Suc.IH)
          show "int (length (contents (linebuf ?p1)) + 3 * length (drop_ending rest)) \<le> grow_limit"
            using Suc.prems(3) dl lens b1(3) by simp
          show "length (drop_ending rest) < 2 ^ 31" "length (drop_ending rest) < fuel"
            using Suc.prems(4,5) dl lens by simp_all
        qed (use b1(2) Suc.prems(2) in simp_all)
        have e1: "(pre @ run @ used) @ drop_ending rest @ post = pre @ s @ post"
          unfolding r(1) using ud by (metis append.assoc)
        have e2: "int (length (pre @ run @ used) + length (drop_ending rest)) = ?fin" using lu dl lens by simp
        have e3: "int (length (pre @ run @ used)) = int (length (pre @ run) + length rest - length (drop_ending rest))"
          using lu dl by simp
        obtain p' rest_calls where ih: "feed_loop fuel (pre @ s @ post) ?fin eof
            (int (length (pre @ run) + length rest - length (drop_ending rest))) ?p1 = Inr (p', rest_calls)"
          "fed eof ?p1 (feed_bytes ([], False, []) (drop_ending rest)) p' rest_calls"
          using ih0 [unfolded e1 e2 e3] b1(3) by auto
        have "feed_bytes (?q @ run, False, []) rest = feed_bytes ([], False, [(?q @ run, True)]) (drop_ending rest)"
        proof (cases rest)
          case (Cons c t)
          have c: "c = LF \<or> c = CR" using line Cons by (simp add: S_is_line_end_char_def)
          have first: "feed_byte (?q @ run, False, []) c = ([], c = CR, [(?q @ run, True)])"
            using c by (auto simp: S_is_line_end_char_def)
          show ?thesis
          proof (cases "c = CR \<and> hd t \<noteq> LF")
            case True
            then have "t \<noteq> []" using ne Cons by auto
            then show ?thesis using True Cons first feed_cr [of t "[]" "[(?q @ run, True)]"] by simp
          next
            case False
            then show ?thesis using c ne Cons by (cases t) (auto simp: S_is_line_end_char_def)
          qed
        qed (use ne in simp)
        then show ?thesis
          unfolding step [OF b1(1)] run using ih(1) ne fed_after [OF ih(2), of p "[(?q @ run, True)]"]
          by (simp del: feed_byte.simps)
      qed
    next
      case kept: False
      then have k: "rest \<noteq> [] \<and> hd rest = NUL \<or> rest = [] \<and> \<not> eof" using r(3) by blast
      have l3: "int (length ?q + length run + 3 * length rest) \<le> grow_limit" using Suc.prems(3) r(1) by simp
      obtain b1 where b1: "feed_piece (pre @ s @ post) (int (length pre)) ?fin eof (int (length pre + length run)) p =
          Inr (p\<lparr>linebuf := b1\<rparr>, [])" "strbuf_ok b1" "contents b1 = ?q @ run @ (if rest = [] then [] else repl_nul)"
        using piece_kept [OF Suc.prems(1) l3 l(2) _ k, of ?fin pre post] r(1) by auto
      let ?p1 = "p\<lparr>linebuf := b1\<rparr>"
      show ?thesis
      proof (cases rest)
        case Nil
        then have "\<not> int (length (pre @ run) + length rest - length (drop_ending rest)) < ?fin" using r(1) by simp
        then have loop: "feed_loop (Suc fuel) (pre @ s @ post) ?fin eof (int (length pre)) p = Inr (?p1, [])"
          unfolding step [OF b1(1)] using feed_loop_end [OF _ fuel] Nil by simp
        show ?thesis unfolding loop run using Nil k b1(2,3) Suc.prems(2) by (simp add: fed_def)
      next
        case (Cons c t)
        then have c: "c = NUL" using k by simp
        have lens: "length s = length run + length t + 1" using r(1) Cons by simp
        have ih0: "\<exists>p' calls. feed_loop fuel ((pre @ run @ [NUL]) @ t @ post)
            (int (length (pre @ run @ [NUL]) + length t)) eof (int (length (pre @ run @ [NUL]))) ?p1 = Inr (p', calls) \<and>
            fed eof ?p1 (feed_bytes (contents (linebuf ?p1), False, []) t) p' calls"
        proof (rule Suc.IH)
          show "int (length (contents (linebuf ?p1)) + 3 * length t) \<le> grow_limit"
            using Suc.prems(3) lens b1(3) Cons by (simp add: repl_nul_def)
          show "length t < 2 ^ 31" "length t < fuel" using Suc.prems(4,5) lens by simp_all
        qed (use b1(2) Suc.prems(2) in simp_all)
        have e1: "(pre @ run @ [NUL]) @ t @ post = pre @ s @ post" using r(1) Cons c by simp
        have e2: "int (length (pre @ run @ [NUL]) + length t) = ?fin" using lens by simp
        have e3: "int (length (pre @ run @ [NUL])) = int (length (pre @ run) + length rest - length (drop_ending rest))"
          using Cons c by simp
        obtain p' rest_calls where ih: "feed_loop fuel (pre @ s @ post) ?fin eof
            (int (length (pre @ run) + length rest - length (drop_ending rest))) ?p1 = Inr (p', rest_calls)"
          "fed eof ?p1 (feed_bytes (?q @ run @ repl_nul, False, []) t) p' rest_calls"
          using ih0 [unfolded e1 e2 e3] b1(3) Cons by auto
        have "feed_bytes (?q @ run, False, []) rest = feed_bytes (?q @ run @ repl_nul, False, []) t"
          using Cons c by (simp add: S_is_line_end_char_def)
        then show ?thesis
          unfolding step [OF b1(1)] run using ih(1) Cons c fed_after [OF ih(2), of p "[]"] by simp
      qed
    qed
  qed
qed simp

section \<open>Chunks\<close>

lemma feed_pending_length:
  "length (fst (feed_bytes (q, cr, out) s)) \<le> length q + 3 * length s"
proof (induction s arbitrary: q cr out)
  case (Cons c s)
  obtain q1 cr1 o1 where b: "feed_byte (q, cr, out) c = (q1, cr1, o1)" by (cases "feed_byte (q, cr, out) c")
  then have "length q1 \<le> length q + 3" by (auto simp: repl_nul_def split: if_splits)
  then show ?case using Cons.IH [of q1 cr1 o1] b by simp
qed simp

lemma parser_feed_ok:
  assumes "strbuf_ok (linebuf p)" "s \<noteq> [] \<or> \<not> last_buffer_ended_with_cr p"
    "int (length (contents (linebuf p)) + 3 * length s) \<le> grow_limit" "length s < 2 ^ 31" "length s < fuel"
  shows "\<exists>p' calls. S_parser_feed fuel p (s @ post) (length s) eof = Inr (p', calls) \<and>
    fed eof (p\<lparr>total_size := count_total (total_size p) (of_nat (length s))\<rparr>)
      (feed_bytes (contents (linebuf p), last_buffer_ended_with_cr p, []) s) p' calls"
proof -
  let ?p = "p\<lparr>total_size := count_total (total_size p) (of_nat (length s))\<rparr>"
  let ?p1 = "?p\<lparr>last_buffer_ended_with_cr := False\<rparr>"
  have ok: "strbuf_ok (linebuf ?p1)" "\<not> last_buffer_ended_with_cr ?p1"
    "int (length (contents (linebuf ?p1)) + 3 * length s) \<le> grow_limit" using assms by simp_all
  have fe: "fed eof ?p1 st p' calls \<longleftrightarrow> fed eof ?p st p' calls" for st p' calls
    by (simp add: fed_def preserve_whitespace_def)
  show ?thesis
  proof (cases "last_buffer_ended_with_cr p \<and> hd s = LF")
    case True
    then obtain t where s: "s = LF # t" using assms(2) by (cases s) auto
    have "\<exists>p' calls. feed_loop fuel ([LF] @ t @ post) (int (length [LF] + length t)) eof (int (length [LF])) ?p1 = Inr (p', calls) \<and>
        fed eof ?p1 (feed_bytes (contents (linebuf ?p1), False, []) t) p' calls"
      by (rule feed_loop_ok) (use ok assms s in auto)
    then show ?thesis using True s unfolding fe by (simp add: S_parser_feed_def Let_def)
  next
    case False
    have "\<exists>p' calls. feed_loop fuel ([] @ s @ post) (int (length ([] :: byte list) + length s)) eof (int (length ([] :: byte list))) ?p1 =
          Inr (p', calls) \<and> fed eof ?p1 (feed_bytes (contents (linebuf ?p1), False, []) s) p' calls"
      by (rule feed_loop_ok) (use ok assms in auto)
    then obtain p' calls where l: "feed_loop fuel (s @ post) (int (length s)) eof 0 ?p1 = Inr (p', calls)"
      "fed eof ?p (feed_bytes (contents (linebuf p), False, []) s) p' calls" unfolding fe by auto
    have "feed_bytes (contents (linebuf p), last_buffer_ended_with_cr p, []) s = feed_bytes (contents (linebuf p), False, []) s"
      if "s \<noteq> [] \<or> \<not> last_buffer_ended_with_cr p"
      using False that feed_cr [of s] by (cases "last_buffer_ended_with_cr p") auto
    moreover have "(if last_buffer_ended_with_cr p then bindr (peek (s @ post) 0) (\<lambda>c. Inr (c = LF)) else Inr False) = Inr False"
      using False assms(2) by (cases s) auto
    ultimately show ?thesis using l assms(2) by (simp add: S_parser_feed_def Let_def)
  qed
qed

lemma finish_line_ok:
  assumes "strbuf_ok (linebuf p)"
  shows "\<exists>p' calls. finish_line p = Inr (p', calls) \<and> strbuf_ok (linebuf p') \<and> contents (linebuf p') = [] \<and>
    out @ calls = feed_end (preserve_whitespace p) (contents (linebuf p), cr, out)"
proof (cases "bsize (linebuf p) = 0")
  case True
  then have "contents (linebuf p) = []" by (simp add: contents_def)
  then show ?thesis using True assms by (simp add: finish_line_def feed_end_def)
next
  case False
  obtain b where "cmark_strbuf_clear (linebuf p) = Inr b" "strbuf_ok b" "contents b = []"
    using clear_becomes [OF assms] by (auto simp: becomes_def)
  then show ?thesis using False read_contents [OF assms] size_contents(2) [OF assms] by (simp add: finish_line_def feed_end_def)
qed

lemma feed_all_ok:
  assumes "strbuf_ok (linebuf p)" "\<forall>c \<in> set chunks. c \<noteq> []"
    "int (length (contents (linebuf p)) + 3 * length (concat chunks)) \<le> grow_limit"
    "length (concat chunks) < 2 ^ 31" "length (concat chunks) < fuel"
  shows "\<exists>p' calls. feed_all fuel p chunks = Inr (p', calls) \<and> contents (linebuf p') = [] \<and>
    out @ calls = feed_end (preserve_whitespace p)
      (feed_bytes (contents (linebuf p), last_buffer_ended_with_cr p, out) (concat chunks))"
  using assms
proof (induction chunks arbitrary: p out)
  case Nil
  then show ?case using finish_line_ok [OF Nil(1), of out "last_buffer_ended_with_cr p"] by auto
next
  case (Cons c cs)
  let ?st = "(contents (linebuf p), last_buffer_ended_with_cr p, [])"
  have len: "int (length (contents (linebuf p)) + 3 * length c) \<le> grow_limit" "length c < 2 ^ 31" "length c < fuel"
    "c \<noteq> [] \<or> \<not> last_buffer_ended_with_cr p"
    using Cons.prems by auto
  obtain p1 calls where a: "S_parser_feed fuel p (c @ []) (length c) False = Inr (p1, calls)"
    "fed False (p\<lparr>total_size := count_total (total_size p) (of_nat (length c))\<rparr>) (feed_bytes ?st c) p1 calls"
    using parser_feed_ok [OF Cons.prems(1) len(4,1,2,3), of "[]" False] by blast
  have p1: "strbuf_ok (linebuf p1)" "pr_options p1 = pr_options p"
    "feed_bytes ?st c = (contents (linebuf p1), last_buffer_ended_with_cr p1, calls)" using a(2) by (auto simp: fed_def)
  have "length (contents (linebuf p1)) \<le> length (contents (linebuf p)) + 3 * length c"
    using feed_pending_length [of "contents (linebuf p)" "last_buffer_ended_with_cr p" "[]" c] p1(3) by simp
  then have "int (length (contents (linebuf p1)) + 3 * length (concat cs)) \<le> grow_limit" using Cons.prems(3) by simp
  then obtain p' calls2 where b: "feed_all fuel p1 cs = Inr (p', calls2)" "contents (linebuf p') = []"
    "(out @ calls) @ calls2 = feed_end (preserve_whitespace p1)
        (feed_bytes (contents (linebuf p1), last_buffer_ended_with_cr p1, out @ calls) (concat cs))"
    using Cons.IH [OF p1(1), of "out @ calls"] Cons.prems by auto
  have "feed_bytes (contents (linebuf p), last_buffer_ended_with_cr p, out) c =
      (contents (linebuf p1), last_buffer_ended_with_cr p1, out @ calls)"
    using feed_out [of "contents (linebuf p)" "last_buffer_ended_with_cr p" out c] p1(3) by simp
  then show ?case using a(1) b p1(2) by (simp add: cmark_parser_feed_def preserve_whitespace_def)
qed

lemma document_calls_ok:
  assumes "int (3 * length s) \<le> grow_limit" "length s < 2 ^ 31" "length s < fuel"
  shows "document_calls fuel options m (s @ post) (length s) =
    Inr (document_lines (preserve_whitespace (new_parser options m)) s)"
proof -
  let ?p = "new_parser options m"
  have p: "strbuf_ok (linebuf ?p)" "contents (linebuf ?p) = []" "\<not> last_buffer_ended_with_cr ?p"
    by (simp_all add: new_parser_def)
  obtain p1 calls where a: "S_parser_feed fuel ?p (s @ post) (length s) True = Inr (p1, calls)"
    "fed True (?p\<lparr>total_size := count_total (total_size ?p) (of_nat (length s))\<rparr>)
      (feed_bytes (contents (linebuf ?p), last_buffer_ended_with_cr ?p, []) s) p1 calls"
    using parser_feed_ok [OF p(1), of s fuel post True] p assms by auto
  have p1: "strbuf_ok (linebuf p1)" "pr_options p1 = pr_options ?p"
    "feed_end (preserve_whitespace ?p) (contents (linebuf p1), False, calls) =
       document_lines (preserve_whitespace ?p) s"
    using a(2) feed_end_document p(2,3) by (auto simp: fed_def preserve_whitespace_def)
  obtain p2 calls2 where "finish_line p1 = Inr (p2, calls2)"
    "calls @ calls2 = feed_end (preserve_whitespace p1) (contents (linebuf p1), False, calls)"
    using finish_line_ok [OF p1(1), of calls False] by auto
  then show ?thesis using a(1) p1(2,3) by (simp add: document_calls_def preserve_whitespace_def)
qed

lemma file_loop_ok:
  assumes "strbuf_ok (linebuf p)" "blocks \<noteq> [] \<longrightarrow> last blocks \<noteq> [] \<and> length (last blocks) \<le> 4096"
    "\<forall>b \<in> set (butlast blocks). length b = 4096"
    "int (length (contents (linebuf p)) + 3 * length (concat blocks)) \<le> grow_limit"
    "length (concat blocks) < 2 ^ 31" "length (concat blocks) < fuel"
  shows "\<exists>p' calls. file_loop fuel p blocks = Inr (p', calls) \<and> strbuf_ok (linebuf p') \<and> pr_options p' = pr_options p \<and>
    feed_end (preserve_whitespace p) (contents (linebuf p'), False, out @ calls) = feed_end (preserve_whitespace p)
      (feed_bytes (contents (linebuf p), last_buffer_ended_with_cr p, out) (concat blocks))"
  using assms
proof (induction blocks arbitrary: p out)
  case Nil
  then show ?case by (simp add: feed_end_def)
next
  case (Cons c cs)
  let ?st = "(contents (linebuf p), last_buffer_ended_with_cr p, [])"
  let ?eof = "length c < 4096"
  have c: "c \<noteq> []" using Cons.prems(2,3) by (cases cs) auto
  have eof: "cs = []" if ?eof using Cons.prems(3) that by (cases cs) auto
  have len: "int (length (contents (linebuf p)) + 3 * length c) \<le> grow_limit" "length c < 2 ^ 31" "length c < fuel"
    using Cons.prems by auto
  obtain p1 calls where a: "S_parser_feed fuel p (c @ []) (length c) ?eof = Inr (p1, calls)"
    "fed ?eof (p\<lparr>total_size := count_total (total_size p) (of_nat (length c))\<rparr>) (feed_bytes ?st c) p1 calls"
    using parser_feed_ok [OF Cons.prems(1) _ len, of "[]" ?eof] c by blast
  have p1: "strbuf_ok (linebuf p1)" "pr_options p1 = pr_options p" using a(2) by (auto simp: fed_def)
  have out: "feed_bytes (contents (linebuf p), last_buffer_ended_with_cr p, out) c =
      (case feed_bytes ?st c of (q', cr', o') \<Rightarrow> (q', cr', out @ o'))" by (rule feed_out)
  show ?case
  proof (cases ?eof)
    case True
    obtain q' cr' o' where st: "feed_bytes ?st c = (q', cr', o')" by (cases "feed_bytes ?st c")
    have "feed_end (preserve_whitespace p) (contents (linebuf p1), False, calls) = feed_end (preserve_whitespace p) (q', cr', o')"
      using a(2) True st by (simp add: fed_def preserve_whitespace_def)
    then show ?thesis using a(1) True eof p1 c out st by (simp add: feed_end_out)
  next
    case False
    have st: "feed_bytes ?st c = (contents (linebuf p1), last_buffer_ended_with_cr p1, calls)"
      using a(2) False by (auto simp: fed_def)
    have "length (contents (linebuf p1)) \<le> length (contents (linebuf p)) + 3 * length c"
      using feed_pending_length [of "contents (linebuf p)" "last_buffer_ended_with_cr p" "[]" c] st by simp
    then have l: "int (length (contents (linebuf p1)) + 3 * length (concat cs)) \<le> grow_limit" using Cons.prems(4) by simp
    have "cs \<noteq> [] \<longrightarrow> last cs \<noteq> [] \<and> length (last cs) \<le> 4096" "\<forall>b \<in> set (butlast cs). length b = 4096"
      using Cons.prems(2,3) by (auto split: if_splits)
    then obtain p' calls2 where b: "file_loop fuel p1 cs = Inr (p', calls2)" "strbuf_ok (linebuf p')" "pr_options p' = pr_options p1"
      "feed_end (preserve_whitespace p1) (contents (linebuf p'), False, (out @ calls) @ calls2) =
        feed_end (preserve_whitespace p1) (feed_bytes (contents (linebuf p1), last_buffer_ended_with_cr p1, out @ calls) (concat cs))"
      using Cons.IH [OF p1(1) _ _ l, of "out @ calls"] Cons.prems(5,6) by auto
    then show ?thesis using a(1) False p1(2) c out st by (simp add: preserve_whitespace_def)
  qed
qed

definition feed_mem :: cmark_mem where
  "feed_mem = \<lparr>mem_id = 0, fresh = (\<lambda>_. 0)\<rparr>"

section \<open>Properties\<close>

text \<open>The results of \<open>fread\<close> into a buffer of 4096 bytes: only the last one may be shorter.\<close>

definition fread_blocks :: "byte list list \<Rightarrow> bool" where
  "fread_blocks blocks \<longleftrightarrow> (blocks \<noteq> [] \<longrightarrow> last blocks \<noteq> [] \<and> length (last blocks) \<le> 4096) \<and>
     (\<forall>b \<in> set (butlast blocks). length b = 4096)"

text \<open>
  C2: However a document arrives, in non-empty pieces, as a whole, or read from a file in blocks, the
  same lines are handed over to the block parser: those of the reference function \<open>document_lines\<close>.
  Line endings (CR, LF, CR LF) and NULs may fall anywhere, also on the border of two pieces.  The pieces
  must not be empty: an empty one behind a CR makes the parser forget the CR (\<open>empty_feed_forgets_cr\<close>).
  The input has at most a third of \<open>grow_limit\<close> bytes, so that a line in which every NUL has become three bytes
  fits into a buffer.
\<close>

theorem feeding_equivalent:
  assumes "concat chunks = s" "[] \<notin> set chunks" "concat blocks = s" "fread_blocks blocks"
    and "int (3 * length s) \<le> grow_limit" "length s < fuel"
    and "pw = (options AND CMARK_OPT_PRESERVE_WHITESPACE \<noteq> 0)"
  shows "map_sum id snd (feed_all fuel (new_parser options m) chunks) = Inr (document_lines pw s) \<and>
    document_calls fuel options m s (length s) = Inr (document_lines pw s) \<and>
    file_calls fuel options m blocks = Inr (document_lines pw s)"
proof (intro conjI)
  let ?p = "new_parser options m"
  have p: "strbuf_ok (linebuf ?p)" "contents (linebuf ?p) = []" "\<not> last_buffer_ended_with_cr ?p" "preserve_whitespace ?p = pw"
    using assms(7) by (simp_all add: new_parser_def preserve_whitespace_def)
  have len: "length s < 2 ^ 31" using assms(5) by (simp add: grow_limit_def INT32_MAX_def)
  show "document_calls fuel options m s (length s) = Inr (document_lines pw s)"
    using document_calls_ok [OF assms(5) len assms(6), of options m "[]"] p(4) by simp
  obtain p' calls where "feed_all fuel ?p chunks = Inr (p', calls)"
    "[] @ calls = feed_end (preserve_whitespace ?p) (feed_bytes (contents (linebuf ?p), last_buffer_ended_with_cr ?p, []) (concat chunks))"
    using feed_all_ok [OF p(1), of chunks fuel "[]"] assms len p(2) by auto
  then show "map_sum id snd (feed_all fuel ?p chunks) = Inr (document_lines pw s)"
    using p assms(1) feed_end_document [of pw s] by simp
  obtain p1 calls1 where f: "file_loop fuel ?p blocks = Inr (p1, calls1)" "strbuf_ok (linebuf p1)" "pr_options p1 = pr_options ?p"
    "feed_end (preserve_whitespace ?p) (contents (linebuf p1), False, [] @ calls1) =
      feed_end (preserve_whitespace ?p) (feed_bytes (contents (linebuf ?p), last_buffer_ended_with_cr ?p, []) (concat blocks))"
    using file_loop_ok [OF p(1), of blocks fuel "[]"] assms len p(2) by (auto simp: fread_blocks_def)
  obtain p2 calls2 where "finish_line p1 = Inr (p2, calls2)"
    "calls1 @ calls2 = feed_end (preserve_whitespace p1) (contents (linebuf p1), False, calls1)"
    using finish_line_ok [OF f(2), of calls1 False] by auto
  then show "file_calls fuel options m blocks = Inr (document_lines pw s)"
    using f p assms(3) feed_end_document [of pw s] by (simp add: file_calls_def preserve_whitespace_def)
qed

theorem feeding_equivalent_witness:
  "map_sum id snd (feed_all 9 (new_parser 0 feed_mem) [[0x61, CR], [LF, NUL], [0x62]]) =
      Inr [([0x61], True), (repl_nul @ [0x62], True)] \<and>
    document_calls 9 0 feed_mem [0x61, CR, LF, NUL, 0x62] 5 = Inr [([0x61], True), (repl_nul @ [0x62], True)] \<and>
    file_calls 9 0 feed_mem [[0x61, CR, LF, NUL, 0x62]] = Inr [([0x61], True), (repl_nul @ [0x62], True)]"
proof -
  have "document_lines False [0x61, CR, LF, NUL, 0x62] = [([0x61], True), (repl_nul @ [0x62], True)]" by code_simp
  note lines = this
  have n: "length [0x61, CR, LF, NUL, 0x62 :: byte] = 5" by simp
  have "map_sum id snd (feed_all 9 (new_parser 0 feed_mem) [[0x61, CR], [LF, NUL], [0x62]]) =
        Inr (document_lines False [0x61, CR, LF, NUL, 0x62]) \<and>
      document_calls 9 0 feed_mem [0x61, CR, LF, NUL, 0x62] (length [0x61, CR, LF, NUL, 0x62 :: byte]) =
        Inr (document_lines False [0x61, CR, LF, NUL, 0x62]) \<and>
      file_calls 9 0 feed_mem [[0x61, CR, LF, NUL, 0x62]] = Inr (document_lines False [0x61, CR, LF, NUL, 0x62])"
  proof (rule feeding_equivalent)
    show "int (3 * length [0x61, CR, LF, NUL, 0x62 :: byte]) \<le> grow_limit" by (simp add: grow_limit_def INT32_MAX_def)
  qed (simp_all add: fread_blocks_def)
  then show ?thesis unfolding lines n .
qed

lemma replace_nul_clean: "\<forall>c \<in> set s. \<not> S_is_line_end_char c \<Longrightarrow>
    \<forall>c \<in> set (replace_nul s). \<not> S_is_line_end_char c \<and> c \<noteq> NUL"
proof (induction s)
  case (Cons c s)
  have r: "\<forall>c \<in> set repl_nul. \<not> S_is_line_end_char c \<and> c \<noteq> NUL"
    by (simp add: repl_nul_def S_is_line_end_char_def)
  have "\<forall>c \<in> set (replace_nul s). \<not> S_is_line_end_char c \<and> c \<noteq> NUL" using Cons by simp
  then show ?case using r Cons.prems by (cases "c = NUL") auto
qed simp

lemma document_lines_text:
  "concat (map fst (document_lines pw s)) = replace_nul (filter (\<lambda>c. \<not> S_is_line_end_char c) s) \<and>
   (\<forall>l \<in> set (document_lines pw s). \<forall>c \<in> set (fst l). \<not> S_is_line_end_char c \<and> c \<noteq> NUL)"
proof (induction pw s rule: document_lines.induct)
  case (1 pw s)
  let ?P = "\<lambda>c. \<not> S_is_line_end_char c"
  let ?l = "takeWhile ?P s" and ?r = "dropWhile ?P s"
  have l: "\<forall>c \<in> set ?l. ?P c" using set_takeWhileD [of _ ?P s] by blast
  have clean: "\<forall>c \<in> set (replace_nul ?l). ?P c \<and> c \<noteq> NUL" using replace_nul_clean [OF l] .
  have app: "replace_nul (xs @ ys) = replace_nul xs @ replace_nul ys" for xs ys by (simp add: replace_nul_def)
  have fl: "filter ?P s = ?l @ filter ?P (drop_ending ?r)"
  proof -
    have "filter ?P s = filter ?P ?l @ filter ?P ?r" by (metis filter_append takeWhile_dropWhile_id)
    moreover have "filter ?P ?l = ?l" using l by (simp add: filter_id_conv)
    moreover have "filter ?P ?r = filter ?P (drop_ending ?r)"
    proof (cases ?r)
      case (Cons c t)
      then have "S_is_line_end_char c" using hd_dropWhile [of ?P s] by auto
      then show ?thesis using Cons by (cases t) (auto simp: S_is_line_end_char_def)
    next
      case Nil
      then show ?thesis unfolding Nil by simp
    qed
    ultimately show ?thesis by simp
  qed
  show ?case
  proof (cases "s = [] \<or> ?r = []")
    case True
    have "document_lines pw s = (if s = [] then [] else [(replace_nul ?l, \<not> pw)])"
      using True by (subst document_lines.simps) (cases "s = []"; simp only: Let_def if_True if_False simp_thms)
    moreover have r: "?r = []" using True by auto
    have "filter ?P s = ?l" unfolding fl unfolding r by simp
    ultimately show ?thesis using clean by simp
  next
    case False
    then have f: "s \<noteq> []" "?r \<noteq> []" by blast+
    then have d: "document_lines pw s = (replace_nul ?l, True) # document_lines pw (drop_ending ?r)"
      by (subst document_lines.simps) (simp only: Let_def if_False f simp_thms)
    have t: "concat (map fst (document_lines pw (drop_ending ?r))) = replace_nul (filter ?P (drop_ending ?r)) \<and>
      (\<forall>l \<in> set (document_lines pw (drop_ending ?r)). \<forall>c \<in> set (fst l). ?P c \<and> c \<noteq> NUL)"
      using 1 [OF f(1) refl refl f(2)] .
    show ?thesis
      unfolding d fl app list.map concat.simps fst_conv list.set
    proof (intro conjI)
      show "replace_nul ?l @ concat (map fst (document_lines pw (drop_ending ?r))) =
          replace_nul ?l @ replace_nul (filter ?P (drop_ending ?r))" using conjunct1 [OF t] by (rule arg_cong)
      show "\<forall>l \<in> insert (replace_nul ?l, True) (set (document_lines pw (drop_ending ?r))). \<forall>c \<in> set (fst l). ?P c \<and> c \<noteq> NUL"
        using clean conjunct2 [OF t] by (metis fst_conv insertE)
    qed
  qed
qed

text \<open>
  C13: Nothing is lost: everything that is fed, in non-empty pieces, but the line endings, is handed over to the block
  parser once and in order by the time the parser is finished, with U+FFFD for every NUL, and no line
  holds a line ending or a NUL.
\<close>

theorem feeding_delivers:
  assumes "[] \<notin> set chunks" "int (3 * length (concat chunks)) \<le> grow_limit" "length (concat chunks) < fuel"
  shows "\<exists>p' calls. feed_all fuel (new_parser options m) chunks = Inr (p', calls) \<and> contents (linebuf p') = [] \<and>
    concat (map fst calls) = replace_nul (filter (\<lambda>c. \<not> S_is_line_end_char c) (concat chunks)) \<and>
    (\<forall>l \<in> set calls. \<forall>c \<in> set (fst l). \<not> S_is_line_end_char c \<and> c \<noteq> NUL)"
proof -
  let ?p = "new_parser options m"
  have p: "strbuf_ok (linebuf ?p)" "contents (linebuf ?p) = []" "\<not> last_buffer_ended_with_cr ?p"
    by (simp_all add: new_parser_def)
  have len: "length (concat chunks) < 2 ^ 31" using assms(2) by (simp add: grow_limit_def INT32_MAX_def)
  have ne: "\<forall>c \<in> set chunks. c \<noteq> []" using assms(1) by blast
  have "int (length (contents (linebuf ?p)) + 3 * length (concat chunks)) \<le> grow_limit" using assms(2) p(2) by simp
  from feed_all_ok [OF p(1) ne this len assms(3), of "[]"]
  obtain p' calls where "feed_all fuel ?p chunks = Inr (p', calls)" "contents (linebuf p') = []"
    "calls = document_lines (preserve_whitespace ?p) (concat chunks)"
    using feed_end_document p(2,3) by auto
  then show ?thesis using document_lines_text [of "preserve_whitespace ?p" "concat chunks"] by blast
qed

theorem feeding_delivers_witness:
  "\<exists>p' calls. feed_all 9 (new_parser 0 feed_mem) [[0x61, CR], [LF, NUL], [0x62]] = Inr (p', calls) \<and>
     concat (map fst calls) = [0x61] @ repl_nul @ [0x62]"
proof -
  let ?c = "[[0x61, CR], [LF, NUL], [0x62 :: byte]]"
  have "[] \<notin> set ?c" "int (3 * length (concat ?c)) \<le> grow_limit" "length (concat ?c) < 9"
    by (simp_all add: grow_limit_def INT32_MAX_def)
  note f = feeding_delivers [OF this, of 0 feed_mem]
  have "replace_nul (filter (\<lambda>c. \<not> S_is_line_end_char c) (concat ?c)) = [0x61] @ repl_nul @ [0x62]"
    by (simp add: S_is_line_end_char_def)
  then show ?thesis using f by metis
qed

text \<open>
  C36: An empty piece after one that ends in a carriage return: \<open>cmark_parser_feed\<close> reads one byte
  behind the empty buffer, and it forgets the carriage return, so a line feed that follows counts as
  one more line ending.
\<close>

theorem empty_feed_forgets_cr:
  assumes "last_buffer_ended_with_cr p"
  shows "cmark_parser_feed (Suc fuel) p [] 0 = Inl Out_of_bounds \<and>
    (\<exists>p'. cmark_parser_feed (Suc fuel) p (c # post) 0 = Inr (p', []) \<and> \<not> last_buffer_ended_with_cr p')"
  using assms by (simp add: cmark_parser_feed_def S_parser_feed_def Let_def peek_def)

theorem empty_feed_forgets_cr_witness:
  "cmark_parser_feed 1 (new_parser 0 feed_mem\<lparr>last_buffer_ended_with_cr := True\<rparr>) [] 0 = Inl Out_of_bounds"
  using empty_feed_forgets_cr [of "new_parser 0 feed_mem\<lparr>last_buffer_ended_with_cr := True\<rparr>" 0] by simp

text \<open>A text fed with \<open>cmark_parser_feed_reentrant\<close> whose last byte is a NUL loses its last line.\<close>

theorem reentrant_loses_line:
  "map_sum id (\<lambda>(p, calls). (contents (linebuf p), calls))
     (cmark_parser_feed_reentrant 5 feed_mem (new_parser 0 feed_mem) [0x61, NUL] 2) = Inr ([], [])"
  by code_simp

text \<open>\<open>CMARK_OPT_INLINE_ONLY\<close> alone is taken for \<open>CMARK_OPT_PRESERVE_WHITESPACE\<close>, of which it is one bit.\<close>

theorem inline_only_preserves_whitespace: "preserve_whitespace (new_parser 0x40000 m)"
  by (simp add: preserve_whitespace_def new_parser_def)

end
