(* ===== verification/Xml.thy ===== *)
theory Xml
  imports Html_Nesting
begin

text \<open>
  The XML renderer, src/src/xml.c.  Like the HTML renderer it makes a sequence of calls on one buffer,
  so \<open>S_render_node_xml\<close> (\<open>S_render_node\<close> of xml.c) returns them as a list of type \<open>emit\<close>.
\<close>

section \<open>The code\<close>

definition MAX_INDENT :: int where "MAX_INDENT = 40"

definition escape_xml :: "cmark_chunk \<Rightarrow> emit" where
  "escape_xml c = esc_chunk c"

definition indent_xml :: "int \<Rightarrow> emit list" where
  "indent_xml i = replicate (nat (min i MAX_INDENT)) (Putc SPACE)"

definition xml_sourcepos :: "cmark_node \<Rightarrow> 32 word \<Rightarrow> emit list" where
  "xml_sourcepos n options =
     (if opt options CMARK_OPT_SOURCEPOS \<and> start_line n \<noteq> 0
      then [Puts (str '' sourcepos=\"'' @ decimal (start_line n) @ [COLON] @ decimal (start_column n) @
              [HYPHEN] @ decimal (end_line n) @ [COLON] @ decimal (end_column n) @ [DQUOTE])]
      else [])"

text \<open>\<open>xml_attr_func\<close> of the extensions that have one; its result may be a null pointer.\<close>

type_synonym xml_env = "eptr \<Rightarrow> (heap \<Rightarrow> nptr \<Rightarrow> byte list option) option"

definition xml_extension_attrs :: "xml_env \<Rightarrow> heap \<Rightarrow> nptr \<Rightarrow> cmark_node \<Rightarrow> emit list" where
  "xml_extension_attrs xenv h p n =
     (case Option.bind (extension n) xenv of
        None \<Rightarrow> []
      | Some f \<Rightarrow> case f h p of None \<Rightarrow> [] | Some s \<Rightarrow> [Puts s])"

definition quoted_xml :: "string \<Rightarrow> cmark_chunk \<Rightarrow> emit list" where
  "quoted_xml key c = [Puts (str '' '' @ str key @ str ''=\"''), escape_xml c, Putc DQUOTE]"

definition preserved_xml :: "cmark_chunk \<Rightarrow> byte list \<Rightarrow> emit list" where
  "preserved_xml c type_string = [lit '' xml:space=\"preserve\">'', escape_xml c, lit ''</'', Puts type_string]"

definition xml_list_attrs :: "heap \<Rightarrow> nptr \<Rightarrow> emit list res" where
  "xml_list_attrs h p =
     bindr (cmark_node_get_list_type h (Some p)) (\<lambda>list_type.
     bindr (cmark_node_get_list_start h (Some p)) (\<lambda>start.
     bindr (cmark_node_get_list_delim h (Some p)) (\<lambda>delim.
     bindr (cmark_node_get_list_tight h (Some p)) (\<lambda>tight.
     Inr ((if list_type = CMARK_ORDERED_LIST
           then [lit '' type=\"ordered\"'', Puts (str '' start=\"'' @ decimal start @ [DQUOTE])] @
             (if delim = CMARK_PAREN_DELIM then [lit '' delim=\"paren\"'']
              else if delim = CMARK_PERIOD_DELIM then [lit '' delim=\"period\"''] else [])
           else if list_type = CMARK_BULLET_LIST then [lit '' type=\"bullet\"'']
           else []) @
          [lit (if tight then '' tight=\"true\"'' else '' tight=\"false\"'')])))))"

text \<open>The attributes and the text of a node; \<open>True\<close> when it has a text (\<open>literal\<close>).\<close>

definition xml_body :: "heap \<Rightarrow> nptr \<Rightarrow> cmark_node \<Rightarrow> byte list \<Rightarrow> (emit list \<times> bool) res" where
  "xml_body h p n type_string =
     (let t = n_type n; chunk = (\<lambda>m. get_chunk m (n_as n)) in
      if t = CMARK_NODE_DOCUMENT then Inr ([lit '' xmlns=\"http://commonmark.org/xml/1.0\"''], False)
      else if t \<in> {CMARK_NODE_TEXT, CMARK_NODE_CODE, CMARK_NODE_HTML_BLOCK, CMARK_NODE_HTML_INLINE}
      then bindr (chunk M_literal) (\<lambda>c. Inr (preserved_xml c type_string, True))
      else if t = CMARK_NODE_LIST then bindr (xml_list_attrs h p) (\<lambda>es. Inr (es, False))
      else if t = CMARK_NODE_HEADING
      then bindr (as_heading (n_as n)) (\<lambda>hd. Inr ([Puts (str '' level=\"'' @ decimal (level hd) @ [DQUOTE])], False))
      else if t = CMARK_NODE_CODE_BLOCK
      then
        bindr (chunk M_code_info) (\<lambda>info.
        bindr (chunk M_code_literal) (\<lambda>c.
        Inr ((if ch_len info > 0 then quoted_xml ''info'' info else []) @ preserved_xml c type_string, True)))
      else if t \<in> {CMARK_NODE_CUSTOM_BLOCK, CMARK_NODE_CUSTOM_INLINE}
      then
        bindr (chunk M_on_enter) (\<lambda>a.
        bindr (chunk M_on_exit) (\<lambda>b. Inr (quoted_xml ''on_enter'' a @ quoted_xml ''on_exit'' b, False)))
      else if t \<in> {CMARK_NODE_LINK, CMARK_NODE_IMAGE}
      then
        bindr (chunk M_link_url) (\<lambda>u.
        bindr (chunk M_link_title) (\<lambda>v. Inr (quoted_xml ''destination'' u @ quoted_xml ''title'' v, False)))
      else Inr ([], False))"

text \<open>The result is the new \<open>state->indent\<close> and the calls on \<open>state->xml\<close>.\<close>

definition S_render_node_xml ::
  "node_env \<Rightarrow> xml_env \<Rightarrow> heap \<Rightarrow> nptr \<Rightarrow> cmark_event_type \<Rightarrow> int \<Rightarrow> 32 word \<Rightarrow> (int \<times> emit list) res" where
  "S_render_node_xml env xenv h p ev indent options =
     bindr (deref h p) (\<lambda>n.
     bindr (cmark_node_get_type_string env h (Some p)) (\<lambda>type_string.
     if ev = CMARK_EVENT_ENTER
     then
       bindr (xml_body h p n type_string) (\<lambda>(body, literal).
       Inr (if n_first n \<noteq> None then indent + 2 else indent,
         indent_xml indent @ [Putc LESS_THAN, Puts type_string] @ xml_sourcepos n options @
         xml_extension_attrs xenv h p n @ body @
         (if n_first n = None \<and> \<not> literal then [lit '' /''] else []) @ [Puts (str ''>'' @ [LF])]))
     else if n_first n \<noteq> None
     then Inr (indent - 2, indent_xml (indent - 2) @ [lit ''</'', Puts type_string, Puts (str ''>'' @ [LF])])
     else Inr (indent, [])))"

fun xml_loop ::
  "nat \<Rightarrow> node_env \<Rightarrow> xml_env \<Rightarrow> heap \<Rightarrow> 32 word \<Rightarrow> cmark_iter \<Rightarrow> int \<times> cmark_strbuf \<Rightarrow> (int \<times> cmark_strbuf) res" where
  "xml_loop 0 env xenv h options iter s = Inl Out_of_fuel"
| "xml_loop (Suc fuel) env xenv h options iter (indent, xml) =
     bindr (cmark_iter_next h iter) (\<lambda>(ev, iter).
     if ev = CMARK_EVENT_DONE then Inr (indent, xml)
     else
       case cmark_iter_get_node iter of
         None \<Rightarrow> Inl Null_deref
       | Some cur \<Rightarrow>
           bindr (S_render_node_xml env xenv h cur ev indent options) (\<lambda>(indent, es).
           bindr (each run_emit es xml) (\<lambda>xml.
           xml_loop fuel env xenv h options iter (indent, xml))))"

definition xml_prolog :: "emit list" where
  "xml_prolog =
     [Puts (str ''<?xml version=\"1.0\" encoding=\"UTF-8\"?>'' @ [LF]),
      Puts (str ''<!DOCTYPE document SYSTEM \"CommonMark.dtd\">'' @ [LF])]"

definition cmark_render_xml_with_mem ::
  "nat \<Rightarrow> node_env \<Rightarrow> xml_env \<Rightarrow> heap \<Rightarrow> nptr option \<Rightarrow> 32 word \<Rightarrow> cmark_mem \<Rightarrow> byte list res" where
  "cmark_render_xml_with_mem fuel env xenv h root options m =
     bindr (cmark_iter_new h root) (\<lambda>iter.
     bindr (each run_emit xml_prolog (strbuf_empty m)) (\<lambda>xml.
     case iter of
       None \<Rightarrow> Inl Null_deref
     | Some iter \<Rightarrow>
         bindr (xml_loop fuel env xenv h options iter (0, xml)) (\<lambda>(indent, xml).
         bindr (cmark_strbuf_detach xml) (\<lambda>(result, _). Inr result))))"

definition cmark_render_xml ::
  "nat \<Rightarrow> node_env \<Rightarrow> xml_env \<Rightarrow> heap \<Rightarrow> nptr option \<Rightarrow> 32 word \<Rightarrow> byte list res" where
  "cmark_render_xml fuel env xenv h root options =
     bindr (deref_opt h root) (\<lambda>n.
     cmark_render_xml_with_mem fuel env xenv h root options (mem (n_content n)))"

end
