(* ===== verification/Xml_Nesting.thy ===== *)
theory Xml_Nesting
  imports Xml
begin

text \<open>
  The output of the XML renderer is well nested: every call that writes attributes goes from behind the
  tag name to there (\<open>attrs\<close>), a text ends inside the end tag (\<open>text_then_end\<close>), and entering and leaving
  a node opens and closes one element (\<open>xml_enter\<close>, \<open>xml_leave\<close>); trees follow by induction.
\<close>

section \<open>The output is well nested\<close>

text \<open>The node types that have a name of their own.\<close>

definition xml_types :: "node_type list" where
  "xml_types =
     [CMARK_NODE_DOCUMENT, CMARK_NODE_BLOCK_QUOTE, CMARK_NODE_LIST, CMARK_NODE_ITEM, CMARK_NODE_CODE_BLOCK,
      CMARK_NODE_HTML_BLOCK, CMARK_NODE_CUSTOM_BLOCK, CMARK_NODE_PARAGRAPH, CMARK_NODE_HEADING,
      CMARK_NODE_THEMATIC_BREAK, CMARK_NODE_TEXT, CMARK_NODE_SOFTBREAK, CMARK_NODE_LINEBREAK, CMARK_NODE_CODE,
      CMARK_NODE_HTML_INLINE, CMARK_NODE_CUSTOM_INLINE, CMARK_NODE_EMPH, CMARK_NODE_STRONG, CMARK_NODE_LINK,
      CMARK_NODE_IMAGE, CMARK_NODE_ATTRIBUTE]"

definition xml_ready :: "cmark_node \<Rightarrow> bool" where
  "xml_ready n \<longleftrightarrow> extension n = None \<and> n_type n \<in> set xml_types \<and> payload_ok (n_type n) (n_as n) \<and>
     (leaf_type (n_type n) \<longrightarrow> n_first n = None)"

definition xml_heap :: "heap \<Rightarrow> bool" where
  "xml_heap h \<longleftrightarrow> (\<forall>p n. cell h p = Some n \<longrightarrow> xml_ready n)"

lemma scan_name: "list_all name_byte s \<Longrightarrow> scan_tags (Name b n, st) s = (Name b (n @ s), st)"
  by (induction s arbitrary: n) auto

lemma start_name:
  assumes "list_all name_byte s" "s \<noteq> []"
  shows "scan_tags (Lt, st) s = (Name False s, st)"
proof (cases s)
  case (Cons c t)
  then have "name_byte c" "c \<noteq> SLASH" "c \<noteq> BANG" "c \<noteq> QUESTION" using assms by (auto simp: name_byte_def)
  then show ?thesis using assms Cons scan_name [of t False "[c]" st] by simp
qed (use assms in simp)

lemma type_name:
  assumes "cell h p = Some n" "xml_ready n"
  obtains s where "cmark_node_get_type_string env h (Some p) = Inr s" "list_all name_byte s" "s \<noteq> []" "NUL \<notin> set s"
proof -
  have "\<exists>s. cmark_node_get_type_string env h (Some p) = Inr s \<and> list_all name_byte s \<and> s \<noteq> [] \<and> NUL \<notin> set s"
    using assms(2) unfolding xml_ready_def xml_types_def list.set
    by (elim conjE insertE emptyE)
      (simp_all add: cmark_node_get_type_string_def on_node_def deref_heap [OF assms(1)] name_byte_def Let_def)
  then show ?thesis using that by blast
qed

text \<open>Attributes: from the name, or from behind an attribute, to there.\<close>

definition behind_name :: "byte list \<Rightarrow> tmode set" where
  "behind_name s = {Name False s, Attrs s False}"

definition attrs :: "emit list \<Rightarrow> bool" where
  "attrs es \<longleftrightarrow> list_all emit_ok es \<and>
     (\<forall>s st. \<forall>m \<in> behind_name s. \<exists>m' \<in> behind_name s. emit_tags es (m, st) = (m', st))"

lemma attrs_Nil [simp]: "attrs []"
  by (simp add: attrs_def)

lemma attrs_append [simp]:
  assumes "attrs es" "attrs fs"
  shows "attrs (es @ fs)"
  unfolding attrs_def
proof (intro conjI allI ballI)
  show "list_all emit_ok (es @ fs)" using assms by (simp add: attrs_def)
  fix s st m assume m: "m \<in> behind_name s"
  obtain m1 where "m1 \<in> behind_name s" "emit_tags es (m, st) = (m1, st)" using assms(1) m unfolding attrs_def by blast
  moreover from this obtain m2 where "m2 \<in> behind_name s" "emit_tags fs (m1, st) = (m2, st)"
    using assms(2) unfolding attrs_def by blast
  ultimately show "\<exists>m' \<in> behind_name s. emit_tags (es @ fs) (m, st) = (m', st)" by simp
qed

lemma attr_sourcepos [simp]: "attrs (xml_sourcepos n options)"
  using decimal_clean
  by (auto simp: xml_sourcepos_def attrs_def behind_name_def emit_tag_def foldl_append name_byte_def)

lemma attr_quoted:
  assumes "chunk_ok c" "key \<in> {''info'', ''on_enter'', ''on_exit'', ''destination'', ''title''}"
  shows "attrs (quoted_xml key c)"
  using assms by (auto simp: quoted_xml_def attrs_def behind_name_def escape_xml_def foldl_append name_byte_def)

lemma attr_decimal:
  assumes "key \<in> {'' start=\"'', '' level=\"''}"
  shows "attrs [Puts (str key @ decimal i @ [DQUOTE])]"
  using assms decimal_clean [of i] by (auto simp: attrs_def behind_name_def foldl_append name_byte_def)

lemma attr_lit:
  assumes "s \<in> {'' type=\"ordered\"'', '' delim=\"paren\"'', '' delim=\"period\"'', '' type=\"bullet\"'',
    '' tight=\"true\"'', '' tight=\"false\"'', '' xmlns=\"http://commonmark.org/xml/1.0\"''}"
  shows "attrs [lit s]"
  using assms by (auto simp: attrs_def behind_name_def foldl_append name_byte_def)

text \<open>The text of a node ends with the end tag up to its closing bracket.\<close>

definition text_then_end :: "emit list \<Rightarrow> byte list \<Rightarrow> bool" where
  "text_then_end es s \<longleftrightarrow> list_all emit_ok es \<and>
     (\<forall>st. \<forall>m \<in> behind_name s. emit_tags es (m, st) = (Name True s, s # st))"

lemma text_preserved:
  assumes "chunk_ok c" "list_all name_byte s" "NUL \<notin> set s"
  shows "text_then_end (preserved_xml c s) s"
proof -
  have "scan_tags (Name True [], st) s = (Name True s, st)" for st using scan_name [OF assms(2), of True "[]" st] by simp
  then show ?thesis using assms
    by (auto simp: text_then_end_def behind_name_def preserved_xml_def escape_xml_def name_byte_def)
qed

lemma attrs_then_text:
  assumes "attrs es" "text_then_end fs s"
  shows "text_then_end (es @ fs) s"
  unfolding text_then_end_def
proof (intro conjI allI ballI)
  show "list_all emit_ok (es @ fs)" using assms by (simp add: attrs_def text_then_end_def)
  fix st m assume "m \<in> behind_name s"
  then obtain m1 where "m1 \<in> behind_name s" "emit_tags es (m, st) = (m1, st)" using assms(1) unfolding attrs_def by blast
  then show "emit_tags (es @ fs) (m, st) = (Name True s, s # st)" using assms(2) by (simp add: text_then_end_def)
qed

lemma xml_list_ok:
  assumes c: "cell h p = Some n" and t: "n_type n = CMARK_NODE_LIST" and l: "\<not> isl (as_list (n_as n))"
  shows "\<exists>es. xml_list_attrs h p = Inr es \<and> attrs es"
proof -
  obtain l where l: "as_list (n_as n) = Inr l" using l by (cases "as_list (n_as n)") auto
  let ?o = "[lit '' type=\"ordered\"'', Puts (str '' start=\"'' @ decimal (list_start l) @ [DQUOTE])] @
             (if delimiter l = CMARK_PAREN_DELIM then [lit '' delim=\"paren\"'']
              else if delimiter l = CMARK_PERIOD_DELIM then [lit '' delim=\"period\"''] else [])"
  have o: "attrs ?o"
  proof -
    have "attrs [lit '' type=\"ordered\"'']" by (rule attr_lit) simp
    moreover have "attrs [Puts (str '' start=\"'' @ decimal (list_start l) @ [DQUOTE])]" by (rule attr_decimal) simp
    moreover have "attrs (if delimiter l = CMARK_PAREN_DELIM then [lit '' delim=\"paren\"'']
              else if delimiter l = CMARK_PERIOD_DELIM then [lit '' delim=\"period\"''] else [])"
      using attr_lit [of "'' delim=\"paren\"''"] attr_lit [of "'' delim=\"period\"''"] by (cases "delimiter l") simp_all
    ultimately have "attrs ([lit '' type=\"ordered\"''] @ [Puts (str '' start=\"'' @ decimal (list_start l) @ [DQUOTE])] @
        (if delimiter l = CMARK_PAREN_DELIM then [lit '' delim=\"paren\"'']
              else if delimiter l = CMARK_PERIOD_DELIM then [lit '' delim=\"period\"''] else []))"
      by (intro attrs_append)
    then show ?thesis unfolding append_Cons append_Nil .
  qed
  have "attrs ((if list_type l = CMARK_ORDERED_LIST then ?o
           else if list_type l = CMARK_BULLET_LIST then [lit '' type=\"bullet\"''] else []) @
          [lit (if tight l then '' tight=\"true\"'' else '' tight=\"false\"'')])"
    by (rule attrs_append) (use o attr_lit in \<open>simp_all split: if_split\<close>)
  then show ?thesis
    using c t l by (simp add: xml_list_attrs_def cmark_node_get_list_type_def cmark_node_get_list_start_def
        cmark_node_get_list_delim_def cmark_node_get_list_tight_def get_list_field_def on_node_def deref_heap)
qed

lemma payload_get:
  assumes "payload_ok t a" "m \<in> set (chunk_members t)"
  obtains c where "get_chunk m a = Inr c" "chunk_ok c"
  using payload_chunk [OF assms] unfolding chunk_at_ok_iff by blast

lemma xml_body_ok:
  assumes c: "cell h p = Some n" and r: "xml_ready n" and s: "list_all name_byte s" "NUL \<notin> set s"
  shows "(\<exists>es. xml_body h p n s = Inr (es, False) \<and> attrs es) \<or>
    (n_first n = None \<and> (\<exists>es. xml_body h p n s = Inr (es, True) \<and> text_then_end es s))"
proof -
  have po: "payload_ok (n_type n) (n_as n)" and lf: "leaf_type (n_type n) \<Longrightarrow> n_first n = None"
    using r by (simp_all add: xml_ready_def)
  consider "n_type n = CMARK_NODE_DOCUMENT"
    | "n_type n \<in> {CMARK_NODE_TEXT, CMARK_NODE_CODE, CMARK_NODE_HTML_BLOCK, CMARK_NODE_HTML_INLINE}"
    | "n_type n = CMARK_NODE_LIST" | "n_type n = CMARK_NODE_HEADING" | "n_type n = CMARK_NODE_CODE_BLOCK"
    | "n_type n \<in> {CMARK_NODE_CUSTOM_BLOCK, CMARK_NODE_CUSTOM_INLINE}"
    | "n_type n \<in> {CMARK_NODE_LINK, CMARK_NODE_IMAGE}"
    | "n_type n \<notin> {CMARK_NODE_DOCUMENT, CMARK_NODE_TEXT, CMARK_NODE_CODE, CMARK_NODE_HTML_BLOCK, CMARK_NODE_HTML_INLINE,
        CMARK_NODE_LIST, CMARK_NODE_HEADING, CMARK_NODE_CODE_BLOCK, CMARK_NODE_CUSTOM_BLOCK, CMARK_NODE_CUSTOM_INLINE,
        CMARK_NODE_LINK, CMARK_NODE_IMAGE}"
    by blast
  then show ?thesis
  proof cases
    case 1
    then show ?thesis using attr_lit by (simp add: xml_body_def)
  next
    case 2
    have mem: "M_literal \<in> set (chunk_members (n_type n))" using 2 by (auto simp: chunk_members_def)
    obtain ch where "get_chunk M_literal (n_as n) = Inr ch" "chunk_ok ch" by (rule payload_get [OF po mem])
    moreover have "n_first n = None" using 2 by (intro lf) (auto simp: leaf_type_def)
    moreover have "xml_body h p n s = bindr (get_chunk M_literal (n_as n)) (\<lambda>c. Inr (preserved_xml c s, True))"
      using 2 by (auto simp: xml_body_def)
    ultimately show ?thesis using text_preserved [OF _ s] by simp
  next
    case 3
    then show ?thesis using xml_list_ok [OF c 3] po by (auto simp: xml_body_def payload_ok_def)
  next
    case 4
    then obtain hd where "as_heading (n_as n) = Inr hd" using po by (cases "as_heading (n_as n)") (auto simp: payload_ok_def)
    then show ?thesis using 4 attr_decimal [of "'' level=\"''" "level hd"] by (simp add: xml_body_def)
  next
    case 5
    have mem: "M_code_info \<in> set (chunk_members (n_type n))" "M_code_literal \<in> set (chunk_members (n_type n))"
      using 5 by (simp_all add: chunk_members_def)
    obtain i l where i: "get_chunk M_code_info (n_as n) = Inr i" "chunk_ok i"
      and l: "get_chunk M_code_literal (n_as n) = Inr l" "chunk_ok l"
      using payload_get [OF po mem(1)] payload_get [OF po mem(2)] by metis
    have "n_first n = None" using 5 by (intro lf) (auto simp: leaf_type_def)
    moreover have "attrs (if ch_len i > 0 then quoted_xml ''info'' i else [])" using attr_quoted [OF i(2)] by simp
    ultimately show ?thesis
      using 5 i l attrs_then_text [OF _ text_preserved [OF l(2) s]] by (simp add: xml_body_def)
  next
    case 6
    have mem: "M_on_enter \<in> set (chunk_members (n_type n))" "M_on_exit \<in> set (chunk_members (n_type n))"
      using 6 by (auto simp add: chunk_members_def)
    obtain i l where i: "get_chunk M_on_enter (n_as n) = Inr i" "chunk_ok i"
      and l: "get_chunk M_on_exit (n_as n) = Inr l" "chunk_ok l"
      using payload_get [OF po mem(1)] payload_get [OF po mem(2)] by metis
    have "xml_body h p n s = Inr (quoted_xml ''on_enter'' i @ quoted_xml ''on_exit'' l, False)"
      using 6 i l by (auto simp: xml_body_def)
    then show ?thesis using attr_quoted [OF i(2)] attr_quoted [OF l(2)] by simp
  next
    case 7
    have mem: "M_link_url \<in> set (chunk_members (n_type n))" "M_link_title \<in> set (chunk_members (n_type n))"
      using 7 by (auto simp add: chunk_members_def)
    obtain i l where i: "get_chunk M_link_url (n_as n) = Inr i" "chunk_ok i"
      and l: "get_chunk M_link_title (n_as n) = Inr l" "chunk_ok l"
      using payload_get [OF po mem(1)] payload_get [OF po mem(2)] by metis
    have "xml_body h p n s = Inr (quoted_xml ''destination'' i @ quoted_xml ''title'' l, False)"
      using 7 i l by (auto simp: xml_body_def)
    then show ?thesis using attr_quoted [OF i(2)] attr_quoted [OF l(2)] by simp
  next
    case 8
    then show ?thesis by (simp add: xml_body_def)
  qed
qed

abbreviation xml_visits :: "node_env \<Rightarrow> xml_env \<Rightarrow> heap \<Rightarrow> 32 word \<Rightarrow> int \<Rightarrow> (bool \<times> nptr) list \<Rightarrow> (int \<times> emit list) res" where
  "xml_visits env xenv h options \<equiv> visit_all (\<lambda>i ev p. S_render_node_xml env xenv h p ev i options)"

interpretation xml: event_renderer h "\<lambda>i ev p. S_render_node_xml env xenv h p ev i options"
  "\<lambda>fuel. xml_loop fuel env xenv h options" for env xenv h options
  by unfold_locales auto

lemma quiet_indent: "quiet (indent_xml i) ns ns"
proof -
  have "list_all emit_ok (replicate k (Putc SPACE)) \<and> emit_tags (replicate k (Putc SPACE)) (Text, st) = (Text, st)" for k st
    by (induction k) auto
  then show ?thesis by (simp add: quiet_def indent_xml_def)
qed

text \<open>What entering and leaving a node contributes.\<close>

definition xml_does :: "node_env \<Rightarrow> xml_env \<Rightarrow> heap \<Rightarrow> 32 word \<Rightarrow> (bool \<times> nptr) list \<Rightarrow> byte list list \<Rightarrow> byte list list \<Rightarrow> bool" where
  "xml_does env xenv h options vs ns ms \<longleftrightarrow>
     (\<forall>i. \<exists>j es. xml_visits env xenv h options i vs = Inr (j, es) \<and> quiet es ns ms)"

lemma xml_does_append:
  assumes "xml_does env xenv h options vs ns ms" "xml_does env xenv h options ws ms ks"
  shows "xml_does env xenv h options (vs @ ws) ns ks"
  unfolding xml_does_def
proof
  fix i
  obtain j es where a: "xml_visits env xenv h options i vs = Inr (j, es)" "quiet es ns ms"
    using assms(1) unfolding xml_does_def by blast
  obtain k fs where b: "xml_visits env xenv h options j ws = Inr (k, fs)" "quiet fs ms ks"
    using assms(2) unfolding xml_does_def by blast
  show "\<exists>j es. xml_visits env xenv h options i (vs @ ws) = Inr (j, es) \<and> quiet es ns ks"
    using visit_all_append [OF a(1) b(1)] quiet_append [OF a(2) b(2)] by blast
qed

lemma xml_does_frame: "xml_does env xenv h options vs ns ms \<Longrightarrow> xml_does env xenv h options vs (ns @ st) (ms @ st)"
  unfolding xml_does_def using quiet_frame by blast

lemma xml_does_concat:
  assumes "\<And>t. t \<in> set ts \<Longrightarrow> xml_does env xenv h options (f t) [] []"
  shows "xml_does env xenv h options (concat (map f ts)) [] []"
  using assms
proof (induction ts)
  case (Cons t ts)
  then have "xml_does env xenv h options (f t @ concat (map f ts)) [] []" by (intro xml_does_append) auto
  then show ?case by simp
qed (simp add: xml_does_def)

lemma xml_enter:
  assumes c: "cell h p = Some n" and r: "xml_ready n"
    and s: "cmark_node_get_type_string env h (Some p) = Inr s" "list_all name_byte s" "s \<noteq> []" "NUL \<notin> set s"
  shows "xml_does env xenv h options [(True, p)] [] (if n_first n = None then [] else [s])"
  unfolding xml_does_def
proof
  fix i
  have ext: "xml_extension_attrs xenv h p n = []" using r by (simp add: xml_extension_attrs_def xml_ready_def)
  obtain body literal where b: "xml_body h p n s = Inr (body, literal)"
    "\<not> literal \<and> attrs body \<or> literal \<and> n_first n = None \<and> text_then_end body s"
    using xml_body_ok [OF c r s(2,4)] by blast
  let ?es = "xml_sourcepos n options @ body"
  let ?tail = "(if n_first n = None \<and> \<not> literal then [lit '' /''] else []) @ [Puts (str ''>'' @ [LF])]"
  have step: "S_render_node_xml env xenv h p CMARK_EVENT_ENTER i options =
      Inr (if n_first n \<noteq> None then i + 2 else i, indent_xml i @ [Putc LESS_THAN, Puts s] @ ?es @ ?tail)"
    using s(1) b(1) ext by (simp add: S_render_node_xml_def deref_heap [OF c])
  have st: "emit_tags [Putc LESS_THAN, Puts s] (Text, st) = (Name False s, st)" for st
    using start_name [OF s(2,3)] by simp
  have sp: "attrs (xml_sourcepos n options)" by simp
  have "quiet ([Putc LESS_THAN, Puts s] @ ?es @ ?tail) [] (if n_first n = None then [] else [s])"
  proof (cases literal)
    case True
    then have t: "text_then_end ?es s" "n_first n = None" using b(2) attrs_then_text [OF sp] by auto
    have "emit_tags ?es (Name False s, st) = (Name True s, s # st)" for st
      using t(1) by (simp add: text_then_end_def behind_name_def)
    moreover have "emit_tags ?tail (Name True s, s # st) = (Text, st)" for st
      using True by (simp add: name_byte_def)
    moreover have "list_all emit_ok ?es" using t(1) by (simp add: text_then_end_def)
    ultimately show ?thesis using st s(4) t(2) by (simp add: quiet_def)
  next
    case False
    then have a: "attrs ?es" using b(2) sp by simp
    have "emit_tags (?es @ ?tail) (Name False s, st) = (Text, (if n_first n = None then [] else [s]) @ st)" for st
    proof -
      obtain m where "m \<in> behind_name s" "emit_tags ?es (Name False s, st) = (m, st)"
        using a unfolding attrs_def behind_name_def by blast
      then show ?thesis using False by (auto simp: behind_name_def name_byte_def)
    qed
    moreover have "list_all emit_ok ?es" using a by (simp add: attrs_def)
    ultimately show ?thesis using st s(4) False by (simp add: quiet_def)
  qed
  then have "quiet (indent_xml i @ [Putc LESS_THAN, Puts s] @ ?es @ ?tail) [] (if n_first n = None then [] else [s])"
    using quiet_append [OF quiet_indent] by blast
  then show "\<exists>j es. xml_visits env xenv h options i [(True, p)] = Inr (j, es) \<and>
      quiet es [] (if n_first n = None then [] else [s])"
    using step by (simp add: event_of_def)
qed

lemma xml_leave:
  assumes c: "cell h p = Some n"
    and s: "cmark_node_get_type_string env h (Some p) = Inr s" "list_all name_byte s" "NUL \<notin> set s"
  shows "xml_does env xenv h options [(False, p)] (if n_first n = None then [] else [s]) []"
  unfolding xml_does_def
proof
  fix i
  have "scan_tags (Name True [], st) s = (Name True s, st)" for st using scan_name [OF s(2), of True "[]" st] by simp
  then have "quiet [lit ''</'', Puts s, Puts (str ''>'' @ [LF])] [s] []"
    using s(3) by (simp add: quiet_def name_byte_def)
  then have "quiet (indent_xml (i - 2) @ [lit ''</'', Puts s, Puts (str ''>'' @ [LF])]) [s] []"
    using quiet_append [OF quiet_indent] by blast
  then show "\<exists>j es. xml_visits env xenv h options i [(False, p)] = Inr (j, es) \<and>
      quiet es (if n_first n = None then [] else [s]) []"
    using s(1) by (cases "n_first n") (simp_all add: S_render_node_xml_def deref_heap [OF c] event_of_def)
qed

lemma xml_tree:
  assumes ln: "links h kids" and hh: "xml_heap h"
  shows "tree_at kids t \<Longrightarrow> live (view h) (ntree_root t) \<Longrightarrow> xml_does env xenv h options (visits (node_leaf h) t) [] []"
proof (induction t)
  case (NTree p ts)
  have p: "live (view h) p" using NTree.prems(2) by simp
  let ?n = "the_node h p"
  have c: "cell h p = Some ?n" using node_live(7) [OF p] .
  have r: "xml_ready ?n" using hh c by (simp add: xml_heap_def)
  obtain s where s: "cmark_node_get_type_string env h (Some p) = Inr s" "list_all name_byte s" "s \<noteq> []" "NUL \<notin> set s"
    by (rule type_name [OF c r])
  note en = xml_enter [OF c r s] and le = xml_leave [OF c s(1,2,4)]
  show ?case
  proof (cases "node_leaf h p")
    case True
    then have "n_first ?n = None" using r by (simp add: node_leaf_def xml_ready_def)
    then show ?thesis using True en by simp
  next
    case False
    have kids: "xml_does env xenv h options (concat (map (visits (node_leaf h)) ts)) [] []"
    proof (rule xml_does_concat)
      fix t assume t: "t \<in> set ts"
      have "ntree_root t \<in> set (preorder (NTree p ts))" using t by (auto intro!: bexI [of _ t])
      then have "live (view h) (ntree_root t)" using tree_at_live [OF ln NTree.prems(1,2)] by blast
      then show "xml_does env xenv h options (visits (node_leaf h) t) [] []"
        using NTree.IH [OF t] NTree.prems(1) t by (auto simp: list_all_iff)
    qed
    have "xml_does env xenv h options ([(True, p)] @ concat (map (visits (node_leaf h)) ts) @ [(False, p)]) [] []"
      by (rule xml_does_append [OF en], rule xml_does_append [OF _ le])
        (use xml_does_frame [OF kids] in fastforce)
    then show ?thesis using False by simp
  qed
qed

text \<open>What the calls write is what is returned.\<close>

lemma xml_renders:
  assumes it: "cmark_iter_new h (Some p) = Inr (Some iter)" "iter_events fuel h iter = Inr (map event_of vs)"
    and b: "xml_visits env xenv h options 0 vs = Inr (j, es)" "list_all emit_ok es" and p: "live (view h) p"
  shows "renders (emits_out (xml_prolog @ es) []) (cmark_render_xml fuel env xenv h (Some p) options)"
proof -
  let ?out = "emits_out (xml_prolog @ es) []" and ?m = "mem (n_content (the_node h p))"
  have pro: "list_all emit_ok xml_prolog" by (simp add: xml_prolog_def)
  have e: "output_buf ?m (strbuf_empty ?m)" "contents (strbuf_empty ?m) = []"
    using strbuf_empty_ok [of ?m] by (simp_all add: output_buf_def strbuf_good_def strbuf_ok_def)
  have w: "writes ?m (emits_out xml_prolog []) (each run_emit xml_prolog (strbuf_empty ?m))"
    using emits_writes [OF e(1) pro] e(2) by simp
  have "renders ?out (bindr (xml_loop fuel env xenv h options iter (0, xml)) (\<lambda>(indent, xml).
      bindr (cmark_strbuf_detach xml) (\<lambda>(result, _). Inr result)))"
    if xml: "output_buf ?m xml" "contents xml = emits_out xml_prolog []" for xml
    using xml(2) by (intro xml.loop_then [OF it(2) b(1) xml(1) b(2) _ order_refl]) (simp_all add: detach_renders)
  then have "renders ?out (bindr (each run_emit xml_prolog (strbuf_empty ?m)) (\<lambda>xml.
      bindr (xml_loop fuel env xenv h options iter (0, xml)) (\<lambda>(indent, xml).
      bindr (cmark_strbuf_detach xml) (\<lambda>(result, _). Inr result))))"
    using emits_out_length [of "emits_out xml_prolog []" es] by (intro writes_renders [OF w]) simp_all
  then show ?thesis
    using it(1) node_live(1) [OF p]
    by (simp add: cmark_render_xml_def cmark_render_xml_with_mem_def deref_opt_def)
qed

section \<open>Footnotes have no name\<close>

definition xml_note :: "cmark_node \<Rightarrow> bool" where
  "xml_note n \<longleftrightarrow> extension n = None \<and>
     n_type n \<in> {CMARK_NODE_FOOTNOTE_DEFINITION, CMARK_NODE_FOOTNOTE_REFERENCE}"

definition unknown_tag :: "emit list" where
  "unknown_tag = [Putc LESS_THAN, Puts (str ''<unknown>'')]"

lemma note_step:
  assumes "cell h p = Some n" "xml_note n"
  shows "\<exists>j fs gs. S_render_node_xml env xenv h p ev i options = Inr (j, fs @ gs) \<and> list_all emit_ok (fs @ gs) \<and>
    (ev = CMARK_EVENT_ENTER \<longrightarrow> (\<exists>ind. fs = ind @ unknown_tag))"
proof -
  have s: "cmark_node_get_type_string env h (Some p) = Inr (str ''<unknown>'')"
    using assms by (auto simp: xml_note_def cmark_node_get_type_string_def on_node_def deref_heap Let_def)
  have body: "xml_body h p n (str ''<unknown>'') = Inr ([], False)" using assms(2) by (auto simp: xml_note_def xml_body_def)
  have ext: "xml_extension_attrs xenv h p n = []" using assms(2) by (simp add: xml_note_def xml_extension_attrs_def)
  have ind: "list_all emit_ok (indent_xml k)" for k using quiet_indent [of k "[]"] by (simp add: quiet_def)
  have sp: "list_all emit_ok (xml_sourcepos n options)" using attr_sourcepos by (simp add: attrs_def)
  show ?thesis
  proof (cases "ev = CMARK_EVENT_ENTER")
    case True
    have "S_render_node_xml env xenv h p ev i options = Inr (if n_first n \<noteq> None then i + 2 else i,
        (indent_xml i @ unknown_tag) @ xml_sourcepos n options @
        (if n_first n = None then [lit '' /''] else []) @ [Puts (str ''>'' @ [LF])])"
      using True s body ext by (simp add: S_render_node_xml_def deref_heap [OF assms(1)] unknown_tag_def)
    moreover have "list_all emit_ok ((indent_xml i @ unknown_tag) @ xml_sourcepos n options @
        (if n_first n = None then [lit '' /''] else []) @ [Puts (str ''>'' @ [LF])])"
      using ind sp by (simp add: unknown_tag_def)
    ultimately show ?thesis by blast
  next
    case False
    have "\<exists>j es. S_render_node_xml env xenv h p ev i options = Inr (j, es) \<and> list_all emit_ok es"
      using False s ind by (cases "n_first n = None") (simp_all add: S_render_node_xml_def deref_heap [OF assms(1)])
    then show ?thesis using False by (metis append_Nil)
  qed
qed

lemma ready_step:
  assumes "cell h p = Some n" "xml_ready n"
  shows "\<exists>j es. S_render_node_xml env xenv h p (fst (event_of (b, p))) i options = Inr (j, es) \<and> list_all emit_ok es"
proof -
  obtain s where s: "cmark_node_get_type_string env h (Some p) = Inr s" "list_all name_byte s" "s \<noteq> []" "NUL \<notin> set s"
    by (rule type_name [OF assms])
  have "\<exists>ns ms. xml_does env xenv h options [(b, p)] ns ms"
  proof (cases b)
    case True
    then show ?thesis using xml_enter [OF assms s, of xenv options] by auto
  next
    case False
    then show ?thesis using xml_leave [OF assms(1) s(1,2,4), of xenv options] by auto
  qed
  then obtain ns ms where "xml_does env xenv h options [(b, p)] ns ms" by blast
  then obtain j es where "xml_visits env xenv h options i [(b, p)] = Inr (j, es)" "quiet es ns ms"
    unfolding xml_does_def by blast
  then show ?thesis
    by (cases "S_render_node_xml env xenv h p (fst (event_of (b, p))) i options") (auto simp: quiet_def)
qed

lemma note_visits:
  assumes "\<forall>v \<in> set vs. \<exists>n. cell h (snd v) = Some n \<and> (xml_ready n \<or> xml_note n)"
  shows "\<exists>j es. xml_visits env xenv h options i vs = Inr (j, es) \<and> list_all emit_ok es \<and>
    ((\<exists>q n. (True, q) \<in> set vs \<and> cell h q = Some n \<and> xml_note n) \<longrightarrow> (\<exists>fs gs. es = fs @ unknown_tag @ gs))"
  using assms
proof (induction vs arbitrary: i)
  case (Cons v vs)
  obtain b p where v: "v = (b, p)" by (cases v)
  then obtain n where n: "cell h p = Some n" "xml_ready n \<or> xml_note n" using Cons.prems by auto
  have "\<exists>j fs gs. S_render_node_xml env xenv h p (fst (event_of v)) i options = Inr (j, fs @ gs) \<and>
      list_all emit_ok (fs @ gs) \<and> (b \<and> xml_note n \<longrightarrow> (\<exists>ind. fs = ind @ unknown_tag))"
  proof (cases "xml_note n")
    case True
    have "fst (event_of v) = CMARK_EVENT_ENTER" if b using that v by (simp add: event_of_def)
    then show ?thesis using note_step [OF n(1) True, of env xenv "fst (event_of v)" i options] by blast
  next
    case False
    then show ?thesis
      using ready_step [OF n(1), of env xenv b i options] n(2) v by (metis append_Nil)
  qed
  then obtain j fs gs where s: "S_render_node_xml env xenv h p (fst (event_of v)) i options = Inr (j, fs @ gs)"
    "list_all emit_ok (fs @ gs)" "b \<and> xml_note n \<longrightarrow> (\<exists>ind. fs = ind @ unknown_tag)" by blast
  obtain k es where r: "xml_visits env xenv h options j vs = Inr (k, es)" "list_all emit_ok es"
    "(\<exists>q n. (True, q) \<in> set vs \<and> cell h q = Some n \<and> xml_note n) \<longrightarrow> (\<exists>fs gs. es = fs @ unknown_tag @ gs)"
    using Cons.IH [of j] Cons.prems by auto
  have "xml_visits env xenv h options i (v # vs) = Inr (k, (fs @ gs) @ es)" using s(1) r(1) v by simp
  moreover have "\<exists>as bs. (fs @ gs) @ es = as @ unknown_tag @ bs"
    if "(True, q) \<in> set (v # vs)" "cell h q = Some n'" "xml_note n'" for q n'
  proof (cases "(True, q) = v")
    case True
    then have "b" "xml_note n" using that v n(1) by auto
    then obtain ind where "fs = ind @ unknown_tag" using s(3) by blast
    then have "(fs @ gs) @ es = ind @ unknown_tag @ (gs @ es)" by simp
    then show ?thesis by blast
  next
    case False
    then have "(True, q) \<in> set vs" using that(1) by auto
    with that(2,3) r(3) obtain as bs where "es = as @ unknown_tag @ bs" by blast
    then have "(fs @ gs) @ es = (fs @ gs @ as) @ unknown_tag @ bs" by simp
    then show ?thesis by blast
  qed
  moreover have "list_all emit_ok ((fs @ gs) @ es)" using s(2) r(2) by simp
  ultimately show ?case by blast
qed simp

lemma unknown_out: "\<exists>as bs. emits_out (fs @ unknown_tag @ gs) o' = as @ str ''<<unknown>'' @ bs"
proof -
  have "emits_out (fs @ unknown_tag @ gs) o' = emits_out gs (emits_out fs o' @ str ''<<unknown>'')"
    by (simp add: unknown_tag_def)
  then show ?thesis using emits_out_prefix [of gs "emits_out fs o' @ str ''<<unknown>''"] by auto
qed

section \<open>Properties\<close>

text \<open>
  C12: XML.  A tree of the core node types (but the footnotes) is rendered to XML without a fault, by
  the calls that \<open>S_render_node\<close> makes for entering and leaving its nodes in document order, after at
  most twice as many steps as there are nodes.  The prolog and the bytes written are well nested tags
  and text, whatever the texts, URLs and titles of the nodes are.  Exactly these bytes are returned as a
  C string; the program stops only if they do not fit into a buffer.
\<close>

theorem xml_well_nested:
  assumes "forest h kids" "xml_heap h" "live (view h) p" "tree_at kids t" "ntree_root t = p"
  shows "\<exists>indent es out. visit_all (\<lambda>i ev q. S_render_node_xml env xenv h q ev i options) 0
      (visits (node_leaf h) t) = Inr (indent, es) \<and> out = emits_out (xml_prolog @ es) [] \<and> well_nested out \<and>
    (\<forall>fuel > 2 * length h. renders out (cmark_render_xml fuel env xenv h (Some p) options))"
proof -
  have ln: "links h kids" using assms(1) by (simp add: forest_def)
  obtain iter where it: "cmark_iter_new h (Some p) = Inr (Some iter)"
    "\<forall>fuel > 2 * length h. iter_events fuel h iter = Inr (map event_of (visits (node_leaf h) t))"
    using iterator_visits [OF assms(1,4,5,3)] by blast
  obtain j es where b: "xml_visits env xenv h options 0 (visits (node_leaf h) t) = Inr (j, es)" "quiet es [] []"
    using xml_tree [OF ln assms(2,4)] assms(3,5) unfolding xml_does_def by blast
  have pro: "quiet xml_prolog [] []" by (simp add: quiet_def xml_prolog_def)
  have "well_nested (emits_out (xml_prolog @ es) [])" using quiet_well_nested [OF quiet_append [OF pro b(2)]] .
  moreover have "list_all emit_ok es" using b(2) by (simp add: quiet_def)
  ultimately show ?thesis using xml_renders [OF it(1) it(2) [rule_format] b(1) _ assms(3)] b(1) by blast
qed

definition xml_sample :: heap where
  "xml_sample =
     [Some ((sample_node CMARK_NODE_DOCUMENT As_zero)\<lparr>n_first := Some 1, n_last := Some 1\<rparr>),
      Some ((sample_node CMARK_NODE_PARAGRAPH As_zero)\<lparr>n_parent := Some 0, n_first := Some 2, n_last := Some 2\<rparr>),
      Some ((sample_node CMARK_NODE_TEXT (literal_of ''a<b''))\<lparr>n_parent := Some 1\<rparr>)]"

theorem xml_well_nested_witness:
  "\<exists>out rest. cmark_render_xml 7 sample_env (\<lambda>_. None) xml_sample (Some 0) 0 = Inr (out @ NUL # rest) \<and>
     well_nested out \<and>
     drop 83 out = str ''<document xmlns=\"http://commonmark.org/xml/1.0\">'' @ [LF] @ str ''  <paragraph>'' @ [LF] @
       str ''    <text xml:space=\"preserve\">a&lt;b</text>'' @ [LF] @ str ''  </paragraph>'' @ [LF] @ str ''</document>'' @ [LF]"
proof -
  have "check_forest xml_sample [[1], [2], []]" by code_simp
  note f = check_forest [OF this]
  let ?t = "NTree 0 [NTree 1 [NTree 2 []]]"
  let ?doc = "str ''<document xmlns=\"http://commonmark.org/xml/1.0\">'' @ [LF] @ str ''  <paragraph>'' @ [LF] @
       str ''    <text xml:space=\"preserve\">a&lt;b</text>'' @ [LF] @ str ''  </paragraph>'' @ [LF] @ str ''</document>'' @ [LF]"
  have t: "tree_at (kids_of [[1], [2], []]) ?t" "ntree_root ?t = 0" by code_simp+
  have "all_nodes xml_ready xml_sample" by code_simp
  then have x: "xml_heap xml_sample" by (auto simp: xml_heap_def dest: all_nodesD)
  have "live (view xml_sample) 0" "length xml_sample = 3" by (simp_all add: view_def cell_def xml_sample_def)
  then obtain i es out where o: "visit_all (\<lambda>i ev q. S_render_node_xml sample_env (\<lambda>_. None) xml_sample q ev i 0) 0
      (visits (node_leaf xml_sample) ?t) = Inr (i, es)"
    "out = emits_out (xml_prolog @ es) []" "well_nested out"
    "renders out (cmark_render_xml 7 sample_env (\<lambda>_. None) xml_sample (Some 0) 0)"
    using xml_well_nested [OF f x _ t, of sample_env "\<lambda>_. None" 0] by fastforce
  have "case visit_all (\<lambda>i ev q. S_render_node_xml sample_env (\<lambda>_. None) xml_sample q ev i 0) 0
      (visits (node_leaf xml_sample) ?t) of
      Inr (i, es) \<Rightarrow> drop 83 (emits_out (xml_prolog @ es) []) = ?doc \<and> length (emits_out (xml_prolog @ es) []) < 300
    | Inl _ \<Rightarrow> False"
    by code_simp
  then have l: "drop 83 out = ?doc \<and> length out < 300" unfolding o(1,2) sum.case prod.case .
  then have "int (length out) \<le> grow_limit" by (simp add: grow_limit_def INT32_MAX_def)
  then show ?thesis using renders_small [OF o(4)] o(3) l by blast
qed

text \<open>
  C37: A footnote has no type name: in a document of the core node types, with footnotes, the rendering
  to XML writes \<open>&lt;&lt;unknown&gt;\<close> when it enters a footnote definition or a footnote reference, and returns
  a text with it, which is not well-formed (unless the text does not fit into a buffer).
\<close>

theorem xml_footnote_malformed:
  assumes "forest h kids" "\<forall>q n. cell h q = Some n \<longrightarrow> xml_ready n \<or> xml_note n" "live (view h) p"
    and "tree_at kids t" "ntree_root t = p"
    and "(True, q) \<in> set (visits (node_leaf h) t)" "cell h q = Some n" "xml_note n"
  shows "\<exists>indent es xs ys. visit_all (\<lambda>i ev q. S_render_node_xml env xenv h q ev i options) 0
      (visits (node_leaf h) t) = Inr (indent, es) \<and>
    emits_out (xml_prolog @ es) [] = xs @ str ''<<unknown>'' @ ys \<and>
    (\<forall>fuel > 2 * length h.
       renders (xs @ str ''<<unknown>'' @ ys) (cmark_render_xml fuel env xenv h (Some p) options))"
proof -
  have ln: "links h kids" using assms(1) by (simp add: forest_def)
  obtain iter where it: "cmark_iter_new h (Some p) = Inr (Some iter)"
    "\<forall>fuel > 2 * length h. iter_events fuel h iter = Inr (map event_of (visits (node_leaf h) t))"
    using iterator_visits [OF assms(1,4,5,3)] by blast
  have "\<exists>n. cell h (snd v) = Some n \<and> (xml_ready n \<or> xml_note n)" if v: "v \<in> set (visits (node_leaf h) t)" for v
  proof -
    have "snd v \<in> set (preorder t)" using v visits_preorder [of "fst v" "snd v"] by simp
    then have "live (view h) (snd v)" using tree_at_live [OF ln assms(4)] assms(3,5) by simp
    then show ?thesis using node_live(7) assms(2) by blast
  qed
  then obtain j es where es: "xml_visits env xenv h options 0 (visits (node_leaf h) t) = Inr (j, es)"
    "list_all emit_ok es" "\<exists>fs gs. es = fs @ unknown_tag @ gs"
    using note_visits [of "visits (node_leaf h) t" h env xenv options 0] assms(6-8) by blast
  then obtain xs ys where o: "emits_out (xml_prolog @ es) [] = xs @ str ''<<unknown>'' @ ys"
    using unknown_out [of "xml_prolog @ fs" gs "[]" for fs gs] by (metis append.assoc)
  have "renders (emits_out (xml_prolog @ es) []) (cmark_render_xml fuel env xenv h (Some p) options)"
    if "fuel > 2 * length h" for fuel
    using xml_renders [OF it(1) it(2) [rule_format, OF that] es(1,2) assms(3)] .
  then have r: "\<forall>fuel > 2 * length h.
      renders (xs @ str ''<<unknown>'' @ ys) (cmark_render_xml fuel env xenv h (Some p) options)"
    unfolding o by blast
  show ?thesis by (intro exI conjI, rule es(1), rule o, rule r)
qed

theorem xml_footnote_malformed_witness:
  "\<exists>xs ys rest. cmark_render_xml 11 sample_env (\<lambda>_. None) note_sample (Some 0) 0 =
     Inr ((xs @ str ''<<unknown>'' @ ys) @ NUL # rest)"
proof -
  have "check_forest note_sample [[1, 3], [2], [], [4], []]" by code_simp
  note f = check_forest [OF this]
  let ?t = "NTree 0 [NTree 1 [NTree 2 []], NTree 3 [NTree 4 []]]" and ?n = "the_node note_sample 3"
  let ?v = "visit_all (\<lambda>i ev q. S_render_node_xml sample_env (\<lambda>_. None) note_sample q ev i 0) 0
    (visits (node_leaf note_sample) ?t)"
  have t: "tree_at (kids_of [[1, 3], [2], [], [4], []]) ?t" "ntree_root ?t = 0" by code_simp+
  have "all_nodes (\<lambda>n. xml_ready n \<or> xml_note n) note_sample" by code_simp
  then have x: "\<forall>q n. cell note_sample q = Some n \<longrightarrow> xml_ready n \<or> xml_note n" by (auto dest: all_nodesD)
  have v: "(True, 3) \<in> set (visits (node_leaf note_sample) ?t)" by code_simp
  have "live (view note_sample) 0" "cell note_sample 3 = Some ?n" "xml_note ?n" "length note_sample = 5"
    by (simp_all add: view_def cell_def note_sample_def the_node_def xml_note_def sample_node_def node_zero_def)
  then obtain i es xs ys where o: "?v = Inr (i, es)" "emits_out (xml_prolog @ es) [] = xs @ str ''<<unknown>'' @ ys"
    "renders (xs @ str ''<<unknown>'' @ ys) (cmark_render_xml 11 sample_env (\<lambda>_. None) note_sample (Some 0) 0)"
    using xml_footnote_malformed [OF f x _ t v, of ?n sample_env "\<lambda>_. None" 0] by fastforce
  have "case ?v of Inr (i, es) \<Rightarrow> length (emits_out (xml_prolog @ es) []) < 1000 | Inl _ \<Rightarrow> False" by code_simp
  then have "length (xs @ str ''<<unknown>'' @ ys) < 1000" unfolding o(1) sum.case prod.case o(2) .
  then have "int (length (xs @ str ''<<unknown>'' @ ys)) \<le> grow_limit" unfolding grow_limit_def INT32_MAX_def by linarith
  then show ?thesis using renders_small [OF o(3)] by blast
qed

end
