(* ===== verification/Tagfilter.thy ===== *)
theory Tagfilter
  imports Html_Nesting
begin

text \<open>
  The tag filter, src/extensions/tagfilter.c, and what the HTML renderer makes of an HTML block with
  it: no tag of the list is left in the output.
\<close>

section \<open>The code\<close>

definition blacklist :: "string list" where
  "blacklist = [''title'', ''textarea'', ''style'', ''xmp'', ''iframe'', ''noembed'', ''noframes'', ''script'', ''plaintext'']"

text \<open>\<open>tolower\<close> in the C locale.\<close>

definition tolower :: "byte \<Rightarrow> byte" where
  "tolower c = lower c"

text \<open>The loop over the name: \<open>None\<close> is \<open>return 0\<close>, \<open>Some i\<close> the index where it is left.\<close>

fun match_name :: "byte list \<Rightarrow> nat \<Rightarrow> nat \<Rightarrow> byte list \<Rightarrow> nat option" where
  "match_name tag_data tag_size i [] = Some i"
| "match_name tag_data tag_size i (c # tagname) =
     (if i < tag_size
      then if tolower (tag_data ! i) \<noteq> c then None else match_name tag_data tag_size (i + 1) tagname
      else Some i)"

definition name_ends :: "byte list \<Rightarrow> nat \<Rightarrow> nat \<Rightarrow> bool" where
  "name_ends tag_data tag_size i =
     (if i = tag_size then False
      else if cmark_isspace (tag_data ! i) \<or> tag_data ! i = GREATER_THAN then True
      else tag_data ! i = SLASH \<and> i + 2 \<le> tag_size \<and> tag_data ! (i + 1) = GREATER_THAN)"

text \<open>All accesses are below \<open>tag_size\<close>, which is the length of the data.\<close>

definition is_tag :: "byte list \<Rightarrow> string \<Rightarrow> bool" where
  "is_tag tag_data tagname =
     (let tag_size = length tag_data in
      if tag_size < 3 \<or> tag_data ! 0 \<noteq> LESS_THAN then False
      else
        let i = (if tag_data ! 1 = SLASH then 2 else 1) in
        case match_name tag_data tag_size i (str tagname) of
          None \<Rightarrow> False
        | Some i \<Rightarrow> name_ends tag_data tag_size i)"

definition tagfilter_filter :: "byte list \<Rightarrow> int \<Rightarrow> bool res" where
  "tagfilter_filter tag len =
     bindr (read_range tag len) (\<lambda>tag. Inr (\<not> list_ex (is_tag tag) blacklist))"

section \<open>What is filtered\<close>

text \<open>A disallowed tag: its name in any case, as a start or an end tag, up to a space or a bracket.\<close>

definition ends_name :: "byte list \<Rightarrow> bool" where
  "ends_name s \<longleftrightarrow> (case s of [] \<Rightarrow> False
     | c # t \<Rightarrow> cmark_isspace c \<or> c = GREATER_THAN \<or> (c = SLASH \<and> t \<noteq> [] \<and> hd t = GREATER_THAN))"

fun name_then_end :: "byte list \<Rightarrow> byte list \<Rightarrow> bool" where
  "name_then_end [] s = ends_name s"
| "name_then_end (c # n) (d # s) \<longleftrightarrow> lower d = c \<and> name_then_end n s"
| "name_then_end (c # n) [] = False"

definition disallowed :: "byte list \<Rightarrow> bool" where
  "disallowed s \<longleftrightarrow> s \<noteq> [] \<and> hd s = LESS_THAN \<and>
     (let rest = (if tl s \<noteq> [] \<and> hd (tl s) = SLASH then tl (tl s) else tl s)
      in list_ex (\<lambda>n. name_then_end (str n) rest) blacklist)"

lemma ends_name_at:
  assumes that: "i \<le> length d"
  shows "name_ends d (length d) i \<longleftrightarrow> ends_name (drop i d)"
proof (cases "drop i d")
  case (Cons c t)
  then have i: "i < length d" "d ! i = c" using that by (auto simp: nth_via_drop) (metis drop_all list.simps(3) not_le)
  have t: "t = drop (Suc i) d" using Cons by (metis drop_Suc list.sel(3) tl_drop)
  have "t \<noteq> [] \<and> hd t = GREATER_THAN \<longleftrightarrow> i + 2 \<le> length d \<and> d ! (i + 1) = GREATER_THAN"
    unfolding t by (auto simp: hd_drop_conv_nth)
  then show ?thesis using Cons i by (auto simp: ends_name_def name_ends_def)
qed (use that in \<open>simp add: ends_name_def name_ends_def\<close>)

lemma match_name_eq:
  assumes "i \<le> length d"
  shows "(case match_name d (length d) i n of None \<Rightarrow> False | Some i \<Rightarrow> name_ends d (length d) i) \<longleftrightarrow> name_then_end n (drop i d)"
  using assms
proof (induction n arbitrary: i)
  case Nil
  then show ?case using ends_name_at [of i d] by simp
next
  case (Cons c n)
  show ?case
  proof (cases "i < length d")
    case True
    then have "drop i d = d ! i # drop (i + 1) d" by (simp add: Cons_nth_drop_Suc)
    then show ?thesis using Cons.IH [of "i + 1"] True by (simp add: tolower_def)
  next
    case False
    then have "drop i d = []" by simp
    then show ?thesis using False Cons.prems by (simp add: name_ends_def)
  qed
qed

lemma name_length: "name_then_end n s \<Longrightarrow> length n < length s"
  by (induction n s rule: name_then_end.induct) (auto simp: ends_name_def split: list.splits)

lemma blacklist_names: "n \<in> set blacklist \<Longrightarrow> 2 \<le> length n" "n \<in> set blacklist \<Longrightarrow> str n \<noteq> [] \<and> hd (str n) \<noteq> SLASH"
  by (auto simp: blacklist_def)

lemma is_tag_name:
  assumes "n \<in> set blacklist"
  shows "is_tag s n \<longleftrightarrow> s \<noteq> [] \<and> hd s = LESS_THAN \<and>
    name_then_end (str n) (if tl s \<noteq> [] \<and> hd (tl s) = SLASH then tl (tl s) else tl s)"
proof (cases "length s < 3 \<or> s ! 0 \<noteq> LESS_THAN")
  case True
  have "\<not> name_then_end (str n) (if tl s \<noteq> [] \<and> hd (tl s) = SLASH then tl (tl s) else tl s)" if l: "length s < 3" "s \<noteq> []"
  proof
    assume "name_then_end (str n) (if tl s \<noteq> [] \<and> hd (tl s) = SLASH then tl (tl s) else tl s)"
    from name_length [OF this] have "length n < length (if tl s \<noteq> [] \<and> hd (tl s) = SLASH then tl (tl s) else tl s)"
      by (simp add: str_def)
    also have "\<dots> \<le> 1" using l by (cases s) auto
    finally show False using blacklist_names(1) [OF assms] by simp
  qed
  then show ?thesis using True by (auto simp: is_tag_def Let_def hd_conv_nth)
next
  case False
  then obtain a b c t where s: "s = a # b # c # t" "a = LESS_THAN"
    by (cases s; cases "tl s"; cases "tl (tl s)") auto
  let ?i = "if s ! 1 = SLASH then 2 else 1"
  have "?i \<le> length s" using s by simp
  note m = match_name_eq [OF this, of "str n"]
  have d: "drop ?i s = (if tl s \<noteq> [] \<and> hd (tl s) = SLASH then tl (tl s) else tl s)" using s by simp
  have "is_tag s n \<longleftrightarrow> (case match_name s (length s) ?i (str n) of None \<Rightarrow> False | Some i \<Rightarrow> name_ends s (length s) i)"
    using False unfolding is_tag_def Let_def by simp
  then show ?thesis unfolding m d using s by simp
qed

lemma filter_disallowed: "list_ex (is_tag s) blacklist \<longleftrightarrow> disallowed s"
  using is_tag_name by (auto simp: disallowed_def list_ex_iff Let_def)

section \<open>HTML blocks with the filter\<close>

definition only_tagfilter :: "html_env \<Rightarrow> html_renderer \<Rightarrow> bool" where
  "only_tagfilter env r \<longleftrightarrow> (\<exists>e. filter_extensions r = [e] \<and> html_filter_func env e = Some tagfilter_filter)"

fun defused :: "byte list \<Rightarrow> byte list" where
  "defused [] = []"
| "defused (c # s) = (if c = LESS_THAN \<and> disallowed (c # s) then str ''&lt;'' else [c]) @ defused s"

lemma is_filtered_tags:
  assumes "only_tagfilter env r" "0 \<le> len" "len \<le> int (length data)"
  shows "is_filtered env (filter_extensions r) data len = Inr (disallowed (take (nat len) data))"
  using assms by (auto simp: only_tagfilter_def tagfilter_filter_def read_range_def filter_disallowed)

lemma defused_run: "LESS_THAN \<notin> set u \<Longrightarrow> defused (u @ s) = u @ defused s"
  by (induction u) auto

lemma filter_block:
  assumes "only_tagfilter env r" "0 \<le> len" "len \<le> int (length data)"
  shows "\<exists>es. filter_html_block env r data len = Inr es \<and> list_all emit_ok es \<and>
    (\<forall>o'. emits_out es o' = o' @ defused (take (nat len) data))"
  using assms(2,3)
proof (induction "nat len" arbitrary: data len rule: less_induct)
  case less
  show ?case
  proof (cases "len = 0")
    case True
    have "filter_html_block env r data len = Inr []" using True by (subst filter_html_block.simps) simp
    then show ?thesis using True by simp
  next
    case False
    let ?s = "take (nat len) data" and ?run = "takeWhile (\<lambda>c. c \<noteq> LESS_THAN) (take (nat len) data)"
    have run: "LESS_THAN \<notin> set ?run" using set_takeWhileD [of LESS_THAN "\<lambda>c. c \<noteq> LESS_THAN" ?s] by blast
    have ls: "length ?s = nat len" using less.prems by simp
    show ?thesis
    proof (cases "find_lt data len")
      case None
      then have "\<not> length ?run < length ?s" by (simp add: find_lt_def Let_def split: if_splits)
      then have e: "?run = ?s" by (metis length_takeWhile_le nat_less_le takeWhile_eq_take take_all_iff not_less)
      have "defused ?s = ?s" using defused_run [OF run, of "[]"] unfolding e by simp
      then show ?thesis using None False less.prems
        by (simp add: filter_html_block.simps [of env r data len] emit_ok.simps)
    next
      case (Some k)
      then have k: "k = length ?run" "k < length ?s" by (auto simp: find_lt_def Let_def split: if_splits)
      have lk: "int k < len" using find_lt_less [OF Some] .
      have sk: "?s ! k = LESS_THAN" using nth_length_takeWhile [of "\<lambda>c. c \<noteq> LESS_THAN" ?s] k by simp
      let ?d = "drop k data" and ?l = "len - int k"
      have td: "take (nat ?l) ?d = drop k ?s" using lk by (simp add: drop_take nat_diff_distrib)
      have dk: "drop k ?s = LESS_THAN # drop (Suc k) ?s" using sk k(2) Cons_nth_drop_Suc [of k ?s] by simp
      have tk: "take k ?s = ?run" using takeWhile_eq_take [of "\<lambda>c. c \<noteq> LESS_THAN" ?s] k(1) by simp
      have split: "?s = ?run @ LESS_THAN # drop (Suc k) ?s" using dk tk append_take_drop_id [of k ?s] by metis
      have f: "is_filtered env (filter_extensions r) ?d ?l = Inr (disallowed (drop k ?s))"
        using is_filtered_tags [OF assms(1), of ?l ?d] lk less.prems td by simp
      have td1: "take (nat (?l - 1)) (drop 1 ?d) = drop (Suc k) ?s"
        using lk by (simp add: drop_take nat_diff_distrib)
      have "nat (?l - 1) < nat len" "0 \<le> ?l - 1" "?l - 1 \<le> int (length (drop 1 ?d))" using lk less.prems by auto
      then obtain es where es: "filter_html_block env r (drop 1 ?d) (?l - 1) = Inr es" "list_all emit_ok es"
        "\<forall>o'. emits_out es o' = o' @ defused (drop (Suc k) ?s)"
        using less.hyps [of "?l - 1" "drop 1 ?d"] td1 by auto
      let ?b = "if k \<noteq> 0 then [Put_raw data (int k)] else []"
      let ?t = "if \<not> disallowed (drop k ?s) then Putc LESS_THAN else lit ''&lt;''"
      have "filter_html_block env r data len = Inr (?b @ [?t] @ es)"
        using False less.prems Some f es(1) by (simp add: filter_html_block.simps [of env r data len] Let_def)
      moreover have "list_all emit_ok (?b @ [?t] @ es)" using es(2) lk less.prems by (simp add: lit_def emit_ok.simps)
      moreover have "emits_out (?b @ [?t] @ es) o' = o' @ defused ?s" for o'
      proof -
        have "take k data = ?run" using tk lk by (simp add: min_def split: if_splits)
        then have "emits_out ?b o' = o' @ ?run" using k(1) by (cases "k = 0") auto
        moreover have "emit_bytes ?t o'' = (if disallowed (drop k ?s) then str ''&lt;'' else [LESS_THAN])" for o''
          by (simp add: lit_def)
        moreover have "defused (drop k ?s) =
            (if disallowed (drop k ?s) then str ''&lt;'' else [LESS_THAN]) @ defused (drop (Suc k) ?s)"
          unfolding dk by simp
        moreover have "defused ?s = ?run @ defused (drop k ?s)"
          using defused_run [OF run, of "drop k ?s"] by (simp only: tk [symmetric] append_take_drop_id)
        ultimately show ?thesis using es(3) by simp
      qed
      ultimately show ?thesis by blast
    qed
  qed
qed

text \<open>Whether a tag is disallowed depends only on the bytes up to the next \<open>&lt;\<close> or \<open>&amp;\<close>.\<close>

definition plain_byte :: "byte \<Rightarrow> bool" where
  "plain_byte c \<longleftrightarrow> c \<noteq> LESS_THAN \<and> c \<noteq> AMP"

lemma ends_name_cut: "ends_name (takeWhile plain_byte s) \<longleftrightarrow> ends_name s"
proof (cases s)
  case (Cons c t)
  show ?thesis
  proof (cases "plain_byte c")
    case True
    have "takeWhile plain_byte t \<noteq> [] \<and> hd (takeWhile plain_byte t) = GREATER_THAN \<longleftrightarrow> t \<noteq> [] \<and> hd t = GREATER_THAN"
      by (cases t) (auto simp: plain_byte_def)
    then show ?thesis using Cons True by (simp add: ends_name_def)
  next
    case False
    then have "\<not> cmark_isspace c" "c \<noteq> GREATER_THAN" "c \<noteq> SLASH"
      by (auto simp: plain_byte_def isspace_iff)
    then show ?thesis using Cons False by (simp add: ends_name_def)
  qed
qed (simp add: ends_name_def)

lemma name_cut:
  assumes "\<forall>c \<in> set n. \<forall>d. \<not> plain_byte d \<longrightarrow> lower d \<noteq> c"
  shows "name_then_end n (takeWhile plain_byte s) \<longleftrightarrow> name_then_end n s"
  using assms
proof (induction n s rule: name_then_end.induct)
  case (2 c n d s)
  show ?case
  proof (cases "plain_byte d")
    case True
    then show ?thesis using 2 by auto
  next
    case False
    then have "lower d \<noteq> c" using 2(2) by auto
    then show ?thesis using False by simp
  qed
qed (auto simp: ends_name_cut)

lemma blacklist_letters: "n \<in> set blacklist \<Longrightarrow> \<forall>c \<in> set (str n). \<forall>d. \<not> plain_byte d \<longrightarrow> lower d \<noteq> c"
  by (auto simp: blacklist_def plain_byte_def lower_def)

lemma disallowed_cut: "disallowed (LESS_THAN # takeWhile plain_byte s) \<longleftrightarrow> disallowed (LESS_THAN # s)"
proof -
  have "(if takeWhile plain_byte s \<noteq> [] \<and> hd (takeWhile plain_byte s) = SLASH then tl (takeWhile plain_byte s) else takeWhile plain_byte s) =
      takeWhile plain_byte (if s \<noteq> [] \<and> hd s = SLASH then tl s else s)"
    by (cases s) (auto simp: plain_byte_def)
  then show ?thesis using name_cut [OF blacklist_letters] unfolding disallowed_def Let_def list_ex_iff
    by (simp only: list.sel simp_thms list.distinct) (meson name_cut [OF blacklist_letters])
qed

lemma defused_cut: "takeWhile plain_byte (defused s) = takeWhile plain_byte s"
  by (induction s) (auto simp: plain_byte_def)

lemma defused_clean: "\<not> disallowed (drop i (defused s))"
proof (induction s arbitrary: i)
  case (Cons c s)
  have lt: "disallowed t \<Longrightarrow> t \<noteq> [] \<and> hd t = LESS_THAN" for t by (simp add: disallowed_def)
  show ?case
  proof (cases "c = LESS_THAN \<and> disallowed (c # s)")
    case True
    then have e: "defused (c # s) = str ''&lt;'' @ defused s" by auto
    have four: "hd (drop i (str ''&lt;'' @ u)) \<noteq> LESS_THAN" if "i < 4" for u
    proof -
      consider "i = 0" | "i = 1" | "i = 2" | "i = 3" using \<open>i < 4\<close> by linarith
      then show ?thesis by cases simp_all
    qed
    show ?thesis
    proof (cases "i < 4")
      case True
      then show ?thesis unfolding e using four lt by blast
    next
      case False
      then obtain j where "i = 4 + j" using le_Suc_ex by (metis not_less)
      then have "drop i (str ''&lt;'' @ defused s) = drop j (defused s)" by (simp add: eval_nat_numeral)
      then show ?thesis unfolding e using Cons.IH by simp
    qed
  next
    case False
    then have e: "defused (c # s) = c # defused s" by auto
    show ?thesis
    proof (cases i)
      case 0
      have "\<not> disallowed (c # defused s)"
      proof (cases "c = LESS_THAN")
        case True
        have "disallowed (LESS_THAN # defused s) \<longleftrightarrow> disallowed (LESS_THAN # takeWhile plain_byte (defused s))"
          by (rule disallowed_cut [symmetric])
        also have "\<dots> \<longleftrightarrow> disallowed (LESS_THAN # s)" unfolding defused_cut by (rule disallowed_cut)
        finally show ?thesis using False True by simp
      qed (use lt [of "c # defused s"] in auto)
      then show ?thesis unfolding e using 0 by simp
    next
      case (Suc j)
      then show ?thesis unfolding e using Cons.IH [of j] by simp
    qed
  qed
qed (simp add: disallowed_def)

section \<open>Properties\<close>

text \<open>
  C38: With the tag filter as the only filter, the output of \<open>filter_html_block\<close> is the block with
  some \<open>&lt;\<close> escaped, and nowhere in it does a disallowed tag begin, for any block of HTML.
\<close>

theorem tagfilter_defuses:
  assumes "only_tagfilter env r" "len = int (length html)"
  shows "\<exists>es. filter_html_block env r html len = Inr es \<and> list_all emit_ok es \<and> emits_out es [] = defused html \<and>
    (\<forall>i. \<not> disallowed (drop i (emits_out es [])))"
  using filter_block [OF assms(1), of len html] assms(2) defused_clean by fastforce

definition tagfilter_env :: html_env where
  "tagfilter_env = \<lparr>html_render_func = (\<lambda>_. None), html_filter_func = (\<lambda>_. Some tagfilter_filter)\<rparr>"

theorem tagfilter_defuses_witness:
  "\<exists>es. filter_html_block tagfilter_env (new_renderer tagfilter_env [0]) (str ''<b><XMP/>'') 9 = Inr es \<and>
     emits_out es [] = str ''<b>&lt;XMP/>''"
proof -
  have "only_tagfilter tagfilter_env (new_renderer tagfilter_env [0])"
    by (simp add: only_tagfilter_def tagfilter_env_def new_renderer_def)
  moreover have "defused (str ''<b><XMP/>'') = str ''<b>&lt;XMP/>''" by code_simp
  ultimately show ?thesis using tagfilter_defuses [of tagfilter_env "new_renderer tagfilter_env [0]" 9 "str ''<b><XMP/>''"] by auto
qed

end
