(* ===== verification/Subject.thy ===== *)
theory Subject
  imports Html Node_Links
begin

text \<open>
  The state of the inline parser and its basic operations, src/src/inlines.c: the subject (the text of a
  leaf block with the position in it), peeking and skipping, the creation of inline nodes.

  A subject is well-formed (\<open>subject_ok\<close>) when its chunk is, its position lies in it and the text has no NUL,
  which the block parser has replaced.  \<open>rest_of\<close> is the text that is left, and the loops that skip
  characters are described on it.
\<close>

section \<open>The data\<close>

text \<open>
  The members of \<open>struct subject\<close>.  \<open>refmap\<close> is left out: only the resolution of links, which is not modelled,
  uses it.  The two stacks are pointers to their topmost objects.
\<close>

definition MAXBACKTICKS :: int where "MAXBACKTICKS = 80"

record subject =
  sj_mem :: cmark_mem
  sj_input :: cmark_chunk
  sj_flags :: "32 word"
  sj_line :: int
  sj_pos :: int
  sj_block_offset :: int
  sj_column_offset :: int
  sj_last_delim :: "nat option"
  sj_last_bracket :: "nat option"
  sj_backticks :: "int list"
  sj_scanned_for_backticks :: bool
  sj_no_link_openers :: bool

definition subject_from_buf :: "cmark_mem \<Rightarrow> int \<Rightarrow> int \<Rightarrow> cmark_chunk \<Rightarrow> subject" where
  "subject_from_buf m line_number block_offset chunk =
     \<lparr>sj_mem = m, sj_input = chunk, sj_flags = 0, sj_line = line_number, sj_pos = 0,
      sj_block_offset = block_offset, sj_column_offset = 0, sj_last_delim = None, sj_last_bracket = None,
      sj_backticks = replicate (nat (MAXBACKTICKS + 1)) 0, sj_scanned_for_backticks = False,
      sj_no_link_openers = True\<rparr>"

section \<open>Peeking and skipping\<close>

definition peek_char_n :: "subject \<Rightarrow> int \<Rightarrow> byte res" where
  "peek_char_n subj n =
     (if sj_pos subj + n < ch_len (sj_input subj)
      then bindr (chunk_at (sj_input subj) (sj_pos subj + n)) (\<lambda>c.
           bindr (guard (c \<noteq> NUL) Assert_failed) (\<lambda>_. Inr c))
      else Inr 0)"

definition peek_char :: "subject \<Rightarrow> byte res" where
  "peek_char subj = peek_char_n subj 0"

definition peek_at_pos :: "subject \<Rightarrow> int \<Rightarrow> byte res" where
  "peek_at_pos subj pos = chunk_at (sj_input subj) pos"

definition is_eof :: "subject \<Rightarrow> bool" where
  "is_eof subj \<longleftrightarrow> sj_pos subj \<ge> ch_len (sj_input subj)"

definition advance :: "subject \<Rightarrow> subject" where
  "advance subj = subj\<lparr>sj_pos := sj_pos subj + 1\<rparr>"

text \<open>\<open>while ((c = peek_char(subj)) && f(c)) advance(subj);\<close>  At the end of the text \<open>peek_char\<close> is 0.\<close>

function skip_while :: "(byte \<Rightarrow> bool) \<Rightarrow> subject \<Rightarrow> subject res" where
  "skip_while f subj =
     bindr (peek_char subj) (\<lambda>c. if c \<noteq> NUL \<and> f c then skip_while f (advance subj) else Inr subj)"
  by pat_completeness auto
termination
  by (relation "measure (\<lambda>(f, subj). nat (ch_len (sj_input subj) - sj_pos subj))")
    (auto simp: peek_char_def peek_char_n_def advance_def split: if_splits)

declare skip_while.simps [simp del]

definition skip_spaces :: "subject \<Rightarrow> (bool \<times> subject) res" where
  "skip_spaces subj =
     bindr (skip_while (\<lambda>c. c = SPACE \<or> c = TAB) subj) (\<lambda>subj'. Inr (sj_pos subj' \<noteq> sj_pos subj, subj'))"

definition skip_line_end :: "subject \<Rightarrow> (bool \<times> subject) res" where
  "skip_line_end subj =
     bindr (peek_char subj) (\<lambda>c.
     let (seen, subj) = (if c = CR then (True, advance subj) else (False, subj)) in
     bindr (peek_char subj) (\<lambda>c.
     let (seen, subj) = (if c = LF then (True, advance subj) else (seen, subj)) in
     Inr (seen \<or> is_eof subj, subj)))"

definition take_while :: "(byte \<Rightarrow> bool) \<Rightarrow> subject \<Rightarrow> (cmark_chunk \<times> subject) res" where
  "take_while f subj =
     bindr (skip_while f subj) (\<lambda>subj'.
     bindr (cmark_chunk_dup (sj_input subj) (sj_pos subj) (sj_pos subj' - sj_pos subj)) (\<lambda>c.
     Inr (c, subj')))"

section \<open>Inline nodes\<close>

text \<open>Columns are \<open>int\<close>s and far below the limits of the type: a column is at most the length of the input.\<close>

definition make_simple :: "heap \<Rightarrow> cmark_mem \<Rightarrow> node_type \<Rightarrow> (nptr \<times> heap) res" where
  "make_simple h m t =
     bindr (cmark_strbuf_init m 0) (\<lambda>c.
     Inr (length h, h @ [Some ((node_zero m)\<lparr>n_content := c, n_type := t\<rparr>)]))"

definition make_literal :: "heap \<Rightarrow> subject \<Rightarrow> node_type \<Rightarrow> int \<Rightarrow> int \<Rightarrow> cmark_chunk \<Rightarrow> (nptr \<times> heap) res" where
  "make_literal h subj t start_col end_col s =
     bindr (cmark_strbuf_init (sj_mem subj) 0) (\<lambda>c.
     Inr (length h, h @ [Some ((node_zero (sj_mem subj))\<lparr>n_content := c, n_type := t, n_as := As_literal s,
       start_line := sj_line subj, end_line := sj_line subj,
       start_column := start_col + 1 + sj_column_offset subj + sj_block_offset subj,
       end_column := end_col + 1 + sj_column_offset subj + sj_block_offset subj\<rparr>)]))"

definition make_str :: "heap \<Rightarrow> subject \<Rightarrow> int \<Rightarrow> int \<Rightarrow> cmark_chunk \<Rightarrow> (nptr \<times> heap) res" where
  "make_str h subj sc ec s = make_literal h subj CMARK_NODE_TEXT sc ec s"

definition make_code :: "heap \<Rightarrow> subject \<Rightarrow> int \<Rightarrow> int \<Rightarrow> cmark_chunk \<Rightarrow> (nptr \<times> heap) res" where
  "make_code h subj sc ec s = make_literal h subj CMARK_NODE_CODE sc ec s"

definition make_str_with_entities ::
  "heap \<Rightarrow> subject \<Rightarrow> int \<Rightarrow> int \<Rightarrow> cmark_chunk \<Rightarrow> (nptr \<times> heap) res" where
  "make_str_with_entities h subj sc ec content =
     bindr (chunk_block content) (\<lambda>d.
     bindr (houdini_unescape_html (strbuf_empty (sj_mem subj)) d (ch_len content)) (\<lambda>(r, unescaped).
     if r then bindr (cmark_chunk_buf_detach unescaped) (\<lambda>(c, _). make_str h subj sc ec c)
     else make_str h subj sc ec content))"

definition append_child :: "heap \<Rightarrow> nptr \<Rightarrow> nptr \<Rightarrow> heap res" where
  "append_child h node child =
     bindr (deref h node) (\<lambda>n.
     let old_last_child = n_last n in
     bindr (update h child (\<lambda>c. c\<lparr>n_next := None, n_prev := old_last_child, n_parent := Some node\<rparr>)) (\<lambda>h.
     bindr (update h node (\<lambda>n. n\<lparr>n_last := Some child\<rparr>)) (\<lambda>h.
     case old_last_child of
       Some l \<Rightarrow> update h l (\<lambda>n. n\<lparr>n_next := Some child\<rparr>)
     | None \<Rightarrow> update h node (\<lambda>n. n\<lparr>n_first := Some child\<rparr>))))"

text \<open>The number of newlines in a span, and the number of characters behind the last of them.\<close>

function count_newlines_loop :: "subject \<Rightarrow> int \<Rightarrow> int \<Rightarrow> int \<Rightarrow> int \<Rightarrow> (int \<times> int) res" where
  "count_newlines_loop subj from len nls since_nl =
     (if len = 0 then Inr (nls, since_nl)
      else bindr (peek_at_pos subj from) (\<lambda>c.
           if c = LF then count_newlines_loop subj (from + 1) (len - 1) (nls + 1) 0
           else count_newlines_loop subj (from + 1) (len - 1) nls (since_nl + 1)))"
  by pat_completeness auto
termination
  by (relation "measure (\<lambda>(subj, from, len, nls, s).
        case ch_data (sj_input subj) of None \<Rightarrow> 0 | Some d \<Rightarrow> nat (int (length d) - from))")
    (auto simp: peek_at_pos_def chunk_at_def chunk_block_def peek_def split: option.splits if_splits)

declare count_newlines_loop.simps [simp del]

definition count_newlines :: "subject \<Rightarrow> int \<Rightarrow> int \<Rightarrow> (int \<times> int option) res" where
  "count_newlines subj from len =
     bindr (count_newlines_loop subj from len 0 0) (\<lambda>(nls, since_nl).
     Inr (if nls = 0 then (0, None) else (nls, Some since_nl)))"

definition adjust_subj_node_newlines ::
  "heap \<Rightarrow> subject \<Rightarrow> nptr \<Rightarrow> int \<Rightarrow> int \<Rightarrow> 32 word \<Rightarrow> (heap \<times> subject) res" where
  "adjust_subj_node_newlines h subj node matchlen extra options =
     (if \<not> opt options CMARK_OPT_SOURCEPOS then Inr (h, subj)
      else
        bindr (count_newlines subj (sj_pos subj - matchlen - extra) matchlen) (\<lambda>(newlines, since).
        case since of
          None \<Rightarrow> Inr (h, subj)
        | Some since_newline \<Rightarrow>
            bindr (update h node (\<lambda>n. n\<lparr>end_line := end_line n + newlines, end_column := since_newline\<rparr>)) (\<lambda>h.
            Inr (h, subj\<lparr>sj_line := sj_line subj + newlines,
                         sj_column_offset := - sj_pos subj + since_newline + extra\<rparr>))))"

section \<open>Well-formed subjects\<close>

definition subject_ok :: "subject \<Rightarrow> bool" where
  "subject_ok s \<longleftrightarrow> chunk_ok (sj_input s) \<and> NUL \<notin> set (chunk_bytes (sj_input s)) \<and>
     0 \<le> sj_pos s \<and> sj_pos s \<le> ch_len (sj_input s)"

definition rest_of :: "subject \<Rightarrow> byte list" where
  "rest_of s = drop (nat (sj_pos s)) (chunk_bytes (sj_input s))"

text \<open>Moving the position; \<open>moved\<close> is the form in which the results of the skipping loops are given.\<close>

definition moved :: "subject \<Rightarrow> nat \<Rightarrow> subject" where
  "moved s n = s\<lparr>sj_pos := sj_pos s + int n\<rparr>"

lemma moved_simps [simp]:
  "sj_pos (moved s n) = sj_pos s + int n" "sj_input (moved s n) = sj_input s"
  "sj_backticks (moved s n) = sj_backticks s" "sj_scanned_for_backticks (moved s n) = sj_scanned_for_backticks s"
  "sj_mem (moved s n) = sj_mem s" "moved (moved s n) k = moved s (n + k)" "moved s 0 = s"
  by (simp_all add: moved_def)

lemma length_rest: "subject_ok s \<Longrightarrow> int (length (rest_of s)) = ch_len (sj_input s) - sj_pos s"
  using chunk_len [of "sj_input s"] by (auto simp: subject_ok_def rest_of_def)

lemma moved_ok: "subject_ok s \<Longrightarrow> n \<le> length (rest_of s) \<Longrightarrow> subject_ok (moved s n)"
  using length_rest [of s] by (auto simp: subject_ok_def)

lemma rest_moved: "subject_ok s \<Longrightarrow> rest_of (moved s n) = drop n (rest_of s)"
  by (auto simp: subject_ok_def rest_of_def nat_add_distrib add.commute)

lemma is_eof_iff: "subject_ok s \<Longrightarrow> is_eof s \<longleftrightarrow> rest_of s = []"
  using length_rest [of s] by (cases "rest_of s") (auto simp: is_eof_def)

lemma chunk_at_byte:
  assumes "chunk_ok c" "0 \<le> i" "i < ch_len c"
  shows "chunk_at c i = Inr (chunk_bytes c ! nat i)"
  using assms(1)
proof (cases rule: chunk_cases)
  case null
  with assms show ?thesis by simp
next
  case (block bs tail)
  with assms show ?thesis by (simp add: chunk_at_def chunk_block_def peek_def nth_append nat_less_iff)
qed

lemma peek_char_Cons:
  assumes "subject_ok s" "rest_of s = c # cs"
  shows "peek_char s = Inr c" "c \<noteq> NUL" "advance s = moved s 1"
proof -
  have i: "0 \<le> sj_pos s" "sj_pos s < ch_len (sj_input s)" "chunk_ok (sj_input s)"
    using length_rest [OF assms(1)] assms by (auto simp: subject_ok_def)
  have "nat (sj_pos s) < length (chunk_bytes (sj_input s))"
    using i chunk_len [OF i(3)] by linarith
  from Cons_nth_drop_Suc [OF this] assms(2)
  have c: "chunk_bytes (sj_input s) ! nat (sj_pos s) = c" by (simp add: rest_of_def)
  have "c \<in> set (chunk_bytes (sj_input s))"
    using assms(2) in_set_dropD [of c "nat (sj_pos s)" "chunk_bytes (sj_input s)"] by (simp add: rest_of_def)
  then show "c \<noteq> NUL" using assms(1) by (auto simp: subject_ok_def)
  then show "peek_char s = Inr c"
    using c i chunk_at_byte [OF i(3,1,2)] by (simp add: peek_char_def peek_char_n_def)
  show "advance s = moved s 1" by (simp add: advance_def moved_def)
qed

lemma peek_char_Nil: "subject_ok s \<Longrightarrow> rest_of s = [] \<Longrightarrow> peek_char s = Inr NUL"
  using length_rest [of s] by (simp add: peek_char_def peek_char_n_def)

lemma skip_while_eq:
  assumes "subject_ok s"
  shows "skip_while f s = Inr (moved s (length (takeWhile f (rest_of s))))"
  using assms
proof (induction "rest_of s" arbitrary: s)
  case Nil
  then show ?case by (subst skip_while.simps) (simp add: peek_char_Nil [OF Nil(2)] flip: Nil(1))
next
  case (Cons c cs)
  note pk = peek_char_Cons [OF Cons(3) Cons(2) [symmetric]]
  have ok: "subject_ok (moved s 1)" by (rule moved_ok [OF Cons(3)]) (simp flip: Cons(2))
  have r: "cs = rest_of (moved s 1)" by (simp add: rest_moved [OF Cons(3)] flip: Cons(2))
  from Cons(1) [OF r ok, folded r]
  have "skip_while f (moved s 1) = Inr (moved s (Suc (length (takeWhile f cs))))" by simp
  then show ?case
    by (subst skip_while.simps) (simp add: pk flip: Cons(2))
qed

lemma peek_char_hd: "subject_ok s \<Longrightarrow> peek_char s = Inr (case rest_of s of [] \<Rightarrow> NUL | c # _ \<Rightarrow> c)"
  using peek_char_Cons(1) [of s] peek_char_Nil [of s] by (cases "rest_of s") auto

lemma skip_spaces_eq:
  assumes "subject_ok s"
  shows "skip_spaces s =
    (let n = length (takeWhile (\<lambda>c. c = SPACE \<or> c = TAB) (rest_of s)) in Inr (0 < n, moved s n))"
  by (simp add: skip_spaces_def skip_while_eq [OF assms] Let_def)

lemma skip_while_ok: "subject_ok s \<Longrightarrow> subject_ok (moved s (length (takeWhile f (rest_of s))))"
  by (rule moved_ok) (auto simp: length_takeWhile_le)

lemma rest_skip: "subject_ok s \<Longrightarrow> rest_of (moved s (length (takeWhile f (rest_of s)))) = dropWhile f (rest_of s)"
  by (simp add: rest_moved dropWhile_eq_drop)

text \<open>The chunk that \<open>take_while\<close> returns.\<close>

lemma take_while_eq:
  assumes "subject_ok s" "rest_of s \<noteq> []"
  shows "\<exists>c. take_while f s = Inr (c, moved s (length (takeWhile f (rest_of s)))) \<and>
    chunk_ok c \<and> \<not> ch_alloc c \<and> chunk_bytes c = takeWhile f (rest_of s)"
proof -
  let ?t = "takeWhile f (rest_of s)"
  have ok: "chunk_ok (sj_input s)" and pos: "0 \<le> sj_pos s" "sj_pos s \<le> ch_len (sj_input s)"
    using assms by (auto simp: subject_ok_def)
  from ok show ?thesis
  proof (cases rule: chunk_cases)
    case null
    with assms show ?thesis by (simp add: rest_of_def)
  next
    case (block bs tail)
    have r: "rest_of s = ?t @ dropWhile f (rest_of s)" by simp
    have d: "drop (nat (sj_pos s)) (bs @ tail) = ?t @ (dropWhile f (rest_of s) @ tail)"
      using pos block by (simp add: rest_of_def nat_le_iff)
    have "cmark_chunk_dup (sj_input s) (sj_pos s) (int (length ?t)) =
        Inr \<lparr>ch_data = Some (?t @ (dropWhile f (rest_of s) @ tail)), ch_len = int (length ?t), ch_alloc = False\<rparr>"
      unfolding cmark_chunk_dup_def using block pos d by (simp add: chunk_block_def)
    with slice_chunk [of ?t "dropWhile f (rest_of s) @ tail"] show ?thesis
      by (auto simp: take_while_def skip_while_eq [OF assms(1)] slice_def)
  qed
qed

end
