(* ===== verification/Backticks.thy ===== *)
theory Backticks
  imports Subject
begin

text \<open>
  Code spans, src/src/inlines.c.  \<open>tick_runs\<close> are the maximal runs of backticks of a text (\<open>tick_runs_iff\<close>), in
  order; the scan for a closer is compared with a search in this list, the memo \<open>subj->backticks\<close> that saves
  scans with what is ahead of the position (\<open>memo_ok\<close>), and \<open>S_normalize_code\<close> with a list function.
\<close>

section \<open>The code\<close>

definition isbacktick :: "byte \<Rightarrow> bool" where
  "isbacktick c \<longleftrightarrow> c = BACKTICK"

text \<open>
  One round of the loop: skip to the next run of backticks and count it; 0 at the end of the text.
\<close>

definition next_run :: "subject \<Rightarrow> (int \<times> subject) res" where
  "next_run subj =
     bindr (skip_while (\<lambda>c. c \<noteq> BACKTICK) subj) (\<lambda>subj.
     if is_eof subj then Inr (0, subj)
     else bindr (skip_while isbacktick subj) (\<lambda>subj'. Inr (sj_pos subj' - sj_pos subj, subj')))"

definition store_ender :: "int \<Rightarrow> subject \<Rightarrow> subject res" where
  "store_ender numticks subj =
     (if numticks \<le> MAXBACKTICKS
      then bindr (poke (sj_backticks subj) numticks (sj_pos subj - numticks)) (\<lambda>b.
           Inr (subj\<lparr>sj_backticks := b\<rparr>))
      else Inr subj)"

lemma skip_while_pos:
  "skip_while f subj = Inr s' \<Longrightarrow> sj_input s' = sj_input subj \<and> sj_pos subj \<le> sj_pos s'"
proof (induction f subj rule: skip_while.induct)
  case (1 f subj)
  from 1(2) show ?case
    by (subst (asm) skip_while.simps) (auto simp: advance_def split: if_splits dest!: 1(1))
qed

function closing_loop :: "subject \<Rightarrow> int \<Rightarrow> (int \<times> subject) res" where
  "closing_loop subj openticklength =
     bindr (next_run subj) (\<lambda>(numticks, subj').
     if numticks = 0 then Inr (0, subj'\<lparr>sj_scanned_for_backticks := True\<rparr>)
     else
       bindr (store_ender numticks subj') (\<lambda>subj''.
       if numticks = openticklength then Inr (sj_pos subj'', subj'')
       else closing_loop subj'' openticklength))"
  by pat_completeness auto
termination
proof (relation "measure (\<lambda>(subj, n). nat (ch_len (sj_input subj) - sj_pos subj))", goal_cases)
  case 1
  then show ?case by simp
next
  case (2 subj n x nt s' s'')
  then obtain s where s: "skip_while (\<lambda>c. c \<noteq> BACKTICK) subj = Inr s" "\<not> is_eof s"
      "skip_while isbacktick s = Inr s'" "nt = sj_pos s' - sj_pos s"
    by (auto simp: next_run_def split: if_splits)
  with skip_while_pos [OF s(1)] skip_while_pos [OF s(3)] 2 show ?case
    by (auto simp: store_ender_def is_eof_def split: if_splits)
qed

declare closing_loop.simps [simp del]

definition scan_to_closing_backticks :: "subject \<Rightarrow> int \<Rightarrow> (int \<times> subject) res" where
  "scan_to_closing_backticks subj openticklength =
     (if openticklength > MAXBACKTICKS then Inr (0, subj)
      else
        bindr (if sj_scanned_for_backticks subj
               then bindr (peek (sj_backticks subj) openticklength) (\<lambda>b. Inr (b \<le> sj_pos subj))
               else Inr False) (\<lambda>no_closer.
        if no_closer then Inr (0, subj) else closing_loop subj openticklength))"

text \<open>The loop of \<open>S_normalize_code\<close>, which reads at \<open>r\<close> and writes at \<open>w\<close>; it returns the block, \<open>w\<close> and the flag.\<close>

function normalize_code_loop :: "byte list \<Rightarrow> int \<Rightarrow> int \<Rightarrow> int \<Rightarrow> bool \<Rightarrow> (byte list \<times> int \<times> bool) res" where
  "normalize_code_loop p sz r w contains_nonspace =
     (if r < sz
      then
        bindr (peek p r) (\<lambda>c.
        bindr (if c = CR
               then bindr (peek p (r + 1)) (\<lambda>d.
                    if d \<noteq> LF then bindr (poke p w SPACE) (\<lambda>p. Inr (p, w + 1)) else Inr (p, w))
               else if c = LF then bindr (poke p w SPACE) (\<lambda>p. Inr (p, w + 1))
               else bindr (poke p w c) (\<lambda>p. Inr (p, w + 1))) (\<lambda>(p, w).
        bindr (peek p r) (\<lambda>c.
        normalize_code_loop p sz (r + 1) w (contains_nonspace \<or> c \<noteq> SPACE))))
      else Inr (p, w, contains_nonspace))"
  by pat_completeness auto
termination
  by (relation "measure (\<lambda>(p, sz, r, w, b). nat (sz - r))") auto

declare normalize_code_loop.simps [simp del]

definition S_normalize_code :: "cmark_strbuf \<Rightarrow> cmark_strbuf res" where
  "S_normalize_code s =
     bindr (normalize_code_loop (ptr s) (bsize s) 0 0 False) (\<lambda>(p, w, contains_nonspace).
     let s = s\<lparr>ptr := p\<rparr> in
     bindr (if contains_nonspace
            then bindr (peek p 0) (\<lambda>a.
                 if a = SPACE then bindr (peek p (w - 1)) (\<lambda>b. Inr (b = SPACE)) else Inr False)
            else Inr False) (\<lambda>strip.
     if strip
     then bindr (cmark_strbuf_drop s 1) (\<lambda>s. cmark_strbuf_truncate s (w - 2))
     else cmark_strbuf_truncate s w))"

definition handle_backticks :: "heap \<Rightarrow> subject \<Rightarrow> 32 word \<Rightarrow> (nptr \<times> heap \<times> subject) res" where
  "handle_backticks h subj options =
     (let initpos = sj_pos subj in
      bindr (take_while isbacktick subj) (\<lambda>(openticks, subj).
      let startpos = sj_pos subj in
      bindr (scan_to_closing_backticks subj (ch_len openticks)) (\<lambda>(endpos, subj).
      if endpos = 0 then
        let subj = subj\<lparr>sj_pos := startpos\<rparr> in
        bindr (make_str h subj initpos (initpos + ch_len openticks - 1) openticks) (\<lambda>(p, h).
        Inr (p, h, subj))
      else
        bindr (chunk_block (sj_input subj)) (\<lambda>d.
        bindr (cmark_strbuf_set (strbuf_empty (sj_mem subj)) (Block (drop (nat startpos) d))
                 (endpos - startpos - ch_len openticks)) (\<lambda>buf.
        bindr (S_normalize_code buf) (\<lambda>buf.
        bindr (cmark_chunk_buf_detach buf) (\<lambda>(c, _).
        bindr (make_code h subj startpos (endpos - ch_len openticks - 1) c) (\<lambda>(node, h).
        bindr (update h node (\<lambda>n. n\<lparr>backtick_count := ch_len openticks\<rparr>)) (\<lambda>h.
        bindr (adjust_subj_node_newlines h subj node (endpos - startpos) (ch_len openticks) options)
          (\<lambda>(h, subj). Inr (node, h, subj)))))))))))"

section \<open>Runs of backticks\<close>

text \<open>The maximal runs of backticks of a text that starts at \<open>i\<close>: their positions and lengths.\<close>

function tick_runs :: "int \<Rightarrow> byte list \<Rightarrow> (int \<times> int) list" where
  "tick_runs i cs =
     (let ys = dropWhile (\<lambda>c. c \<noteq> BACKTICK) cs;
          j = i + int (length (takeWhile (\<lambda>c. c \<noteq> BACKTICK) cs));
          k = length (takeWhile isbacktick ys)
      in if ys = [] then [] else (j, int k) # tick_runs (j + int k) (dropWhile isbacktick ys))"
  by pat_completeness auto
termination
proof (relation "measure (\<lambda>(i, cs). length cs)", goal_cases)
  case (2 i cs ys j k)
  obtain c ds where y: "ys = c # ds" using 2(4) by (meson neq_Nil_conv)
  have "hd ys = BACKTICK" using hd_dropWhile [of "\<lambda>c. c \<noteq> BACKTICK" cs] 2(1,4) by blast
  then have "c = BACKTICK" by (simp add: y)
  moreover have "length ys \<le> length cs" unfolding 2 by (rule length_dropWhile_le)
  ultimately show ?case
    using y length_dropWhile_le [of isbacktick ds] by (simp add: isbacktick_def)
qed simp

declare tick_runs.simps [simp del]

definition run_of :: "int \<Rightarrow> int \<times> int \<Rightarrow> bool" where
  "run_of n r \<longleftrightarrow> snd r = n"

text \<open>The position behind the first run of \<open>n\<close> backticks.\<close>

definition first_closer :: "int \<Rightarrow> (int \<times> int) list \<Rightarrow> int option" where
  "first_closer n rs = map_option (\<lambda>(i, k). i + k) (List.find (run_of n) rs)"

definition store_run :: "int list \<Rightarrow> int \<times> int \<Rightarrow> int list" where
  "store_run b r = (if snd r \<le> MAXBACKTICKS then b[nat (snd r) := fst r] else b)"

definition ticks_ok :: "subject \<Rightarrow> bool" where
  "ticks_ok s \<longleftrightarrow> subject_ok s \<and> length (sj_backticks s) = nat (MAXBACKTICKS + 1)"

abbreviation runs_of :: "subject \<Rightarrow> (int \<times> int) list" where
  "runs_of s \<equiv> tick_runs (sj_pos s) (rest_of s)"

lemma takeWhile_length_pos: "xs \<noteq> [] \<Longrightarrow> P (hd xs) \<Longrightarrow> 0 < length (takeWhile P xs)"
  by (cases xs) auto

lemma next_run_eq:
  assumes "subject_ok s"
  shows "(runs_of s = [] \<and> next_run s = Inr (0, moved s (length (rest_of s)))) \<or>
    (\<exists>i k rs m. runs_of s = (i, k) # rs \<and> m \<le> length (rest_of s) \<and> next_run s = Inr (k, moved s m) \<and>
       0 < k \<and> i + k = sj_pos s + int m \<and> sj_pos s \<le> i \<and> runs_of (moved s m) = rs)"
proof -
  let ?P = "\<lambda>c. c \<noteq> BACKTICK"
  let ?n = "length (takeWhile ?P (rest_of s))"
  let ?ys = "dropWhile ?P (rest_of s)"
  let ?k = "length (takeWhile isbacktick ?ys)"
  have ok: "subject_ok (moved s ?n)" by (rule skip_while_ok [OF assms])
  have r: "rest_of (moved s ?n) = ?ys" by (rule rest_skip [OF assms])
  have e: "is_eof (moved s ?n) \<longleftrightarrow> ?ys = []" using is_eof_iff [OF ok] r by simp
  show ?thesis
  proof (cases "?ys = []")
    case True
    then have "?n = length (rest_of s)" by (metis append_Nil2 takeWhile_dropWhile_id)
    with True e show ?thesis
      by (simp add: next_run_def skip_while_eq [OF assms] tick_runs.simps [of _ "rest_of s"] Let_def)
  next
    case False
    have hd: "isbacktick (hd ?ys)" using hd_dropWhile [OF False] by (simp add: isbacktick_def)
    have k: "0 < ?k" by (rule takeWhile_length_pos [of _ isbacktick, OF False hd])
    have nr: "next_run s = Inr (int ?k, moved s (?n + ?k))"
    proof -
      have "\<not> is_eof (moved s ?n)" using False e by blast
      then show ?thesis using skip_while_eq [OF ok, of isbacktick] r
        by (simp add: next_run_def skip_while_eq [OF assms])
    qed
    have rest: "rest_of (moved s (?n + ?k)) = dropWhile isbacktick ?ys"
      using rest_skip [OF ok, of isbacktick] r by simp
    have le: "?n + ?k \<le> length (rest_of s)"
      using length_takeWhile_le [of isbacktick ?ys] length_takeWhile_le [of ?P "rest_of s"]
      by (metis add_left_mono length_append takeWhile_dropWhile_id)
    have "runs_of s = (sj_pos s + int ?n, int ?k) # runs_of (moved s (?n + ?k))"
      using False by (subst tick_runs.simps) (simp add: Let_def rest add.assoc)
    with nr k le show ?thesis by auto
  qed
qed

lemma store_ender_eq:
  assumes "ticks_ok s" "0 < k" "i + k = sj_pos s"
  shows "store_ender k s = Inr (s\<lparr>sj_backticks := store_run (sj_backticks s) (i, k)\<rparr>)"
proof -
  have "sj_pos s - k = i" using assms by simp
  with assms show ?thesis by (simp add: store_ender_def store_run_def poke_def ticks_ok_def)
qed

lemma store_run_length [simp]: "length (store_run b r) = length b"
  by (simp add: store_run_def)

definition scan_result :: "subject \<Rightarrow> int \<Rightarrow> int \<times> subject" where
  "scan_result s n =
     (let rs = runs_of s; seen = takeWhile (\<lambda>r. \<not> run_of n r) rs in
      case List.find (run_of n) rs of
        Some (i, k) \<Rightarrow> (i + k, s\<lparr>sj_pos := i + k,
          sj_backticks := store_run (foldl store_run (sj_backticks s) seen) (i, k)\<rparr>)
      | None \<Rightarrow> (0, s\<lparr>sj_pos := ch_len (sj_input s), sj_backticks := foldl store_run (sj_backticks s) rs,
          sj_scanned_for_backticks := True\<rparr>))"

lemma closing_loop_eq:
  assumes "ticks_ok s" "0 < n"
  shows "closing_loop s n = Inr (scan_result s n)"
  using assms(1)
proof (induction "length (runs_of s)" arbitrary: s rule: less_induct)
  case less
  have ok: "subject_ok s" using less.prems by (simp add: ticks_ok_def)
  from next_run_eq [OF ok] show ?case
  proof (elim disjE exE conjE)
    assume r: "runs_of s = []" "next_run s = Inr (0, moved s (length (rest_of s)))"
    have "moved s (length (rest_of s)) = s\<lparr>sj_pos := ch_len (sj_input s)\<rparr>"
      using length_rest [OF ok] by (simp add: moved_def)
    with r show ?thesis by (subst closing_loop.simps) (simp add: scan_result_def)
  next
    fix i k rs m
    assume r: "runs_of s = (i, k) # rs" "m \<le> length (rest_of s)" "next_run s = Inr (k, moved s m)"
      "0 < k" "i + k = sj_pos s + int m" "sj_pos s \<le> i" "runs_of (moved s m) = rs"
    let ?s = "moved s m\<lparr>sj_backticks := store_run (sj_backticks s) (i, k)\<rparr>"
    have okm: "ticks_ok (moved s m)"
      using moved_ok [OF ok r(2)] less.prems by (simp add: ticks_ok_def)
    have oks: "ticks_ok ?s" using okm less.prems by (simp add: ticks_ok_def subject_ok_def)
    have rest: "runs_of ?s = rs" using r(7) by (simp add: rest_of_def)
    have st: "store_ender k (moved s m) = Inr ?s"
      using store_ender_eq [OF okm r(4), of i] r(5) by simp
    have cl: "closing_loop s n = (if k = n then Inr (sj_pos ?s, ?s) else closing_loop ?s n)"
      using r(3,4) st by (subst closing_loop.simps) simp
    show ?thesis
    proof (cases "k = n")
      case True
      with cl r show ?thesis by (simp add: scan_result_def run_of_def moved_def)
    next
      case False
      have "closing_loop ?s n = Inr (scan_result ?s n)"
        using less.hyps [OF _ oks] rest r(1) by simp
      moreover have "scan_result ?s n = scan_result s n"
        using rest r(1) False by (simp add: scan_result_def run_of_def moved_def split: option.splits)
      ultimately show ?thesis using cl False by simp
    qed
  qed
qed

section \<open>Normalising code\<close>

definition begins_lf :: "byte list \<Rightarrow> bool" where
  "begins_lf cs \<longleftrightarrow> hd_opt cs = Some LF"

text \<open>Line endings become spaces: a CR before an LF disappears.\<close>

fun code_newlines :: "byte list \<Rightarrow> byte list" where
  "code_newlines [] = []"
| "code_newlines (c # cs) =
     (if c = CR \<and> begins_lf cs then [] else [if c = CR \<or> c = LF then SPACE else c]) @ code_newlines cs"

fun code_nonspace :: "byte list \<Rightarrow> bool" where
  "code_nonspace [] \<longleftrightarrow> False"
| "code_nonspace (c # cs) \<longleftrightarrow> (if c = CR then begins_lf cs else c \<noteq> LF \<and> c \<noteq> SPACE) \<or> code_nonspace cs"

definition normal_code :: "byte list \<Rightarrow> byte list" where
  "normal_code cs =
     (let t = code_newlines cs in
      if code_nonspace cs \<and> hd_opt t = Some SPACE \<and> last_opt t = Some SPACE then butlast (tl t) else t)"

text \<open>
  What the specification says (\<open>test/spec.txt\<close>, code spans, and the comment on \<open>S_normalize_code\<close>): when the result
  begins and ends with a space, but does not consist of spaces only, one space is removed on either
  side.  The code deviates from it for a text that is blank (line endings and spaces only) and has a line ending
  CR LF.
\<close>

definition spaces :: "byte list \<Rightarrow> bool" where
  "spaces cs \<longleftrightarrow> list_all (\<lambda>c. c = SPACE) cs"

definition spec_code :: "byte list \<Rightarrow> byte list" where
  "spec_code cs =
     (let t = code_newlines cs in
      if hd_opt t = Some SPACE \<and> last_opt t = Some SPACE \<and> \<not> spaces t then butlast (tl t) else t)"

fun has_crlf :: "byte list \<Rightarrow> bool" where
  "has_crlf [] \<longleftrightarrow> False"
| "has_crlf (c # cs) \<longleftrightarrow> c = CR \<and> begins_lf cs \<or> has_crlf cs"

definition blank_crlf :: "byte list \<Rightarrow> bool" where
  "blank_crlf cs \<longleftrightarrow> list_all (\<lambda>c. c \<in> {SPACE, CR, LF}) cs \<and> has_crlf cs"

lemma spaces_newlines: "spaces (code_newlines cs) \<longleftrightarrow> list_all (\<lambda>c. c \<in> {SPACE, CR, LF}) cs"
  by (induction cs) (auto simp: spaces_def)

lemma code_nonspace_iff: "code_nonspace cs \<longleftrightarrow> has_crlf cs \<or> \<not> spaces (code_newlines cs)"
  unfolding spaces_newlines by (induction cs) (auto simp: begins_lf_def)

lemma has_crlf_newlines: "has_crlf cs \<Longrightarrow> code_newlines cs \<noteq> []"
proof (induction cs)
  case (Cons c cs)
  then show ?case by (cases cs) (auto simp: begins_lf_def split: if_splits)
qed simp

lemma spaces_ends: "spaces t \<Longrightarrow> t \<noteq> [] \<Longrightarrow> hd_opt t = Some SPACE \<and> last_opt t = Some SPACE"
  by (auto simp: spaces_def hd_opt_def last_opt_def list_all_iff split: list.splits)

lemma normal_code_spec:
  "normal_code cs = (if blank_crlf cs then butlast (tl (code_newlines cs)) else spec_code cs)"
proof (cases "blank_crlf cs")
  case True
  then have "spaces (code_newlines cs)" "code_newlines cs \<noteq> []" "code_nonspace cs"
    using has_crlf_newlines by (auto simp: blank_crlf_def spaces_newlines code_nonspace_iff)
  then show ?thesis using True spaces_ends by (simp add: normal_code_def Let_def)
next
  case False
  then have "\<not> (spaces (code_newlines cs) \<and> has_crlf cs)" by (simp add: blank_crlf_def spaces_newlines)
  then show ?thesis using False by (auto simp: code_nonspace_iff normal_code_def spec_code_def Let_def)
qed

lemma normalize_code_loop_eq:
  assumes "sz = int (length out + length gap + length cs)"
    and "r = int (length out + length gap)" "w = int (length out)" "gap \<noteq> [] \<Longrightarrow> b"
  shows "\<exists>gap'. normalize_code_loop (out @ gap @ cs @ NUL # tail) sz r w b =
           Inr (out @ code_newlines cs @ gap' @ NUL # tail, w + int (length (code_newlines cs)), b \<or> code_nonspace cs) \<and>
         length gap' + length (code_newlines cs) = length gap + length cs"
  using assms
proof (induction cs arbitrary: out gap r w b)
  case Nil
  then show ?case by (simp add: normalize_code_loop.simps)
next
  case (Cons c cs)
  let ?p = "out @ gap @ (c # cs) @ NUL # tail"
  have r: "r < sz" "peek ?p r = Inr c" "peek ?p (r + 1) = Inr (hd (cs @ [NUL]))"
    using Cons.prems by (auto simp: nth_append block hd_append hd_conv_nth neq_Nil_conv)
  have lf: "hd (cs @ [NUL]) = LF \<longleftrightarrow> begins_lf cs" by (cases cs) (auto simp: begins_lf_def)
  obtain g gs where g: "gap @ [c] = g # gs" by (cases gap) auto
  have p: "?p = out @ g # gs @ cs @ NUL # tail" using g by (metis append.assoc append_Cons append_Nil)
  have len: "length gap = length gs" using g by (metis length_append_singleton length_Cons nat.inject)
  have wr: "poke ?p w x = Inr ((out @ [x]) @ gs @ cs @ NUL # tail)" for x
    unfolding p Cons.prems(3) by (simp only: poke_at) simp
  have rd: "peek ((out @ [x]) @ gs @ cs @ NUL # tail) r = Inr (if gap = [] then x else c)" for x
  proof (cases gap)
    case Nil
    with g Cons.prems show ?thesis by simp
  next
    case (Cons y ys)
    then have "gs = ys @ [c]" "r = int (length (out @ [x]) + length ys)" using g Cons.prems by simp_all
    then show ?thesis using Cons peek_at [of "(out @ [x]) @ ys" c "cs @ NUL # tail"] by simp
  qed
  have step: "\<exists>gap'. normalize_code_loop ((out @ [x]) @ gs @ cs @ NUL # tail) sz (r + 1) (w + 1) b' =
      Inr ((out @ [x]) @ code_newlines cs @ gap' @ NUL # tail,
           w + 1 + int (length (code_newlines cs)), b' \<or> code_nonspace cs) \<and>
      length gap' + length (code_newlines cs) = length gs + length cs" if "gs \<noteq> [] \<Longrightarrow> b'" for x b'
    using Cons.IH [of "out @ [x]" gs "r + 1" "w + 1" b'] Cons.prems len that by simp
  have gs: "gs = [] \<longleftrightarrow> gap = []" using len by (metis length_0_conv)
  show ?case
  proof (cases "c = CR \<and> begins_lf cs")
    case True
    have "\<exists>gap'. normalize_code_loop (out @ (gap @ [c]) @ cs @ NUL # tail) sz (r + 1) w True =
      Inr (out @ code_newlines cs @ gap' @ NUL # tail, w + int (length (code_newlines cs)), True) \<and>
      length gap' + length (code_newlines cs) = length gap + 1 + length cs"
      using Cons.IH [of out "gap @ [c]" "r + 1" w True] Cons.prems by simp
    then show ?thesis using True r lf by (subst normalize_code_loop.simps) auto
  next
    case False
    define x where "x = (if c = CR \<or> c = LF then SPACE else c)"
    let ?b = "b \<or> (if gap = [] then x else c) \<noteq> SPACE"
    have "normalize_code_loop ?p sz r w b =
        normalize_code_loop ((out @ [x]) @ gs @ cs @ NUL # tail) sz (r + 1) (w + 1) ?b"
      using r lf False wr [of x] rd [of x] unfolding x_def
      by (subst normalize_code_loop.simps) auto
    moreover have "(?b \<or> code_nonspace cs) = (b \<or> code_nonspace (c # cs))"
      using False Cons.prems(4) by (auto simp: x_def)
    moreover have "code_newlines (c # cs) = x # code_newlines cs" using False by (auto simp: x_def)
    moreover have "gs \<noteq> [] \<Longrightarrow> ?b" using gs Cons.prems(4) by blast
    ultimately show ?thesis using step [of ?b x] len by (auto simp: algebra_simps)
  qed
qed

lemma hd_last_opt:
  "t \<noteq> [] \<Longrightarrow> peek (t @ u) 0 = Inr (hd t) \<and> peek (t @ u) (int (length t) - 1) = Inr (last t)"
  by (cases t rule: rev_cases) (auto simp: peek_def nth_append hd_append last_conv_nth hd_conv_nth)

lemma code_nonspace_newlines: "code_nonspace cs \<Longrightarrow> code_newlines cs \<noteq> []"
proof (induction cs)
  case (Cons c cs)
  then show ?case by (cases cs) (auto simp: begins_lf_def split: if_splits)
qed simp

lemma normal_code_becomes:
  assumes ok: "strbuf_ok b"
  shows "becomes (S_normalize_code b) (normal_code (contents b))"
proof -
  from ok obtain tail
    where f: "ptr b = contents b @ NUL # tail" "bsize b = int (length (contents b))"
    by (rule strbuf_ok_form)
  let ?t = "code_newlines (contents b)" and ?ns = "code_nonspace (contents b)"
  from normalize_code_loop_eq [of "bsize b" "[]" "[]" "contents b" 0 0 False tail] f
  obtain gap where g: "normalize_code_loop (ptr b) (bsize b) 0 0 False =
      Inr (?t @ gap @ NUL # tail, int (length ?t), ?ns)"
    "length gap + length ?t = length (contents b)"
    by auto
  let ?p = "(?t @ gap) @ NUL # tail"
  have len: "length ?p = length (ptr b)" "bsize b = int (length (?t @ gap))"
    using arg_cong [OF f(1), of length] f(2) g(2) by simp_all
  note fit = strbuf_ok_intro [OF ok_inv [OF ok] len(1) refl len(2)]
  let ?b = "b\<lparr>ptr := ?p\<rparr>"
  have okb: "strbuf_ok ?b" "contents ?b = ?t @ gap" using fit by simp_all
  define strip where "strip \<longleftrightarrow> ?ns \<and> hd_opt ?t = Some SPACE \<and> last_opt ?t = Some SPACE"
  have st: "(if ?ns then bindr (peek ?p 0) (\<lambda>a.
          if a = SPACE then bindr (peek ?p (int (length ?t) - 1)) (\<lambda>b. Inr (b = SPACE)) else Inr False)
        else Inr False) = Inr strip"
  proof (cases ?ns)
    case True
    then have "?t \<noteq> []" by (rule code_nonspace_newlines)
    with hd_last_opt [OF this, of "gap @ NUL # tail"] True show ?thesis
      by (auto simp: strip_def hd_opt_def last_opt_def split: list.splits)
  qed (simp add: strip_def)
  have keep: "becomes (cmark_strbuf_truncate ?b (int (length ?t))) ?t"
    using truncate_becomes [OF okb(1), of "int (length ?t)"] okb(2) by simp
  have trim: "becomes (bindr (cmark_strbuf_drop ?b 1) (\<lambda>s. cmark_strbuf_truncate s (int (length ?t) - 2)))
      (butlast (tl ?t))" if ns: ?ns
  proof -
    have ne: "?t \<noteq> []" by (rule code_nonspace_newlines [OF ns])
    have d: "becomes (cmark_strbuf_drop ?b 1) (tl ?t @ gap)"
      using drop_becomes [OF okb(1), of 1] okb(2) ne by (simp add: drop_Suc)
    have e: "take (nat (int (length ?t) - 2)) (tl ?t @ gap) = butlast (tl ?t)"
    proof -
      have "nat (int (length ?t) - 2) = length (tl ?t) - 1" using ne by (cases ?t) auto
      then show ?thesis by (simp add: butlast_conv_take)
    qed
    show ?thesis
      by (rule becomes_bindr [OF d]) (metis e truncate_becomes)
  qed
  have "becomes (if strip then bindr (cmark_strbuf_drop ?b 1) (\<lambda>s. cmark_strbuf_truncate s (int (length ?t) - 2))
      else cmark_strbuf_truncate ?b (int (length ?t))) (normal_code (contents b))"
    using keep trim by (simp add: normal_code_def strip_def Let_def)
  moreover have g': "normalize_code_loop (ptr b) (bsize b) 0 0 False = Inr (?p, int (length ?t), ?ns)"
    using g(1) by simp
  ultimately show ?thesis
    unfolding S_normalize_code_def g' bindr_Inr prod.case Let_def st by simp
qed

section \<open>The runs are the maximal ones\<close>

text \<open>A run of \<open>k\<close> backticks in a text that starts at \<open>p\<close>, with no backtick before or behind it.\<close>

definition is_run :: "int \<Rightarrow> byte list \<Rightarrow> int \<times> int \<Rightarrow> bool" where
  "is_run p cs r \<longleftrightarrow>
     (\<exists>a k b. cs = a @ replicate k BACKTICK @ b \<and> r = (p + int (length a), int k) \<and> 0 < k \<and>
        last_opt a \<noteq> Some BACKTICK \<and> hd_opt b \<noteq> Some BACKTICK)"

lemma no_run: "BACKTICK \<notin> set cs \<Longrightarrow> \<not> is_run p cs r"
  by (auto simp: is_run_def)

lemma hd_opt_dropWhile: "hd_opt (dropWhile isbacktick cs) \<noteq> Some BACKTICK"
  by (induction cs) (auto simp: isbacktick_def hd_opt_def)

lemma takeWhile_ticks: "takeWhile isbacktick cs = replicate (length (takeWhile isbacktick cs)) BACKTICK"
  by (induction cs) (auto simp: isbacktick_def)

lemma ticks_split:
  assumes "replicate k BACKTICK @ b = replicate m BACKTICK @ c" "hd_opt b \<noteq> Some BACKTICK" "hd_opt c \<noteq> Some BACKTICK"
  shows "k = m"
  using assms
proof (induction k arbitrary: m)
  case 0
  then show ?case by (cases m) (auto simp: hd_opt_def)
next
  case (Suc k)
  then show ?case by (cases m) (auto simp: hd_opt_def)
qed

text \<open>A text without backticks, a run, and what follows it.\<close>

lemma is_run_split:
  assumes a: "BACKTICK \<notin> set u" and k: "0 < k" and c: "hd_opt c \<noteq> Some BACKTICK"
  shows "is_run p (u @ replicate k BACKTICK @ c) r \<longleftrightarrow>
    r = (p + int (length u), int k) \<or> is_run (p + int (length u) + int k) c r"
proof
  let ?w = "u @ replicate k BACKTICK"
  assume "is_run p (u @ replicate k BACKTICK @ c) r"
  then obtain a' m b where r: "u @ replicate k BACKTICK @ c = a' @ replicate m BACKTICK @ b"
      "r = (p + int (length a'), int m)" "0 < m" "last_opt a' \<noteq> Some BACKTICK" "hd_opt b \<noteq> Some BACKTICK"
    by (auto simp: is_run_def)
  consider (left) v where "u = a' @ v" "v \<noteq> []" | (eq) "a' = u"
    | (mid) v v' where "a' = u @ v" "v \<noteq> []" "replicate k BACKTICK = v @ v'"
    | (right) v where "a' = ?w @ v"
    using r(1) by (auto simp: append_eq_append_conv2)
  then show "r = (p + int (length u), int k) \<or> is_run (p + int (length u) + int k) c r"
  proof cases
    case left
    obtain m' where m: "m = Suc m'" using r(3) by (cases m) auto
    obtain x vs where v: "v = x # vs" using left(2) by (cases v) auto
    from r(1) have "x = BACKTICK" unfolding left(1) v m by simp
    with a left(1) v show ?thesis by simp
  next
    case eq
    then have e: "replicate k BACKTICK @ c = replicate m BACKTICK @ b" using r(1) by simp
    from ticks_split [OF e c r(5)] show ?thesis using eq r(2) by simp
  next
    case mid
    then have "set v \<subseteq> {BACKTICK}" by (metis Un_subset_iff empty_subsetI set_append set_replicate_conv_if subset_refl)
    then have "last a' = BACKTICK" using mid by (metis last_append last_in_set singletonD subsetD)
    with mid r(4) show ?thesis by (simp add: last_opt_def)
  next
    case right
    have l: "last_opt v \<noteq> Some BACKTICK" using r(4) right by (cases v rule: rev_cases) (auto simp: last_opt_def)
    have e: "c = v @ replicate m BACKTICK @ b" using r(1) right by simp
    have "r = (p + int (length u) + int k + int (length v), int m)" using r(2) right by simp
    with l e r(3,5) show ?thesis unfolding is_run_def by blast
  qed
next
  assume "r = (p + int (length u), int k) \<or> is_run (p + int (length u) + int k) c r"
  then show "is_run p (u @ replicate k BACKTICK @ c) r"
  proof
    assume "r = (p + int (length u), int k)"
    moreover have "last_opt u \<noteq> Some BACKTICK" using a last_opt_in by fastforce
    ultimately show ?thesis using k c by (auto simp: is_run_def)
  next
    assume "is_run (p + int (length u) + int k) c r"
    then obtain a' m b where r: "c = a' @ replicate m BACKTICK @ b"
        "r = (p + int (length u) + int k + int (length a'), int m)" "0 < m"
        "last_opt a' \<noteq> Some BACKTICK" "hd_opt b \<noteq> Some BACKTICK"
      by (auto simp: is_run_def)
    have "a' \<noteq> []"
    proof
      assume "a' = []"
      with r(1,3) have "hd_opt c = Some BACKTICK" by (cases m) (auto simp: hd_opt_def)
      with c show False by simp
    qed
    then have "last_opt (u @ replicate k BACKTICK @ a') \<noteq> Some BACKTICK"
      using r(4) by (simp add: last_opt_def)
    with r show ?thesis unfolding is_run_def
      by (intro exI [of _ "u @ replicate k BACKTICK @ a'"] exI [of _ m] exI [of _ b]) simp
  qed
qed

lemma tick_runs_step:
  assumes "dropWhile (\<lambda>c. c \<noteq> BACKTICK) cs \<noteq> []"
  obtains u k c where "cs = u @ replicate k BACKTICK @ c" "BACKTICK \<notin> set u" "0 < k" "hd_opt c \<noteq> Some BACKTICK"
    "\<And>i. tick_runs i cs = (i + int (length u), int k) # tick_runs (i + int (length u) + int k) c"
proof -
  let ?u = "takeWhile (\<lambda>c. c \<noteq> BACKTICK) cs" and ?ys = "dropWhile (\<lambda>c. c \<noteq> BACKTICK) cs"
  let ?k = "length (takeWhile isbacktick ?ys)"
  have "isbacktick (hd ?ys)" using hd_dropWhile [OF assms] by (simp add: isbacktick_def)
  then have k: "0 < ?k" by (rule takeWhile_length_pos [of _ isbacktick, OF assms])
  have "?ys = replicate ?k BACKTICK @ dropWhile isbacktick ?ys"
    using takeWhile_ticks [of ?ys] takeWhile_dropWhile_id [of isbacktick ?ys] by metis
  then have "cs = ?u @ replicate ?k BACKTICK @ dropWhile isbacktick ?ys"
    using takeWhile_dropWhile_id [of "\<lambda>c. c \<noteq> BACKTICK" cs] by metis
  moreover have "BACKTICK \<notin> set ?u" using set_takeWhileD by fastforce
  ultimately show thesis
    using that [of ?u ?k "dropWhile isbacktick ?ys"] k hd_opt_dropWhile assms
    by (simp add: tick_runs.simps [of _ cs] Let_def)
qed

lemma tick_runs_iff: "r \<in> set (tick_runs p cs) \<longleftrightarrow> is_run p cs r"
proof (induction "length cs" arbitrary: p cs rule: less_induct)
  case less
  show ?case
  proof (cases "dropWhile (\<lambda>c. c \<noteq> BACKTICK) cs = []")
    case True
    then have "BACKTICK \<notin> set cs" by (auto simp: dropWhile_eq_Nil_conv)
    with True no_run show ?thesis by (simp add: tick_runs.simps [of _ cs] Let_def)
  next
    case False
    then obtain u k c where c: "cs = u @ replicate k BACKTICK @ c" "BACKTICK \<notin> set u" "0 < k"
        "hd_opt c \<noteq> Some BACKTICK"
        "\<And>i. tick_runs i cs = (i + int (length u), int k) # tick_runs (i + int (length u) + int k) c"
      by (rule tick_runs_step) blast
    have "length c < length cs" using c by simp
    from less [OF this, of "p + int (length u) + int k"] is_run_split [OF c(2,3,4), of p r] c(1,5)
    show ?thesis by simp
  qed
qed

lemma tick_runs_bounds: "(i, k) \<in> set (tick_runs p cs) \<Longrightarrow> p \<le> i \<and> 0 < k \<and> i + k \<le> p + int (length cs)"
  by (auto simp: tick_runs_iff is_run_def)

lemma tick_runs_sorted: "sorted_wrt (\<lambda>r r'. fst r < fst r') (tick_runs p cs)"
proof (induction "length cs" arbitrary: p cs rule: less_induct)
  case less
  show ?case
  proof (cases "dropWhile (\<lambda>c. c \<noteq> BACKTICK) cs = []")
    case True
    then show ?thesis by (simp add: tick_runs.simps [of _ cs] Let_def)
  next
    case False
    then obtain u k c where c: "cs = u @ replicate k BACKTICK @ c" "0 < k"
        "\<And>i. tick_runs i cs = (i + int (length u), int k) # tick_runs (i + int (length u) + int k) c"
      by (rule tick_runs_step) blast
    have "length c < length cs" using c by simp
    from less [OF this] c tick_runs_bounds show ?thesis by fastforce
  qed
qed

section \<open>The memo\<close>

text \<open>
  What \<open>subj->backticks\<close> must say for the shortcut to be right: no run that is still ahead of the position
  starts behind the place noted for its length.
\<close>

definition memo_ok :: "subject \<Rightarrow> bool" where
  "memo_ok s \<longleftrightarrow>
     (\<forall>r \<in> set (runs_of s). snd r \<le> MAXBACKTICKS \<longrightarrow> fst r \<le> sj_backticks s ! nat (snd r))"

lemma store_run_nth:
  "snd x \<le> MAXBACKTICKS \<Longrightarrow> nat (snd x) < length b \<Longrightarrow> store_run b x ! nat (snd x) = fst x"
  "nat (snd x) \<noteq> j \<Longrightarrow> store_run b x ! j = b ! j"
  by (simp_all add: store_run_def)

lemma store_all:
  assumes "sorted_wrt (\<lambda>r r'. fst r < fst r') rs" "r \<in> set rs" "snd r \<le> MAXBACKTICKS"
    "\<forall>r \<in> set rs. 0 < snd r" "length b = nat (MAXBACKTICKS + 1)"
  shows "fst r \<le> foldl store_run b rs ! nat (snd r)"
  using assms
proof (induction rs arbitrary: r rule: rev_induct)
  case (snoc x rs)
  have len: "length (foldl store_run b rs) = nat (MAXBACKTICKS + 1)"
    using snoc.prems(5) by (induction rs rule: rev_induct) simp_all
  have x: "fst r \<le> fst x" using snoc.prems(1,2) by (auto simp: sorted_wrt_append)
  show ?case
  proof (cases "snd r = snd x")
    case True
    have "nat (snd r) < length (foldl store_run b rs)"
      using snoc.prems(3) len by (simp add: MAXBACKTICKS_def nat_less_iff)
    with True x snoc.prems(3) show ?thesis by (simp add: store_run_nth(1))
  next
    case False
    then have "r \<in> set rs" using snoc.prems(2) by auto
    moreover from this have "nat (snd x) \<noteq> nat (snd r)" using snoc.prems(4) False by auto
    ultimately show ?thesis using snoc.IH [of r] snoc.prems by (simp add: store_run_nth(2) sorted_wrt_append)
  qed
qed simp

lemma first_closer_eq:
  "first_closer n rs = None \<longleftrightarrow> List.find (run_of n) rs = None"
  "List.find (run_of n) rs = Some (i, k) \<Longrightarrow> first_closer n rs = Some (i + k)"
  by (simp_all add: first_closer_def)

lemma foldl_store_length [simp]: "length (foldl store_run b rs) = length b"
  by (induction rs arbitrary: b) simp_all

text \<open>What the scan returns: the position behind the closer, or 0.\<close>

definition closer_pos :: "int \<Rightarrow> subject \<Rightarrow> int" where
  "closer_pos n s = (if n > MAXBACKTICKS then 0 else case first_closer n (runs_of s) of None \<Rightarrow> 0 | Some e \<Rightarrow> e)"

definition scan_post :: "subject \<Rightarrow> int \<Rightarrow> int \<Rightarrow> subject \<Rightarrow> bool" where
  "scan_post s n endpos s' \<longleftrightarrow>
     ticks_ok s' \<and> sj_input s' = sj_input s \<and>
     (endpos \<noteq> 0 \<longrightarrow> sj_pos s + n \<le> endpos \<and> sj_pos s' = endpos) \<and>
     (endpos = 0 \<longrightarrow> (sj_scanned_for_backticks s' \<longrightarrow> memo_ok (s'\<lparr>sj_pos := sj_pos s\<rparr>)))"

lemma closing_loop_post:
  assumes ok: "ticks_ok s" and n: "0 < n" "n \<le> MAXBACKTICKS"
  shows "\<exists>s'. closing_loop s n = Inr (closer_pos n s, s') \<and> scan_post s n (closer_pos n s) s'"
proof (cases "List.find (run_of n) (runs_of s)")
  case None
  let ?b = "foldl store_run (sj_backticks s) (runs_of s)"
  let ?s = "s\<lparr>sj_pos := ch_len (sj_input s), sj_backticks := ?b, sj_scanned_for_backticks := True\<rparr>"
  have cp: "closer_pos n s = 0" using None by (simp add: closer_pos_def first_closer_def)
  have "closing_loop s n = Inr (0, ?s)" using closing_loop_eq [OF ok n(1)] None by (simp add: scan_result_def Let_def)
  moreover have "ticks_ok ?s" using ok by (simp add: ticks_ok_def subject_ok_def)
  moreover have "memo_ok (?s\<lparr>sj_pos := sj_pos s\<rparr>)"
  proof -
    have "\<forall>r \<in> set (runs_of s). 0 < snd r" using tick_runs_bounds by fastforce
    then have "fst r \<le> ?b ! nat (snd r)" if "r \<in> set (runs_of s)" "snd r \<le> MAXBACKTICKS" for r
      using store_all [OF tick_runs_sorted that] ok by (simp add: ticks_ok_def)
    then show ?thesis by (simp add: memo_ok_def rest_of_def)
  qed
  ultimately show ?thesis by (simp add: cp scan_post_def)
next
  case (Some r)
  obtain i k where r: "r = (i, k)" by (cases r)
  note Some = Some [unfolded r]
  let ?b = "store_run (foldl store_run (sj_backticks s) (takeWhile (\<lambda>r. \<not> run_of n r) (runs_of s))) (i, k)"
  let ?s = "s\<lparr>sj_pos := i + k, sj_backticks := ?b\<rparr>"
  have mem: "(i, k) \<in> set (runs_of s)" "k = n"
    using Some by (auto simp: find_Some_iff run_of_def) (metis snd_conv)
  have bnd: "sj_pos s \<le> i" "0 < k" "i + k \<le> ch_len (sj_input s)"
    using tick_runs_bounds [OF mem(1)] length_rest [of s] ok by (auto simp: ticks_ok_def)
  have p: "0 \<le> sj_pos s" using ok by (simp add: ticks_ok_def subject_ok_def)
  have cp: "closer_pos n s = i + k" using Some n by (simp add: closer_pos_def first_closer_def)
  have "closing_loop s n = Inr (i + k, ?s)" using closing_loop_eq [OF ok n(1)] Some by (simp add: scan_result_def Let_def)
  moreover have "ticks_ok ?s" using ok bnd p by (simp add: ticks_ok_def subject_ok_def)
  ultimately show ?thesis using bnd p mem(2) by (simp add: cp scan_post_def)
qed

text \<open>Past a run, fewer runs are ahead, so that the memo stays right.\<close>

lemma memo_moves:
  assumes ok: "subject_ok s" and m: "m \<le> length (rest_of s)" "hd_opt (drop m (rest_of s)) \<noteq> Some BACKTICK"
    and memo: "memo_ok s"
  shows "memo_ok (moved s m)"
proof -
  have "set (runs_of (moved s m)) \<subseteq> set (runs_of s)"
  proof
    fix r assume "r \<in> set (runs_of (moved s m))"
    then obtain a k b where r: "drop m (rest_of s) = a @ replicate k BACKTICK @ b"
        "r = (sj_pos s + int m + int (length a), int k)" "0 < k" "last_opt a \<noteq> Some BACKTICK" "hd_opt b \<noteq> Some BACKTICK"
      by (auto simp: tick_runs_iff is_run_def rest_moved [OF ok])
    have "a \<noteq> []"
    proof
      assume "a = []"
      with r(1,3) have "hd_opt (drop m (rest_of s)) = Some BACKTICK" by (cases k) (auto simp: hd_opt_def)
      with m(2) show False by simp
    qed
    then have l: "last_opt (take m (rest_of s) @ a) \<noteq> Some BACKTICK" using r(4) by (simp add: last_opt_def)
    have e: "rest_of s = (take m (rest_of s) @ a) @ replicate k BACKTICK @ b"
      using append_take_drop_id [of m "rest_of s"] r(1) by simp
    have "r = (sj_pos s + int (length (take m (rest_of s) @ a)), int k)" using r(2) m(1) by simp
    with e l r(3,5) show "r \<in> set (runs_of s)" unfolding tick_runs_iff is_run_def by blast
  qed
  with memo show ?thesis by (auto simp: memo_ok_def)
qed

section \<open>The node\<close>

lemma strbuf_init_0: "cmark_strbuf_init m 0 = Inr (strbuf_empty m)"
  by (simp add: cmark_strbuf_init_def)

text \<open>The newlines of a span that lies in the text.\<close>

lemma count_newlines_loop_ok:
  assumes "chunk_ok (sj_input s)" "0 \<le> fr" "fr + int n \<le> ch_len (sj_input s)"
  shows "\<exists>since. count_newlines_loop s fr (int n) nls since_nl =
    Inr (nls + int (count_list (take n (drop (nat fr) (chunk_bytes (sj_input s)))) LF), since)"
  using assms
proof (induction n arbitrary: fr nls since_nl)
  case 0
  then show ?case by (simp add: count_newlines_loop.simps)
next
  case (Suc n)
  let ?bs = "chunk_bytes (sj_input s)"
  have i: "nat fr < length ?bs" using Suc.prems chunk_len [OF Suc.prems(1)] by linarith
  have d: "drop (nat fr) ?bs = ?bs ! nat fr # drop (nat (fr + 1)) ?bs"
    using Cons_nth_drop_Suc [OF i] Suc.prems(2) by (simp add: nat_add_distrib)
  have pk: "peek_at_pos s fr = Inr (?bs ! nat fr)"
    using chunk_at_byte [OF Suc.prems(1,2)] Suc.prems(3) by (simp add: peek_at_pos_def)
  have IH: "\<exists>since. count_newlines_loop s (fr + 1) (int n) nls' since' =
      Inr (nls' + int (count_list (take n (drop (nat (fr + 1)) ?bs)) LF), since)" for nls' since'
    using Suc.IH [of "fr + 1" nls' since'] Suc.prems by simp
  show ?case
    using IH [of "nls + 1" 0] IH [of nls "since_nl + 1"] pk d
    by (subst count_newlines_loop.simps) (auto simp: algebra_simps)
qed

lemma adjust_ok:
  assumes c: "chunk_ok (sj_input s)"
    and r: "0 \<le> sj_pos s - matchlen - extra" "sj_pos s - extra \<le> ch_len (sj_input s)" "0 \<le> matchlen"
    and nd: "cell h p = Some nd"
  shows "\<exists>nd' s'. adjust_subj_node_newlines h s p matchlen extra options = Inr (h[p := Some nd'], s') \<and>
    n_as nd' = n_as nd \<and> n_type nd' = n_type nd \<and> backtick_count nd' = backtick_count nd \<and>
    start_line nd' = start_line nd \<and> start_column nd' = start_column nd \<and>
    sj_input s' = sj_input s \<and> sj_pos s' = sj_pos s \<and> sj_backticks s' = sj_backticks s \<and>
    (let k = if opt options CMARK_OPT_SOURCEPOS
             then int (count_list (take (nat matchlen) (drop (nat (sj_pos s - matchlen - extra))
                    (chunk_bytes (sj_input s)))) LF) else 0
     in sj_line s' = sj_line s + k \<and> end_line nd' = end_line nd + k)"
proof (cases "opt options CMARK_OPT_SOURCEPOS")
  case False
  have "h[p := Some nd] = h" using nd by (auto simp: cell_def list_update_same_conv split: if_splits)
  with False show ?thesis by (simp add: adjust_subj_node_newlines_def) metis
next
  case True
  obtain since where l: "count_newlines_loop s (sj_pos s - matchlen - extra) matchlen 0 0 =
      Inr (int (count_list (take (nat matchlen) (drop (nat (sj_pos s - matchlen - extra))
                    (chunk_bytes (sj_input s)))) LF), since)" (is "_ = Inr (?k, _)")
    using count_newlines_loop_ok [OF c r(1), of "nat matchlen" 0 0] r by auto
  show ?thesis
  proof (cases "?k = 0")
    case z: True
    have "h[p := Some nd] = h" using nd by (auto simp: cell_def list_update_same_conv split: if_splits)
    moreover have "adjust_subj_node_newlines h s p matchlen extra options = Inr (h, s)"
      using True l z by (simp add: adjust_subj_node_newlines_def count_newlines_def)
    ultimately show ?thesis using True z by (intro exI [of _ nd] exI [of _ s]) simp
  next
    case z: False
    let ?nd = "nd\<lparr>end_line := end_line nd + ?k, end_column := since\<rparr>"
    let ?s = "s\<lparr>sj_line := sj_line s + ?k, sj_column_offset := - sj_pos s + since + extra\<rparr>"
    have "adjust_subj_node_newlines h s p matchlen extra options = Inr (h[p := Some ?nd], ?s)"
      using True l z nd by (simp add: adjust_subj_node_newlines_def count_newlines_def update_def deref_heap)
    then show ?thesis using True by (intro exI [of _ ?nd] exI [of _ ?s]) simp
  qed
qed

text \<open>
  A scan for a closing run of backticks ends and returns the position behind the first run of exactly the length
  of the opener, or 0 when there is none or when the opener is longer than \<open>MAXBACKTICKS\<close>, without reading
  outside the text, as long as the memo of earlier scans is right for the text ahead.  A scan that finds
  nothing leaves such a memo.  (A scan that does find a closer need not: see \<open>backtick_memo_stale\<close>.)
\<close>

lemma code_span_closer:
  assumes "ticks_ok s" "0 < n" "hd_opt (rest_of s) \<noteq> Some BACKTICK"
    and "sj_scanned_for_backticks s \<Longrightarrow> memo_ok s"
  shows "\<exists>s'. scan_to_closing_backticks s n = Inr (closer_pos n s, s') \<and> scan_post s n (closer_pos n s) s'"
proof -
  have refl: "s\<lparr>sj_pos := sj_pos s\<rparr> = s" by simp
  show ?thesis
  proof (cases "n > MAXBACKTICKS")
    case True
    with assms(1,4) show ?thesis
      by (simp add: scan_to_closing_backticks_def closer_pos_def scan_post_def)
  next
    case n: False
    show ?thesis
    proof (cases "sj_scanned_for_backticks s \<and> sj_backticks s ! nat n \<le> sj_pos s")
      case True
      have pk: "peek (sj_backticks s) n = Inr (sj_backticks s ! nat n)"
        using n assms(1,2) by (simp add: peek_def ticks_ok_def MAXBACKTICKS_def)
      have "List.find (run_of n) (runs_of s) = None"
      proof (rule ccontr)
        assume "List.find (run_of n) (runs_of s) \<noteq> None"
        then obtain i where r: "(i, n) \<in> set (runs_of s)"
          by (auto simp: find_Some_iff run_of_def) (metis nth_mem prod.collapse)
        then have "i \<le> sj_pos s" using assms(4) True n by (force simp: memo_ok_def)
        moreover have "sj_pos s \<le> i" using tick_runs_bounds [OF r] by simp
        ultimately obtain a k b where "rest_of s = a @ replicate k BACKTICK @ b" "0 < k" "length a = 0"
          using r by (auto simp: tick_runs_iff is_run_def)
        then have "hd_opt (rest_of s) = Some BACKTICK" by (cases k) (auto simp: hd_opt_def)
        with assms(3) show False by simp
      qed
      then have "closer_pos n s = 0" by (simp add: closer_pos_def first_closer_def)
      with pk True n assms(1,4) show ?thesis by (simp add: scan_to_closing_backticks_def scan_post_def)
    next
      case False
      have "scan_to_closing_backticks s n = closing_loop s n"
        using n False assms(1,2) by (auto simp: scan_to_closing_backticks_def peek_def ticks_ok_def MAXBACKTICKS_def)
      with closing_loop_post [OF assms(1,2)] n show ?thesis by simp
    qed
  qed
qed

text \<open>
  What a code span gives: \<open>n\<close> is the number of backticks of the opener, \<open>e\<close> the position behind the closer.
\<close>

definition opener_len :: "subject \<Rightarrow> nat" where
  "opener_len s = length (takeWhile isbacktick (rest_of s))"

definition span_text :: "subject \<Rightarrow> int \<Rightarrow> byte list" where
  "span_text s e =
     (let n = opener_len s in take (nat (e - sj_pos s - 2 * int n)) (drop n (rest_of s)))"

definition span_node :: "subject \<Rightarrow> subject \<Rightarrow> cmark_node \<Rightarrow> bool" where
  "span_node s s' nd \<longleftrightarrow>
     (let n = opener_len s; e = closer_pos (int n) (moved s n) in
      \<exists>c. n_as nd = As_literal c \<and> chunk_ok c \<and> start_line nd = sj_line s \<and> ticks_ok s' \<and>
        sj_input s' = sj_input s \<and>
        (if e = 0
         then n_type nd = CMARK_NODE_TEXT \<and> chunk_bytes c = replicate n BACKTICK \<and> sj_pos s' = sj_pos s + int n
         else n_type nd = CMARK_NODE_CODE \<and> backtick_count nd = int n \<and>
              (if blank_crlf (span_text s e) then chunk_bytes c = butlast (tl (code_newlines (span_text s e)))
               else chunk_bytes c = spec_code (span_text s e)) \<and> sj_pos s' = e))"

lemma scan_line:
  "scan_to_closing_backticks s n = Inr (e, s') \<Longrightarrow> ticks_ok s \<Longrightarrow> 0 < n \<Longrightarrow> sj_line s' = sj_line s \<and> sj_mem s' = sj_mem s"
  by (auto simp: scan_to_closing_backticks_def closing_loop_eq scan_result_def Let_def
      split: if_splits option.splits)

lemma span_fits:
  assumes s: "ticks_ok s" and b: "hd_opt (rest_of s) = Some BACKTICK"
    and e: "closer_pos (int (opener_len s)) (moved s (opener_len s)) = e" "e \<noteq> 0"
  shows "sj_pos s + 2 * int (opener_len s) < e" "e \<le> ch_len (sj_input s)"
proof -
  let ?n = "opener_len s"
  have ok: "subject_ok s" using s by (simp add: ticks_ok_def)
  have hd: "hd_opt (rest_of (moved s ?n)) \<noteq> Some BACKTICK"
    using rest_skip [OF ok, of isbacktick] hd_opt_dropWhile by (simp add: opener_len_def)
  obtain i k where f: "List.find (run_of (int ?n)) (runs_of (moved s ?n)) = Some (i, k)" "e = i + k"
    using e by (auto simp: closer_pos_def first_closer_def split: if_splits option.splits)
  then have "k = int ?n" "(i, k) \<in> set (runs_of (moved s ?n))"
    by (auto simp: find_Some_iff run_of_def) (metis snd_conv)
  with f have r: "(i, int ?n) \<in> set (runs_of (moved s ?n))" "e = i + int ?n" by simp_all
  have okm: "subject_ok (moved s ?n)" using skip_while_ok [OF ok] by (simp add: opener_len_def)
  have bnd: "sj_pos s + int ?n \<le> i" "e \<le> ch_len (sj_input s)"
    using tick_runs_bounds [OF r(1)] length_rest [OF okm] r(2) by auto
  have "sj_pos s + int ?n \<noteq> i"
  proof
    assume "sj_pos s + int ?n = i"
    with r(1) obtain a k b where "rest_of (moved s ?n) = a @ replicate k BACKTICK @ b" "0 < k" "length a = 0"
      by (auto simp: tick_runs_iff is_run_def)
    with hd show False by (cases k) (auto simp: hd_opt_def)
  qed
  with bnd r(2) show "sj_pos s + 2 * int ?n < e" "e \<le> ch_len (sj_input s)" by simp_all
qed

lemma code_span_node:
  assumes s: "ticks_ok s" and b: "hd_opt (rest_of s) = Some BACKTICK"
    and memo: "sj_scanned_for_backticks s \<Longrightarrow> memo_ok s"
    and small: "ch_len (sj_input s) \<le> grow_limit"
  shows "\<exists>nd s'. handle_backticks h s options = Inr (length h, h @ [Some nd], s') \<and> span_node s s' nd"
proof -
  let ?n = "opener_len s"
  let ?s1 = "moved s ?n"
  let ?e = "closer_pos (int ?n) ?s1"
  have ok: "subject_ok s" using s by (simp add: ticks_ok_def)
  have ne: "rest_of s \<noteq> []" using b by auto
  obtain c where c: "take_while isbacktick s = Inr (c, ?s1)" "chunk_ok c" "chunk_bytes c = replicate ?n BACKTICK"
    using take_while_eq [OF ok ne, of isbacktick] takeWhile_ticks [of "rest_of s"] by (auto simp: opener_len_def)
  have len: "ch_len c = int ?n" using chunk_len [OF c(2)] c(3) by simp
  have n: "0 < int ?n" using b by (cases "rest_of s") (auto simp: opener_len_def isbacktick_def hd_opt_def)
  have ok1: "ticks_ok ?s1" using skip_while_ok [OF ok] s by (simp add: opener_len_def ticks_ok_def)
  have hd1: "hd_opt (rest_of ?s1) \<noteq> Some BACKTICK"
    using rest_skip [OF ok, of isbacktick] hd_opt_dropWhile by (simp add: opener_len_def)
  have rest1: "rest_of ?s1 = drop ?n (rest_of s)" by (rule rest_moved [OF ok])
  have nle: "?n \<le> length (rest_of s)" by (simp add: opener_len_def length_takeWhile_le)
  have "sj_scanned_for_backticks ?s1 \<Longrightarrow> memo_ok ?s1"
    using memo_moves [OF ok nle _ memo] hd1 rest1 by simp
  from code_span_closer [OF ok1 n hd1 this]
  obtain s2 where s2: "scan_to_closing_backticks ?s1 (int ?n) = Inr (?e, s2)" "scan_post ?s1 (int ?n) ?e s2"
    by blast
  have line: "sj_line s2 = sj_line s" "sj_mem s2 = sj_mem s"
    using scan_line [OF s2(1) ok1 n] by (simp_all add: moved_def)
  have in2: "sj_input s2 = sj_input s" "ticks_ok s2" using s2(2) by (simp_all add: scan_post_def)
  show ?thesis
  proof (cases "?e = 0")
    case True
    let ?s' = "s2\<lparr>sj_pos := sj_pos s + int ?n\<rparr>"
    have "ticks_ok ?s'" using in2 ok1 by (simp add: ticks_ok_def subject_ok_def)
    with True c s2(1) len line in2 show ?thesis
      by (simp add: handle_backticks_def make_str_def make_literal_def strbuf_init_0 span_node_def Let_def)
  next
    case False
    note fit = span_fits [OF s b refl False]
    have pos2: "sj_pos s2 = ?e" using s2(2) False by (simp add: scan_post_def)
    have p0: "0 \<le> sj_pos s" using ok by (simp add: subject_ok_def)
    have okc: "chunk_ok (sj_input s)" using ok by (simp add: subject_ok_def)
    have "ch_len (sj_input s) \<noteq> 0" using fit p0 by linarith
    with okc obtain bs tail where d: "ch_data (sj_input s) = Some (bs @ tail)" "chunk_bytes (sj_input s) = bs"
        "ch_len (sj_input s) = int (length bs)"
      by (cases rule: chunk_cases) auto
    let ?st = "sj_pos s + int ?n"
    let ?len = "?e - ?st - int ?n"
    have st: "nat ?st \<le> length bs" using fit d(3) p0 n by linarith
    then have "int (length (drop (nat ?st) bs)) = int (length bs) - ?st" using p0 by simp
    with st have l: "0 < ?len" "nat ?st \<le> length bs" "?len \<le> int (length (drop (nat ?st) bs))" "?len \<le> grow_limit"
      using fit d(3) small n p0 by linarith+
    have spn: "take (nat ?len) (drop (nat ?st) (bs @ tail)) = span_text s ?e"
    proof -
      have "drop (nat ?st) bs = drop ?n (rest_of s)"
        using p0 d(2) by (simp add: rest_of_def nat_add_distrib add.commute)
      moreover have "nat (?e - sj_pos s - 2 * int ?n) = nat ?len" by (simp add: algebra_simps)
      ultimately show ?thesis using l by (simp add: span_text_def Let_def nat_le_iff)
    qed
    have "becomes (cmark_strbuf_set (strbuf_empty (sj_mem s)) (Block (drop (nat ?st) (bs @ tail))) ?len) (span_text s ?e)"
      using set_block [of "strbuf_empty (sj_mem s)" ?len "drop (nat ?st) (bs @ tail)"] l spn ok_inv by simp
    then obtain b1 where b1: "cmark_strbuf_set (strbuf_empty (sj_mem s)) (Block (drop (nat ?st) (bs @ tail))) ?len = Inr b1"
        "strbuf_ok b1" "contents b1 = span_text s ?e" by (auto simp: becomes_def)
    from normal_code_becomes [OF b1(2)] obtain b2 where b2: "S_normalize_code b1 = Inr b2" "strbuf_ok b2"
        "contents b2 = normal_code (span_text s ?e)" by (auto simp: becomes_def b1(3))
    note norm = normal_code_spec [of "span_text s ?e"]
    from buf_detach_bytes [OF b2(2)] obtain lit b3 where lit: "cmark_chunk_buf_detach b2 = Inr (lit, b3)"
        "chunk_ok lit" "chunk_bytes lit = normal_code (span_text s ?e)" by (auto simp: b2(3))
    define nd where "nd = (node_zero (sj_mem s))\<lparr>n_content := strbuf_empty (sj_mem s), n_type := CMARK_NODE_CODE,
       n_as := As_literal lit, start_line := sj_line s, end_line := sj_line s,
       start_column := ?st + 1 + sj_column_offset s2 + sj_block_offset s2,
       end_column := ?e - int ?n - 1 + 1 + sj_column_offset s2 + sj_block_offset s2\<rparr>"
    have mk: "make_code h s2 ?st (?e - int ?n - 1) lit = Inr (length h, h @ [Some nd])"
      by (simp add: make_code_def make_literal_def strbuf_init_0 line nd_def)
    let ?nd = "nd\<lparr>backtick_count := int ?n\<rparr>"
    have up: "update (h @ [Some nd]) (length h) (\<lambda>n. n\<lparr>backtick_count := int ?n\<rparr>) = Inr (h @ [Some ?nd])"
      by (simp add: update_def deref_heap cell_append)
    have cl: "cell (h @ [Some ?nd]) (length h) = Some ?nd" by (simp add: cell_append)
    obtain nd' s3 where adj: "adjust_subj_node_newlines (h @ [Some ?nd]) s2 (length h) (?e - ?st) (int ?n) options =
        Inr ((h @ [Some ?nd])[length h := Some nd'], s3)"
        "n_as nd' = n_as ?nd" "n_type nd' = n_type ?nd" "backtick_count nd' = backtick_count ?nd"
        "start_line nd' = start_line ?nd" "sj_input s3 = sj_input s2" "sj_pos s3 = sj_pos s2"
        "sj_backticks s3 = sj_backticks s2"
      using adjust_ok [OF _ _ _ _ cl, of s2 "?e - ?st" "int ?n" options] okc in2(1) pos2 fit p0 n
      by auto
    have t3: "ticks_ok s3" using in2(2) adj by (simp add: ticks_ok_def subject_ok_def)
    have run: "handle_backticks h s options = Inr (length h, h @ [Some nd'], s3)"
      using False c(1) len s2(1) d(1) in2(1) line(2) b1(1) b2(1) lit(1) mk up adj(1)
      by (simp add: handle_backticks_def Let_def chunk_block_def)
    have "span_node s s3 nd'"
      unfolding span_node_def Let_def using adj(2-7) False lit(2,3) t3 in2(1) pos2 norm by (simp add: nd_def)
    with run show ?thesis by blast
  qed
qed

section \<open>Properties\<close>

definition tick_subject :: "byte list \<Rightarrow> subject" where
  "tick_subject bs =
     subject_from_buf \<lparr>mem_id = 0, fresh = \<lambda>_. 0xAA\<rparr> 1 0
       \<lparr>ch_data = Some (bs @ [NUL]), ch_len = int (length bs), ch_alloc = False\<rparr>"

text \<open>
  C39: At a backtick, \<open>handle_backticks\<close> never fails and makes exactly one new node.  When the text ahead has a run of
  exactly as many backticks as the opener (of at most \<open>MAXBACKTICKS\<close>), it is a code node with the text
  up to the first such run, normalised as \<open>test/spec.txt\<close> and the comment on \<open>S_normalize_code\<close> say, and the position
  moves behind that run; otherwise it is a text node with
  the backticks of the opener, and the position moves behind them.  The one deviation from the
  specification is stated too: a text of spaces and line endings only, one of them CR LF, is stripped of a
  space on either side (\<open>blank_code_stripped\<close>).  All this holds for a fresh subject and as
  long as the memo of earlier scans is right for the text ahead (\<open>memo_ok\<close>); \<open>backtick_memo_stale\<close> shows that it
  need not be.
\<close>

theorem code_span_parsed:
  assumes "ticks_ok s" "hd_opt (rest_of s) = Some BACKTICK" "ch_len (sj_input s) \<le> grow_limit"
    and "sj_scanned_for_backticks s \<Longrightarrow> memo_ok s"
  shows "\<exists>nd s'. handle_backticks h s options = Inr (length h, h @ [Some nd], s') \<and> span_node s s' nd"
  using code_span_node [OF assms(1,2,4,3)] by blast

theorem code_span_parsed_witness:
  "\<exists>nd s' c. handle_backticks [] (tick_subject (str ''`` a ` b ``'')) 0 = Inr (0, [Some nd], s') \<and>
     n_type nd = CMARK_NODE_CODE \<and> n_as nd = As_literal c \<and> chunk_bytes c = str ''a ` b'' \<and> sj_pos s' = 11"
proof -
  let ?s = "tick_subject (str ''`` a ` b ``'')"
  have ok: "ticks_ok ?s" by code_simp
  have hd: "hd_opt (rest_of ?s) = Some BACKTICK" by code_simp
  have small: "ch_len (sj_input ?s) \<le> grow_limit" by code_simp
  have sc: "\<not> sj_scanned_for_backticks ?s" by code_simp
  have n: "opener_len ?s = 2" by code_simp
  have e: "closer_pos (int 2) (moved ?s 2) = 11" by code_simp
  have t: "\<not> blank_crlf (span_text ?s 11)" "spec_code (span_text ?s 11) = str ''a ` b''" by code_simp+
  from code_span_parsed [OF ok hd small, of "[]" 0] sc
  obtain nd s' where r: "handle_backticks [] ?s 0 = Inr (0, [Some nd], s')" "span_node ?s s' nd" by auto
  from r(2) have "n_type nd = CMARK_NODE_CODE \<and> sj_pos s' = 11 \<and>
      (\<exists>c. n_as nd = As_literal c \<and> chunk_bytes c = str ''a ` b'')"
    using t unfolding span_node_def Let_def n e by auto
  with r(1) show ?thesis by blast
qed

text \<open>
  The comment on \<open>S_normalize_code\<close> and \<open>test/spec.txt\<close> leave a code span of white space only as it is.  With a line ending
  CR LF in it, the code counts the CR as a character that is not a space and strips one space on either
  side: the result is never the one of the specification.
\<close>

theorem blank_code_stripped:
  assumes "strbuf_ok b" "blank_crlf (contents b)"
  shows "\<exists>b'. S_normalize_code b = Inr b' \<and> strbuf_ok b' \<and>
    spec_code (contents b) = code_newlines (contents b) \<and>
    contents b' = butlast (tl (code_newlines (contents b))) \<and> contents b' \<noteq> spec_code (contents b)"
proof -
  let ?t = "code_newlines (contents b)"
  have t: "?t \<noteq> []" "spaces ?t"
    using assms(2) has_crlf_newlines by (auto simp: blank_crlf_def spaces_newlines)
  then have s: "spec_code (contents b) = ?t" by (simp add: spec_code_def Let_def)
  have "length (butlast (tl ?t)) < length ?t" using t(1) by (cases ?t) auto
  then have ne: "butlast (tl ?t) \<noteq> ?t" by (metis less_irrefl)
  obtain b' where "S_normalize_code b = Inr b'" "strbuf_ok b'" "contents b' = normal_code (contents b)"
    using normal_code_becomes [OF assms(1)] by (auto simp: becomes_def)
  then show ?thesis using normal_code_spec [of "contents b"] assms(2) s ne by (intro exI [of _ b']) simp
qed

theorem blank_code_stripped_witness:
  "\<exists>b b'. contents b = [SPACE, CR, LF, SPACE] \<and> S_normalize_code b = Inr b' \<and> contents b' = [SPACE]"
proof -
  let ?m = "\<lparr>mem_id = 0, fresh = \<lambda>_. 0\<rparr>" and ?d = "[SPACE, CR, LF, SPACE]"
  have "becomes (cmark_strbuf_set (strbuf_empty ?m) (Block ?d) 4) ?d"
    using set_block [of "strbuf_empty ?m" 4 ?d] ok_inv by (simp add: grow_limit_def INT32_MAX_def)
  then obtain b where b: "strbuf_ok b" "contents b = ?d" by (auto simp: becomes_def)
  have bl: "blank_crlf (contents b)" unfolding b(2) by code_simp
  have "butlast (tl (code_newlines ?d)) = [SPACE]" by code_simp
  then show ?thesis using blank_code_stripped [OF b(1) bl] b(2) by auto
qed

section \<open>The memo goes wrong\<close>

lemma stored_below:
  assumes "\<forall>r \<in> set rs. fst r \<le> u \<and> 0 < snd r" "(i, m) \<in> set rs" "m \<le> MAXBACKTICKS" "length b = nat (MAXBACKTICKS + 1)"
  shows "foldl store_run b rs ! nat m \<le> u"
  using assms
proof (induction rs rule: rev_induct)
  case (snoc x rs)
  show ?case
  proof (cases "snd x = m")
    case True
    moreover have "nat m < length (foldl store_run b rs)" using snoc.prems(3,4) by (simp add: MAXBACKTICKS_def nat_less_iff)
    ultimately show ?thesis using snoc.prems(1,3) store_run_nth(1) [of x "foldl store_run b rs"] by simp
  next
    case False
    then have "(i, m) \<in> set rs" "0 < m" using snoc.prems(1,2) by auto
    moreover from False this(2) have "nat (snd x) \<noteq> nat m" using snoc.prems(1) by auto
    ultimately show ?thesis using snoc.IH snoc.prems by (simp add: store_run_nth(2))
  qed
qed simp

lemma find_split:
  assumes "List.find P rs = Some r"
  shows "\<exists>ys. rs = takeWhile (\<lambda>r. \<not> P r) rs @ r # ys \<and> P r"
  using assms by (induction rs) (auto split: if_splits)

text \<open>The place noted for the length of a run that a successful scan passed is behind the closer.\<close>

lemma scan_overwrites:
  assumes s: "ticks_ok s" "0 < n" and r: "scan_to_closing_backticks s n = Inr (e, s')" "e \<noteq> 0"
    and i: "(i, m) \<in> set (runs_of s)" "i < e - n" "m \<noteq> n" "m \<le> MAXBACKTICKS"
  shows "sj_backticks s' ! nat m \<le> e \<and> 0 \<le> e \<and> 0 < m \<and> ticks_ok s' \<and> sj_input s' = sj_input s \<and>
    sj_scanned_for_backticks s' = sj_scanned_for_backticks s"
proof -
  let ?seen = "takeWhile (\<lambda>r. \<not> run_of n r) (runs_of s)"
  have "closing_loop s n = Inr (e, s')"
    using r by (auto simp: scan_to_closing_backticks_def bindr_def split: if_splits sum.splits)
  then have res: "scan_result s n = (e, s')" using closing_loop_eq [OF s] by simp
  then obtain j k where f: "List.find (run_of n) (runs_of s) = Some (j, k)"
    using r(2) by (auto simp: scan_result_def Let_def split: option.splits)
  have "(e, s') = (j + k, s\<lparr>sj_pos := j + k,
      sj_backticks := store_run (foldl store_run (sj_backticks s) ?seen) (j, k)\<rparr>)"
    unfolding res [symmetric] by (simp add: scan_result_def Let_def f)
  then have res': "e = j + k"
    "s' = s\<lparr>sj_pos := j + k, sj_backticks := store_run (foldl store_run (sj_backticks s) ?seen) (j, k)\<rparr>"
    by simp_all
  obtain ys where ys: "runs_of s = ?seen @ (j, k) # ys" "k = n" using find_split [OF f] by (auto simp: run_of_def)
  have sorted: "sorted_wrt (\<lambda>r r'. fst r < fst r') (?seen @ (j, k) # ys)" using tick_runs_sorted ys(1) by metis
  have pos: "\<forall>r \<in> set (runs_of s). 0 < snd r" using tick_runs_bounds by fastforce
  have seen: "(i, m) \<in> set ?seen" "\<forall>r \<in> set ?seen. fst r \<le> e \<and> 0 < snd r"
  proof -
    have "(i, m) \<in> set ?seen \<or> (i, m) \<in> set ((j, k) # ys)" using i(1) ys(1) by (metis Un_iff set_append)
    moreover have "(i, m) \<notin> set ((j, k) # ys)" using sorted i(2,3) ys(2) res'(1) by (auto simp: sorted_wrt_append)
    ultimately show "(i, m) \<in> set ?seen" by blast
    show "\<forall>r \<in> set ?seen. fst r \<le> e \<and> 0 < snd r"
      using sorted pos s(2) ys(2) res'(1) set_takeWhileD by (fastforce simp: sorted_wrt_append)
  qed
  have m: "0 < m" using pos i(1) by fastforce
  have "foldl store_run (sj_backticks s) ?seen ! nat m \<le> e"
    using stored_below [OF seen(2,1) i(4)] s(1) by (simp add: ticks_ok_def)
  moreover have "nat k \<noteq> nat m" using ys(2) i(3) m s(2) by auto
  ultimately have "sj_backticks s' ! nat m \<le> e" unfolding res'(2) by (simp add: store_run_nth(2))
  moreover have "(j, k) \<in> set (runs_of s)" using ys(1) by (metis in_set_conv_decomp)
  then have "ticks_ok s'"
    using s(1) tick_runs_bounds [of j k "sj_pos s" "rest_of s"] length_rest [of s] unfolding res'(2) by (auto simp: ticks_ok_def subject_ok_def)
  moreover have "0 \<le> e"
    using tick_runs_bounds [OF i(1)] i(2) s by (simp add: ticks_ok_def subject_ok_def)
  ultimately show ?thesis using m unfolding res'(2) by simp
qed

text \<open>
  C40: The memo goes wrong when a scan that finds its closer comes after one that did not
  (\<open>scanned_for_backticks\<close> is set): it overwrites the positions of the runs that it passes with smaller ones.
  Let a scan from \<open>s\<close> for \<open>n\<close> backticks find its closer, which ends at \<open>e\<close>, and pass a run of \<open>m\<close> backticks.  Then
  every later run of \<open>m\<close> backticks is taken for text, whatever follows it, a closer as well: the witness is a text
  in which the run of two at 12 has its closer at 17.
\<close>

theorem backtick_memo_stale:
  assumes "ticks_ok s" "sj_scanned_for_backticks s" "0 < n"
    and "scan_to_closing_backticks s n = Inr (e, s')" "e \<noteq> 0"
    and "(i, m) \<in> set (runs_of s)" "i < e - n" "m \<noteq> n" "m \<le> MAXBACKTICKS"
    and "e \<le> q" "q < ch_len (sj_input s)" "t = s'\<lparr>sj_pos := q\<rparr>"
    and "hd_opt (rest_of t) = Some BACKTICK" "opener_len t = nat m"
  shows "\<exists>nd c. handle_backticks h t options = Inr (length h, h @ [Some nd], moved t (nat m)) \<and>
    n_type nd = CMARK_NODE_TEXT \<and> n_as nd = As_literal c \<and> chunk_bytes c = replicate (nat m) BACKTICK"
proof -
  note o = scan_overwrites [OF assms(1,3-9)]
  have ok: "ticks_ok t" using o assms(10-12) assms(1) by (auto simp: ticks_ok_def subject_ok_def)
  have okt: "subject_ok t" using ok by (simp add: ticks_ok_def)
  have ne: "rest_of t \<noteq> []" using assms(13) by auto
  obtain c where c: "take_while isbacktick t = Inr (c, moved t (nat m))" "chunk_ok c"
    "chunk_bytes c = replicate (nat m) BACKTICK"
    using take_while_eq [OF okt ne, of isbacktick] takeWhile_ticks [of "rest_of t"] assms(14) by (auto simp: opener_len_def)
  have len: "ch_len c = m" using chunk_len [OF c(2)] c(3) o by simp
  have pk: "peek (sj_backticks t) m = Inr (sj_backticks t ! nat m)"
    using ok o assms(9) by (simp add: peek_def ticks_ok_def MAXBACKTICKS_def)
  have "sj_backticks t ! nat m \<le> q" "sj_scanned_for_backticks t" "sj_pos t = q"
    using o assms(2,10,12) by simp_all
  then have "scan_to_closing_backticks (moved t (nat m)) m = Inr (0, moved t (nat m))"
    using pk o assms(9) by (simp add: scan_to_closing_backticks_def)
  then show ?thesis
    using c len by (simp add: handle_backticks_def make_str_def make_literal_def strbuf_init_0 Let_def)
qed

text \<open>The subject behind the backtick at 5 of a text, after the run of four at 0 was found to have no closer.\<close>

definition stale_text :: "byte list" where
  "stale_text = str ''```` ` `` ` `` x ``''"

definition stale_subject :: subject where
  "stale_subject =
     (case scan_to_closing_backticks (tick_subject stale_text\<lparr>sj_pos := 4\<rparr>) 4 of
        Inr (_, s) \<Rightarrow> s\<lparr>sj_pos := 6\<rparr>
      | Inl _ \<Rightarrow> tick_subject stale_text)"

theorem backtick_memo_stale_witness:
  "\<exists>s' nd c. scan_to_closing_backticks stale_subject 1 = Inr (11, s') \<and>
     closer_pos 2 (moved (s'\<lparr>sj_pos := 12\<rparr>) 2) = 19 \<and>
     handle_backticks [] (s'\<lparr>sj_pos := 12\<rparr>) 0 = Inr (0, [Some nd], s'\<lparr>sj_pos := 14\<rparr>) \<and>
     n_type nd = CMARK_NODE_TEXT \<and> n_as nd = As_literal c \<and> chunk_bytes c = str ''``''"
proof -
  have ok: "ticks_ok stale_subject" and sc: "sj_scanned_for_backticks stale_subject"
    and mem: "(7, 2) \<in> set (runs_of stale_subject)" and q: "12 < ch_len (sj_input stale_subject)"
    by code_simp+
  have "case scan_to_closing_backticks stale_subject 1 of
      Inr (e, s') \<Rightarrow> e = 11 \<and> closer_pos 2 (moved (s'\<lparr>sj_pos := 12\<rparr>) 2) = 19 \<and>
        hd_opt (rest_of (s'\<lparr>sj_pos := 12\<rparr>)) = Some BACKTICK \<and> opener_len (s'\<lparr>sj_pos := 12\<rparr>) = 2
    | Inl _ \<Rightarrow> False"
    by code_simp
  then obtain s' where s': "scan_to_closing_backticks stale_subject 1 = Inr (11, s')"
    "closer_pos 2 (moved (s'\<lparr>sj_pos := 12\<rparr>) 2) = 19"
    "hd_opt (rest_of (s'\<lparr>sj_pos := 12\<rparr>)) = Some BACKTICK" "opener_len (s'\<lparr>sj_pos := 12\<rparr>) = nat 2"
    by (auto split: sum.splits prod.splits)
  from backtick_memo_stale [OF ok sc _ s'(1) _ mem _ _ _ _ q refl s'(3,4), of "[]" 0]
  obtain nd c where "handle_backticks [] (s'\<lparr>sj_pos := 12\<rparr>) 0 = Inr (0, [Some nd], moved (s'\<lparr>sj_pos := 12\<rparr>) 2)"
    "n_type nd = CMARK_NODE_TEXT" "n_as nd = As_literal c" "chunk_bytes c = replicate 2 BACKTICK"
    by (auto simp: MAXBACKTICKS_def)
  then show ?thesis using s'(1,2) by (simp add: moved_def numeral_2_eq_2)
qed

end
