(* ===== verification/Spec2Isabelle.thy ===== *)
theory Spec2Isabelle
  imports Prelude Ctype Strbuf Chunk Utf8 Node Node_Links Node_Free Node_Tree Iterator Node_Check Houdini Case_Fold Ref_Map Ref_Lookup
    Node_Samples Footnotes Arena Registry Html Html_Tags Render_Walk Html_Nesting Feed Xml Xml_Nesting Tagfilter
    Subject Backticks
begin

text \<open>
  Verification development for cmark-gfm, the CommonMark parser and renderer with the GitHub extensions.

  \<^bold>\<open>The program.\<close>  A parser is fed with pieces of text.  Feeding (blocks.c) cuts them into lines; the block
  parser opens and closes blocks line by line and builds a tree of nodes (node.c); the inline parser
  (inlines.c) replaces the text of the leaf blocks by inline nodes.  Link reference definitions and
  footnote definitions are collected in maps (map.c, references.c, footnotes.c) that later references are
  looked up in.  A renderer (html.c, xml.c and others) walks over the finished tree with an iterator
  (iterator.c) and writes to a growable buffer (buffer.c), escaping with the houdini files and utf8.c.
  Syntax extensions (syntax_extension.c, registry.c, src/extensions) hook into all of that by callbacks.
  Memory comes from an allocator that the caller chooses, for instance the arena (arena.c).

  \<^bold>\<open>How the code is modelled.\<close>  An operation of C is a function on explicit states that returns
  \<open>fault + result\<close> (\<open>Prelude\<close>): aborts, failed assertions, null and dangling pointers, accesses outside
  a memory block, signed overflow and reads of an inactive union member are values \<open>Inl\<close>.  A theorem
  that says that an operation returns \<open>Inr\<close> therefore says that it is free of all of them.  A memory block
  is a list of bytes with checked accesses, a pointer into it the block from there on or an index.  The
  nodes of documents are cells of a heap.  \<open>int\<close> and \<open>bufsize_t\<close> are integers, with overflow as a fault where
  input can cause it; \<open>uint32_t\<close>, \<open>size_t\<close> and flag words are machine words.

  \<^bold>\<open>The theories.\<close>  All paths are below src/src.
  \<^item> \<open>Prelude\<close>: faults, the sequencing \<open>bindr\<close>, bytes, memory blocks, 32-bit arithmetic.
  \<^item> \<open>Ctype\<close> (cmark_ctype.c), \<open>Strbuf\<close> (buffer.c), \<open>Chunk\<close> (include/chunk.h): the byte level.  The record
    \<open>cmark_strbuf\<close> has the members of the struct; \<open>contents\<close> is its abstraction, \<open>strbuf_inv\<close> and
    \<open>strbuf_ok\<close> its invariant.  The locale \<open>byte_sink\<close> says what appending promises; what is written through
    it is derived in the locale (\<open>appends\<close>) and used for the escapers, the maps and the renderers.
  \<^item> \<open>Utf8\<close>, \<open>Case_Fold\<close> (utf8.c, case_fold_switch.inc), \<open>Entities\<close>, \<open>Houdini\<close> (entities.inc, houdini_*.c):
    decoding, encoding, sanitising and folding of text, escaping and unescaping, each against a list function.
  \<^item> \<open>Node\<close>, \<open>Node_Links\<close>, \<open>Node_Free\<close>, \<open>Node_Tree\<close> (node.c): \<open>cmark_node\<close> is the struct with its union as a
    datatype.  \<open>links h kids\<close> relates the pointers of a heap to lists of children, every linking operation refines
    the operation on these lists (\<open>insert_refines\<close>, \<open>child_refines\<close>, \<open>unlink_refines\<close>), and \<open>forest\<close> is kept by
    all of them (\<open>reachable_forest\<close>), by rule induction over the steps of a client.  A node that is put next to or in the
    place of itself is the exception: the code does not refuse it, and the result is no forest.
  \<^item> \<open>Iterator\<close> (iterator.c): the locale \<open>pointer_tree\<close> is what a walk needs; the iterator visits a tree in document
    order, and text nodes can be merged on the way.  \<open>Node_Check\<close> (\<open>cmark_node_check\<close> of node.c): what the consistency
    check repairs.
  \<^item> \<open>Ref_Map\<close>, \<open>Ref_Lookup\<close> (map.c, references.c and the cleaning functions of inlines.c), \<open>Footnotes\<close>
    (footnotes.c and process_footnotes of blocks.c): the map is an association list in which the first definition
    wins.  The locales \<open>comparator\<close> and \<open>searcher\<close> are the contracts of qsort and bsearch.
  \<^item> \<open>Arena\<close> (arena.c): the locale \<open>allocator\<close> is the contract of an allocator whose live blocks are disjoint.  The
    header with the size of an allocation is in the bytes of its chunk, where \<open>arena_realloc\<close> reads it.
  \<^item> \<open>Registry\<close> (linked_list.c, syntax_extension.c, plugin.c, registry.c, ../extensions/core-extensions.c): the
    life of extension objects.
  \<^item> \<open>Feed\<close> (blocks.c): the state machine \<open>feed_byte\<close> is the specification of the cutting into lines; whatever way the
    input is split into non-empty pieces, the loops of the code make the calls it says.  (An empty piece behind a CR
    makes the code forget the CR.)
  \<^item> \<open>Html\<close>, \<open>Html_Tags\<close>, \<open>Render_Walk\<close>, \<open>Html_Nesting\<close> (html.c), \<open>Xml\<close>, \<open>Xml_Nesting\<close> (xml.c), \<open>Tagfilter\<close>
    (../extensions/tagfilter.c): a renderer returns the list of calls it makes on the buffer.  \<open>well_nested\<close> is a scanner
    for the tags of an output.  \<open>visit_all\<close> makes the calls of a renderer for the nodes of a tree in document order; what
    they write is shown to pass the scanner for every tree, and to be what is returned (\<open>renders\<close>).  The
    locale \<open>event_renderer\<close> is the loop over the iterator that both renderers are.
  \<^item> \<open>Subject\<close>, \<open>Backticks\<close> (inlines.c): the state of the inline parser with its basic operations, and code spans: the
    search for the closer is compared with the list of the runs of backticks of the text, the memo of earlier
    searches with the runs ahead (\<open>memo_ok\<close>), and the normalised text with the one of test/spec.txt.
  \<^item> \<open>Node_Samples\<close>: concrete heaps for the examples.

  \<^bold>\<open>Bounds and fuel.\<close>  Loops that go through memory or a list are recursive functions with a termination proof.
  Walks along pointers take fuel, and running out of it is the fault \<open>Out_of_fuel\<close>.  For a walk over a tree every
  fuel above twice the number of cells is enough, because every node is entered and left at most once; for a walk to the
  ancestors the number of cells; for freeing the number of cells, because each step frees one; for feeding the
  length of the input.  The theorems hold for every fuel from that on.  A buffer aborts beyond \<open>grow_limit\<close>, half of
  the range of \<open>int32_t\<close>; the theorems about outputs say that they are complete, or that they do not fit.

  \<^bold>\<open>Not modelled.\<close>  The block parser beyond the feeding of its lines, and the matching callbacks of the extensions: they are
  driven at every step by the scanners, which re2c generates (scanners.c and ext_scanners.c are goto
  tables).  The inline parser apart from its cleaning functions, the subject and the code spans.  The renderers that use render.c (CommonMark, LaTeX, man,
  plain text).  xcalloc and xrealloc of cmark.c, the version functions and the programs under bin, api_test, fuzz and bench.
  The locks of mutex.h make an operation one step, and interleavings within it are not considered.  Files are the blocks that
  fread returns.  Callbacks of extensions are parameters, with the assumptions stated where they are used.
\<close>

end
